(* ===== verification/Go_Prelude.thy ===== *)
theory Go_Prelude
  imports Main "HOL-Library.AList" "HOL-Library.Multiset" "HOL-Library.Word"
    "HOL-Library.Char_ord" "HOL-Library.List_Lexorder"
begin

text \<open>
  What every component of the development shares: the outcome of a Go function that may stop
  the process, Go's maps as association lists, the collections of simplification rules, and the
  generic lemmas on lists, counts and maps that the component proofs rest on.
\<close>

named_theorems go_simps \<open>unfolding rules for the outcome monad and the Go map operations\<close>

text \<open>
  The outcome of running a Go function. \<open>Ret v\<close>: it returned \<open>v\<close>. \<open>Fatal f\<close>: it called
  \<^verbatim>\<open>log.Fatalf\<close>, \<^verbatim>\<open>t.Fatalf\<close> or \<^verbatim>\<open>ts.Fatalf\<close>, none of which returns to the caller; \<open>f\<close> is the
  format string of the call, which identifies it. \<open>Panic m\<close>: a run-time panic. \<open>Diverge\<close>: it
  does not return.
\<close>

datatype 'a go = Ret 'a | Fatal string | Panic string | Diverge

fun go_bind :: "'a go \<Rightarrow> ('a \<Rightarrow> 'b go) \<Rightarrow> 'b go" where
  "go_bind (Ret v) f = f v"
| "go_bind (Fatal m) f = Fatal m"
| "go_bind (Panic m) f = Panic m"
| "go_bind Diverge f = Diverge"

definition go_of_option :: "'a option \<Rightarrow> 'a go" where
  "go_of_option x = (case x of None \<Rightarrow> Diverge | Some v \<Rightarrow> Ret v)"

text \<open>
  A Go map. Looking up is \<^const>\<open>map_of\<close>, storing is \<^const>\<open>AList.update\<close> and deleting is
  \<^const>\<open>AList.delete\<close>. The keys are distinct, and the order of the list is the order in which the
  next \<^verbatim>\<open>range\<close> statement visits the entries: Go leaves that order open, so a statement about
  every association list is a statement about every iteration order.
\<close>

type_synonym ('k, 'v) gomap = "('k \<times> 'v) list"

abbreviation gm_keys :: "('k, 'v) gomap \<Rightarrow> 'k list" where
  "gm_keys m \<equiv> map fst m"

abbreviation gm_has :: "('k, 'v) gomap \<Rightarrow> 'k \<Rightarrow> bool" where
  "gm_has m k \<equiv> k \<in> fst ` set m"

definition gm_get :: "'v \<Rightarrow> ('k, 'v) gomap \<Rightarrow> 'k \<Rightarrow> 'v" where
  \<comment> \<open>Reading a missing key gives the zero value of the element type.\<close>
  "gm_get zero m k = (case map_of m k of None \<Rightarrow> zero | Some v \<Rightarrow> v)"

text \<open>Group identifiers, \<^verbatim>\<open>tester.Tgid\<close>.\<close>

type_synonym tgid = int

text \<open>Indexing a slice panics out of range; a loop over a slice runs its body on each element.\<close>

definition go_nth :: "'a list \<Rightarrow> nat \<Rightarrow> 'a go" where
  "go_nth xs i = (if i < length xs then Ret (xs ! i) else Panic ''index out of range'')"

fun fold_go :: "('x \<Rightarrow> 's \<Rightarrow> 's go) \<Rightarrow> 'x list \<Rightarrow> 's \<Rightarrow> 's go" where
  "fold_go f [] s = Ret s"
| "fold_go f (x # xs) s = go_bind (f x s) (fold_go f xs)"

lemma go_bind_Ret_iff [go_simps]:
  "go_bind m f = Ret v \<longleftrightarrow> (\<exists>u. m = Ret u \<and> f u = Ret v)"
  by (cases m) auto

lemma go_bind_cong [fundef_cong]:
  "m = m' \<Longrightarrow> (\<And>v. m' = Ret v \<Longrightarrow> f v = f' v) \<Longrightarrow> go_bind m f = go_bind m' f'"
  by (cases m') auto

lemma fold_go_keeps:
  assumes "fold_go f xs s = Ret s'" "\<And>x s s'. f x s = Ret s' \<Longrightarrow> P s' = P s"
  shows "P s' = P s"
  using assms(1) by (induction xs arbitrary: s) (auto simp: go_bind_Ret_iff dest: assms(2))

lemma go_of_option_simps [simp]:
  "go_of_option None = Diverge"
  "go_of_option (Some v) = Ret v"
  by (simp_all add: go_of_option_def)

lemma go_of_option_Ret [go_simps]: "go_of_option x = Ret v \<longleftrightarrow> x = Some v"
  by (cases x) auto

lemma gm_get_update [simp]:
  "gm_get z (AList.update k v m) k' = (if k = k' then v else gm_get z m k')"
  by (simp add: gm_get_def update_conv)

lemma gm_get_Nil [simp]: "gm_get z [] k = z"
  by (simp add: gm_get_def)

lemma gm_has_update [simp]: "gm_has (AList.update k v m) k' \<longleftrightarrow> k' = k \<or> gm_has m k'"
  by (auto simp: update_keys dom_update[symmetric] dom_map_of_conv_image_fst[symmetric] update_conv)

lemma gm_has_delete [simp]: "gm_has (AList.delete k m) k' \<longleftrightarrow> k' \<noteq> k \<and> gm_has m k'"
  by (force simp: AList.delete_eq)

lemma gm_get_has: "gm_has m k \<longleftrightarrow> (\<exists>v. map_of m k = Some v)"
  by (metis (no_types) map_of_eq_None_iff not_None_eq)

text \<open>How one assignment to an array slot changes the number of occurrences of each value.\<close>

lemma count_list_list_update:
  assumes "i < length xs"
  shows "int (count_list (xs[i := y]) g) =
    int (count_list xs g) - (if xs ! i = g then 1 else 0) + (if y = g then 1 else 0)"
proof -
  have "count (mset (xs[i := y])) g = count (add_mset y (mset xs - {#xs ! i#})) g"
    using assms by (simp add: mset_update)
  moreover have "xs ! i = g \<Longrightarrow> 0 < count (mset xs) g"
    using assms by auto
  ultimately show ?thesis by (auto simp: count_mset)
qed

text \<open>A loop over a copy of an array has always a suffix of that array left to visit.\<close>

lemma Cons_eq_dropD:
  assumes "x # xs = drop s ys"
  shows "s < length ys" "x = ys ! s" "xs = drop (Suc s) ys"
proof -
  show s: "s < length ys" using assms by (metis drop_eq_Nil list.discI not_le)
  show "x = ys ! s" using assms s by (metis hd_drop_conv_nth list.sel(1))
  show "xs = drop (Suc s) ys" using assms by (metis list.sel(3) tl_drop drop_Suc)
qed

text \<open>Storing a new key puts it last; the rest of the map is untouched.\<close>

lemma alist_update_fresh: "\<not> gm_has m k \<Longrightarrow> AList.update k v m = m @ [(k, v)]"
  by (induction m) auto

lemma gm_get_fresh: "\<not> gm_has m k \<Longrightarrow> gm_get z m k = z"
  by (simp add: gm_get_def map_of_eq_None_iff[THEN iffD2])

lemma alist_delete_filter: "AList.delete k m = filter (\<lambda>e. fst e \<noteq> k) m"
  by (auto simp: AList.delete_eq intro: filter_cong)

lemma go_nth_in [simp]: "i < length xs \<Longrightarrow> go_nth xs i = Ret (xs ! i)"
  by (simp add: go_nth_def)

text \<open>
  The rule for loops: an assertion about the elements already visited that every run of the body
  keeps holds at the end, and the loop returns.
\<close>

lemma fold_go_rule_from:
  assumes "P vis s" "\<And>xs x s. P xs s \<Longrightarrow> x \<in> set ys \<Longrightarrow> \<exists>s'. f x s = Ret s' \<and> P (xs @ [x]) s'"
  shows "\<exists>s'. fold_go f ys s = Ret s' \<and> P (vis @ ys) s'"
  using assms
proof (induction ys arbitrary: vis s)
  case (Cons y ys)
  from Cons.prems(2)[OF Cons.prems(1), of y] obtain s1 where s1: "f y s = Ret s1" "P (vis @ [y]) s1" by auto
  from Cons.IH[OF s1(2)] Cons.prems(2) obtain s' where "fold_go f ys s1 = Ret s'" "P ((vis @ [y]) @ ys) s'"
    by auto
  with s1 show ?case by simp
qed simp

lemma fold_go_rule:
  assumes "P [] s" "\<And>xs x s. P xs s \<Longrightarrow> x \<in> set ys \<Longrightarrow> \<exists>s'. f x s = Ret s' \<and> P (xs @ [x]) s'"
  shows "\<exists>s'. fold_go f ys s = Ret s' \<and> P ys s'"
  using fold_go_rule_from[of P "[]" s ys f] assms by simp

text \<open>A loop whose body always returns is an ordinary fold.\<close>

lemma fold_go_total: "(\<And>x s. x \<in> set xs \<Longrightarrow> f x s = Ret (h x s)) \<Longrightarrow> fold_go f xs s = Ret (fold h xs s)"
  by (induction xs arbitrary: s) auto

text \<open>A Go function comes back to the runtime: it returns, panics or ends the process.\<close>

definition returns :: "'a go \<Rightarrow> bool" where
  "returns m \<longleftrightarrow> m \<noteq> Diverge"

named_theorems go_returns \<open>introduction rules for functions that do not run forever\<close>

lemma returns_simps [simp]: "returns (Ret v)" "returns (Fatal e)" "returns (Panic e)" "\<not> returns Diverge"
  by (simp_all add: returns_def)

lemma returns_bind [go_returns]: "returns m \<Longrightarrow> (\<And>v. m = Ret v \<Longrightarrow> returns (f v)) \<Longrightarrow> returns (go_bind m f)"
  by (cases m) auto

lemma returns_fold [go_returns]: "(\<And>x s. x \<in> set xs \<Longrightarrow> returns (f x s)) \<Longrightarrow> returns (fold_go f xs s)"
  by (induction xs arbitrary: s) (auto intro!: returns_bind)

lemma returns_nth [go_returns]: "returns (go_nth xs i)"
  by (simp add: go_nth_def)

lemma returns_if [go_returns]: "(b \<Longrightarrow> returns m) \<Longrightarrow> (\<not> b \<Longrightarrow> returns n) \<Longrightarrow> returns (if b then m else n)"
  by simp

lemma returns_option [go_returns]: "(x = None \<Longrightarrow> returns m) \<Longrightarrow> (\<And>v. x = Some v \<Longrightarrow> returns (f v)) \<Longrightarrow> returns (case x of None \<Rightarrow> m | Some v \<Rightarrow> f v)"
  by (cases x) auto

lemma returns_prod [go_returns]: "(\<And>a b. x = (a, b) \<Longrightarrow> returns (f a b)) \<Longrightarrow> returns (case x of (a, b) \<Rightarrow> f a b)"
  by (cases x) auto

lemma returns_prod2 [go_returns]:
  "(\<And>x y. a = (x, y) \<Longrightarrow> returns (f x y b)) \<Longrightarrow> returns ((case a of (x, y) \<Rightarrow> f x y) b)"
  by (cases a) auto

end
