(* ===== verification/Go_Stdlib.thy ===== *)
theory Go_Stdlib
  imports Go_Prelude
begin

text \<open>
  The parts of Go's standard library that the sources use and whose behaviour the properties
  depend on: the FNV-1a hash, printing and parsing decimal numbers, \<^verbatim>\<open>strings.Join\<close>, \<^verbatim>\<open>strings.LastIndex\<close>,
  \<^verbatim>\<open>strings.FieldsFunc\<close>, the runes of a string and the \<open>%v\<close> rendering of integer slices. A Go string is a sequence
  of bytes, here a list of \<^typ>\<open>char\<close>.
\<close>

unbundle bit_operations_syntax

subsection \<open>hash/fnv: the 32-bit FNV-1a hash\<close>

definition fnv_offset32 :: "32 word" where
  "fnv_offset32 = 2166136261"

definition fnv_prime32 :: "32 word" where
  "fnv_prime32 = 16777619"

definition fnv32a_byte :: "32 word \<Rightarrow> char \<Rightarrow> 32 word" where
  "fnv32a_byte h c = (h XOR of_char c) * fnv_prime32"

definition fnv32a :: "string \<Rightarrow> 32 word" where
  "fnv32a s = foldl fnv32a_byte fnv_offset32 s"

subsection \<open>strconv: decimal printing\<close>

fun digit_char :: "nat \<Rightarrow> char" where
  "digit_char d = char_of (48 + d)"

fun utoa :: "nat \<Rightarrow> string" where
  "utoa n = (if n < 10 then [digit_char n] else utoa (n div 10) @ [digit_char (n mod 10)])"

definition itoa :: "int \<Rightarrow> string" where
  "itoa i = (if i < 0 then CHR ''-'' # utoa (nat (- i)) else utoa (nat i))"

declare utoa.simps [simp del]

subsection \<open>strings\<close>

fun strings_join :: "string list \<Rightarrow> string \<Rightarrow> string" where
  "strings_join [] sep = []"
| "strings_join [x] sep = x"
| "strings_join (x # xs) sep = x @ sep @ strings_join xs sep"

fun last_index_from :: "char \<Rightarrow> string \<Rightarrow> int \<Rightarrow> int \<Rightarrow> int" where
  "last_index_from c [] i found = found"
| "last_index_from c (x # xs) i found = last_index_from c xs (i + 1) (if x = c then i else found)"

definition last_index :: "string \<Rightarrow> char \<Rightarrow> int" where
  \<comment> \<open>\<^verbatim>\<open>strings.LastIndex\<close> for a one-byte separator: -1 when it does not occur.\<close>
  "last_index s c = last_index_from c s 0 (- 1)"

text \<open>
  \<^verbatim>\<open>strings.FieldsFunc\<close>: the maximal runs of elements that do not satisfy the separator
  predicate. The accumulator is the current run, reversed.
\<close>

fun fields_func_acc :: "('c \<Rightarrow> bool) \<Rightarrow> 'c list \<Rightarrow> 'c list \<Rightarrow> 'c list list" where
  "fields_func_acc sep [] cur = (if cur = [] then [] else [rev cur])"
| "fields_func_acc sep (c # cs) cur =
     (if sep c then (if cur = [] then fields_func_acc sep cs [] else rev cur # fields_func_acc sep cs [])
      else fields_func_acc sep cs (c # cur))"

definition fields_func :: "('c \<Rightarrow> bool) \<Rightarrow> 'c list \<Rightarrow> 'c list list" where
  "fields_func sep s = fields_func_acc sep s []"

text \<open>The \<open>%v\<close> rendering of a slice of integers: \<^verbatim>\<open>[1 2 3]\<close>.\<close>

definition show_ints :: "int list \<Rightarrow> string" where
  "show_ints xs = ''['' @ strings_join (map itoa xs) '' '' @ '']''"

subsection \<open>utf8: the runes of a string\<close>

definition in_range :: "nat \<Rightarrow> nat \<Rightarrow> char \<Rightarrow> bool" where
  "in_range lo hi c \<longleftrightarrow> lo \<le> of_char c \<and> of_char c \<le> hi"

abbreviation cont_byte :: "char \<Rightarrow> bool" where
  "cont_byte \<equiv> in_range 0x80 0xBF"

definition payload :: "char \<Rightarrow> nat" where
  "payload c = of_char c mod 64"

text \<open>
  One step of \<^verbatim>\<open>range\<close> over a string: the rune and the number of bytes it takes. A byte that begins
  no well-formed encoding counts as the replacement character; the empty string gives it too, and takes no byte.
\<close>

definition decode_rune :: "string \<Rightarrow> nat \<times> nat" where
  "decode_rune s = (if s = [] then (0xFFFD, 0) else let n = length s; b = (\<lambda>i. s ! i); b0 = of_char (b 0) in
     if b0 < 0x80 then (b0, 1)
     else if 0xC2 \<le> b0 \<and> b0 \<le> 0xDF \<and> 2 \<le> n \<and> cont_byte (b 1)
       then (b0 mod 32 * 64 + payload (b 1), 2)
     else if 0xE0 \<le> b0 \<and> b0 \<le> 0xEF \<and> 3 \<le> n \<and> in_range (if b0 = 0xE0 then 0xA0 else 0x80) (if b0 = 0xED then 0x9F else 0xBF) (b 1) \<and> cont_byte (b 2)
       then (b0 mod 16 * 4096 + payload (b 1) * 64 + payload (b 2), 3)
     else if 0xF0 \<le> b0 \<and> b0 \<le> 0xF4 \<and> 4 \<le> n \<and> in_range (if b0 = 0xF0 then 0x90 else 0x80) (if b0 = 0xF4 then 0x8F else 0xBF) (b 1) \<and> cont_byte (b 2) \<and> cont_byte (b 3)
       then (b0 mod 8 * 262144 + payload (b 1) * 4096 + payload (b 2) * 64 + payload (b 3), 4)
     else (0xFFFD, 1))"

lemma decode_rune_width: "s \<noteq> [] \<Longrightarrow> 0 < snd (decode_rune s)"
  by (simp add: decode_rune_def Let_def)

function runes :: "string \<Rightarrow> (nat \<times> string) list" where
  "runes s = (if s = [] then [] else let (r, w) = decode_rune s in (r, take w s) # runes (drop w s))"
  by auto
termination
  by (relation "measure length") (auto dest: arg_cong[where f = snd] simp: decode_rune_width intro!: Nat.diff_less)

declare runes.simps [simp del]

subsection \<open>strconv: parsing numbers\<close>

text \<open>
  \<^verbatim>\<open>strconv.ParseInt(s, 10, 64)\<close>: the value and whether there is no error. With an error the value is \<open>0\<close> for a string that is no number and the nearest
  bound for a number that is out of range, which is decided at the digit that leaves the unsigned range. \<^verbatim>\<open>strconv.Atoi\<close> is documented as this function.
\<close>

datatype parsed = Parsed nat | BadSyntax | OutOfRange

fun parse_digits :: "string \<Rightarrow> nat \<Rightarrow> parsed" where
  "parse_digits [] n = Parsed n"
| "parse_digits (c # s) n =
     (if \<not> in_range 48 57 c then BadSyntax
      else let n1 = 10 * n + (of_char c - 48) in if 2 ^ 64 \<le> n1 then OutOfRange else parse_digits s n1)"

definition ParseUint :: "string \<Rightarrow> parsed" where
  "ParseUint s = (if s = [] then BadSyntax else parse_digits s 0)"

definition ParseInt :: "string \<Rightarrow> int \<times> bool" where
  "ParseInt s0 =
     (let neg = (s0 \<noteq> [] \<and> hd s0 = CHR ''-'');
          s = (if s0 \<noteq> [] \<and> (hd s0 = CHR ''-'' \<or> hd s0 = CHR ''+'') then tl s0 else s0);
          un = (case ParseUint s of Parsed n \<Rightarrow> Some (int n) | OutOfRange \<Rightarrow> Some (2 ^ 64 - 1) | BadSyntax \<Rightarrow> None)
      in case un of
           None \<Rightarrow> (0, False)
         | Some u \<Rightarrow> if \<not> neg \<and> u \<ge> 2 ^ 63 then (2 ^ 63 - 1, False) else if neg \<and> u > 2 ^ 63 then (- (2 ^ 63), False)
             else (if neg then - u else u, True))"

subsection \<open>Facts\<close>

lemma of_char_nat_word: "of_char c = (word_of_nat (of_char c) :: 'a::len word)"
  by (simp add: of_char_def)

lemma utoa_nonempty [simp]: "utoa n \<noteq> []"
  by (subst utoa.simps) simp

fun undigits :: "nat \<Rightarrow> string \<Rightarrow> nat" where
  "undigits a [] = a"
| "undigits a (c # cs) = undigits (10 * a + (of_char c - 48)) cs"

lemma undigits_append: "undigits a (xs @ ys) = undigits (undigits a xs) ys"
  by (induction xs arbitrary: a) auto

lemma of_char_digit: "d < 10 \<Longrightarrow> of_char (digit_char d) = (48 + d :: nat)"
  by (simp add: of_char_of)

lemma undigits_utoa: "undigits 0 (utoa n) = n"
proof (induction n rule: utoa.induct)
  case (1 n)
  show ?case
  proof (cases "n < 10")
    case True
    then show ?thesis by (subst utoa.simps) (simp add: of_char_digit del: digit_char.simps)
  next
    case False
    with 1 have "undigits 0 (utoa (n div 10)) = n div 10" by simp
    with False show ?thesis
      by (subst utoa.simps) (simp add: undigits_append of_char_digit del: digit_char.simps)
  qed
qed

lemma utoa_inj: "utoa m = utoa n \<Longrightarrow> m = n"
  by (metis undigits_utoa)

lemma utoa_digits: "c \<in> set (utoa n) \<Longrightarrow> \<exists>d<10. c = digit_char d"
proof (induction n rule: utoa.induct)
  case (1 n)
  show ?case
  proof (cases "n < 10")
    case True
    with 1(2) show ?thesis by (subst (asm) utoa.simps) auto
  next
    case False
    with 1(2) have "c \<in> set (utoa (n div 10)) \<or> c = digit_char (n mod 10)"
      by (subst (asm) utoa.simps) auto
    with 1(1)[OF False] show ?thesis by (auto simp del: digit_char.simps intro: exI[of _ "n mod 10"])
  qed
qed

lemma utoa_no_minus: "CHR ''-'' \<notin> set (utoa n)"
proof
  assume "CHR ''-'' \<in> set (utoa n)"
  then obtain d where "d < 10" and "CHR ''-'' = digit_char d"
    using utoa_digits by blast
  then have "of_char (CHR ''-'') = (48 + d :: nat)" using of_char_digit by metis
  then show False by simp
qed

lemma itoa_inj: "itoa i = itoa j \<Longrightarrow> i = j"
proof -
  assume eq: "itoa i = itoa j"
  have "hd (utoa n) \<noteq> CHR ''-''" for n
    using utoa_no_minus[of n] hd_in_set[OF utoa_nonempty[of n]] by metis
  then have hd_eq: "(hd (itoa k) = CHR ''-'') = (k < 0)" for k
    by (simp add: itoa_def)
  then have "(i < 0) = (j < 0)" using eq by metis
  with eq show ?thesis by (auto simp: itoa_def dest!: utoa_inj split: if_splits)
qed

lemma last_index_from_spec:
  "last_index_from c s i found =
     (if c \<in> set s then i + last_index_from c s 0 (- 1) else found)"
proof (induction s arbitrary: i found)
  case Nil
  show ?case by simp
next
  case (Cons x xs)
  show ?case
    by (subst last_index_from.simps, subst Cons.IH, subst last_index_from.simps, subst (2) Cons.IH) auto
qed

text \<open>\<^verbatim>\<open>LastIndex\<close> finds the split at the last separator: the part after it holds none.\<close>

lemma last_index_append:
  assumes "c \<notin> set ys"
  shows "last_index (xs @ c # ys) c = int (length xs)"
proof (induction xs)
  case Nil
  show ?case using assms by (simp add: last_index_def last_index_from_spec[of c ys])
next
  case (Cons x xs)
  have "last_index (x # xs @ c # ys) c = 1 + last_index (xs @ c # ys) c"
    by (simp add: last_index_def last_index_from_spec[of c "xs @ c # ys" 1])
  with Cons show ?case by simp
qed

text \<open>The last separator splits a string in one way.\<close>

lemma last_split:
  fixes xs :: string
  assumes "xs @ c # ys = xs' @ c # ys'" "c \<notin> set ys" "c \<notin> set ys'"
  shows "xs = xs' \<and> ys = ys'"
proof -
  have "int (length xs) = last_index (xs @ c # ys) c" by (simp add: last_index_append[OF assms(2)])
  also have "\<dots> = int (length xs')" unfolding assms(1) by (simp add: last_index_append[OF assms(3)])
  finally have "length xs = length xs'" by simp
  with assms(1) show ?thesis by simp
qed

lemma last_index_none: "c \<notin> set s \<Longrightarrow> last_index s c = - 1"
  unfolding last_index_def by (subst last_index_from_spec) simp

lemma fields_func_acc_concat:
  "concat (fields_func_acc sep s cur) = rev cur @ filter (\<lambda>c. \<not> sep c) s"
  by (induction sep s cur rule: fields_func_acc.induct) auto

lemma fields_func_acc_words:
  "list_all (\<lambda>c. \<not> sep c) cur \<Longrightarrow>
    list_all (\<lambda>w. w \<noteq> [] \<and> list_all (\<lambda>c. \<not> sep c) w) (fields_func_acc sep s cur)"
proof (induction s arbitrary: cur)
  case (Cons c cs)
  then show ?case by simp
qed simp

lemma fields_func_words: "w \<in> set (fields_func sep s) \<Longrightarrow> w \<noteq> [] \<and> (\<forall>c\<in>set w. \<not> sep c)"
  using fields_func_acc_words[of sep "[]" s] by (simp add: fields_func_def list_all_iff)

lemma digit_in_range: "d < 10 \<Longrightarrow> in_range 48 57 (digit_char d)"
  by (simp add: in_range_def of_char_digit del: digit_char.simps)

lemma undigits_ge: "n \<le> undigits n s"
proof (induction s arbitrary: n)
  case (Cons c s)
  have "n \<le> 10 * n + (of_char c - 48)" by simp
  also have "\<dots> \<le> undigits (10 * n + (of_char c - 48)) s" by (rule Cons.IH)
  finally show ?case by simp
qed simp

lemma parse_digits_undigits:
  "list_all (in_range 48 57) s \<Longrightarrow> undigits n s < 2 ^ 64 \<Longrightarrow> parse_digits s n = Parsed (undigits n s)"
proof (induction s arbitrary: n)
  case (Cons c s)
  let ?n1 = "10 * n + (of_char c - 48)"
  have "?n1 < 2 ^ 64" using Cons.prems(2) undigits_ge[of ?n1 s] by simp
  then show ?case using Cons by simp
qed simp

lemma ParseUint_utoa: "n < 2 ^ 64 \<Longrightarrow> ParseUint (utoa n) = Parsed n"
proof -
  assume n: "n < 2 ^ 64"
  have "list_all (in_range 48 57) (utoa n)" using digit_in_range utoa_digits by (fastforce simp: list_all_iff)
  from parse_digits_undigits[OF this, of 0] n show ?thesis by (simp add: ParseUint_def undigits_utoa)
qed

lemma utoa_hd: "hd (utoa n) \<noteq> CHR ''-'' \<and> hd (utoa n) \<noteq> CHR ''+''"
proof -
  obtain d where d: "d < 10" "hd (utoa n) = digit_char d" using utoa_digits hd_in_set[OF utoa_nonempty] by blast
  then have "of_char (hd (utoa n)) = (48 + d :: nat)" by (simp only: of_char_digit)
  then show ?thesis by auto
qed

lemma ParseInt_itoa:
  assumes "- (2 ^ 63) \<le> i" "i < 2 ^ 63"
  shows "ParseInt (itoa i) = (i, True)"
proof (cases "i < 0")
  case True
  then have "ParseUint (utoa (nat (- i))) = Parsed (nat (- i))" using assms(1) by (intro ParseUint_utoa) simp
  then show ?thesis using True assms(1) by (simp add: ParseInt_def itoa_def Let_def)
next
  case False
  then have "ParseUint (utoa (nat i)) = Parsed (nat i)" using assms(2) by (intro ParseUint_utoa) simp
  then show ?thesis using False assms(2) utoa_hd[of "nat i"] by (simp add: ParseInt_def itoa_def Let_def)
qed

end
