(* ===== verification/Shard_Config.thy ===== *)
theory Shard_Config
  imports Go_Stdlib
begin

text \<open>
  The shard configuration (\<^verbatim>\<open>shardkv1/shardcfg/shardcfg.go\<close>): which replica group serves which
  of the \<open>NShards\<close> shards, and how joining and leaving groups rebalance that assignment. A
  configuration is a record with the fields of the struct; the array \<^verbatim>\<open>Shards\<close> is a list, whose
  length \<open>cfg_ok\<close> fixes, and \<^verbatim>\<open>Groups\<close> is a Go map. The operations follow the source loop by
  loop; the last section proves that every rebalanced configuration passes \<^verbatim>\<open>CheckConfig\<close> and
  that rebalancing moves no shard it need not move.
\<close>

subsection \<open>Data\<close>

type_synonym tshid = int
type_synonym tnum = int

definition NShards :: nat where
  "NShards = 12"

record shard_config =
  Num :: tnum
  Shards :: "tgid list"
  Groups :: "(tgid, string list) gomap"

definition cfg_ok :: "shard_config \<Rightarrow> bool" where
  "cfg_ok c \<longleftrightarrow> length (Shards c) = NShards \<and> distinct (gm_keys (Groups c))"

definition Key2Shard :: "string \<Rightarrow> tshid" where
  "Key2Shard key = uint (fnv32a key) mod int NShards"

definition MakeShardConfig :: shard_config where
  "MakeShardConfig = \<lparr>Num = 0, Shards = replicate NShards 0, Groups = []\<rparr>"

text \<open>\<^verbatim>\<open>Copy\<close> builds a new map entry by entry; the copied slices hold the same strings.\<close>

fun copy_groups :: "(tgid, string list) gomap \<Rightarrow> (tgid, string list) gomap \<Rightarrow> (tgid, string list) gomap" where
  "copy_groups [] m = m"
| "copy_groups ((k, srvs) # rest) m = copy_groups rest (AList.update k srvs m)"

definition Copy :: "shard_config \<Rightarrow> shard_config" where
  "Copy cfg = MakeShardConfig\<lparr>Num := Num cfg, Shards := Shards cfg,
     Groups := copy_groups (Groups cfg) (Groups MakeShardConfig)\<rparr>"

subsection \<open>Rebalancing\<close>

text \<open>A Go map from group to count reads zero for a missing group: a total function.\<close>

fun count_shards :: "tgid list \<Rightarrow> (tgid \<Rightarrow> int) \<Rightarrow> (tgid \<Rightarrow> int)" where
  "count_shards [] counts = counts"
| "count_shards (g # gs) counts = count_shards gs (counts(g := counts g + 1))"

fun analyze_loop :: "(tgid \<Rightarrow> int) \<Rightarrow> tgid list \<Rightarrow> tgid \<Rightarrow> int \<Rightarrow> tgid \<Rightarrow> int \<Rightarrow> tgid \<times> int \<times> tgid \<times> int" where
  "analyze_loop counts [] mg mn lg ln = (mg, mn, lg, ln)"
| "analyze_loop counts (g # gs) mg mn lg ln =
     analyze_loop counts gs
       (if counts g > mn then g else mg) (if counts g > mn then counts g else mn)
       (if counts g < ln then g else lg) (if counts g < ln then counts g else ln)"

definition analyze :: "shard_config \<Rightarrow> tgid \<times> int \<times> tgid \<times> int" where
  "analyze c = (let counts = count_shards (Shards c) (\<lambda>_. 0); groups = sort (gm_keys (Groups c))
     in analyze_loop counts groups (- 1) (- 1) (- 1) 257)"

definition least :: "shard_config \<Rightarrow> tgid" where
  "least c = (case analyze c of (_, _, lg, _) \<Rightarrow> lg)"

text \<open>
  \<^verbatim>\<open>range\<close> over an array iterates over a copy of it: the first argument is that copy, \<open>s\<close> the
  index reached in it.
\<close>

fun assign_loop :: "tgid list \<Rightarrow> nat \<Rightarrow> shard_config \<Rightarrow> shard_config" where
  "assign_loop [] s c = c"
| "assign_loop (g # gs) s c =
     assign_loop gs (Suc s)
       (if gm_has (Groups c) g then c else c\<lparr>Shards := (Shards c)[s := least c]\<rparr>)"

fun move_one :: "tgid list \<Rightarrow> nat \<Rightarrow> tgid \<Rightarrow> tgid \<Rightarrow> shard_config \<Rightarrow> shard_config" where
  "move_one [] s mg lg c = c"
| "move_one (g # gs) s mg lg c =
     (if g = mg then c\<lparr>Shards := (Shards c)[s := lg]\<rparr> else move_one gs (Suc s) mg lg c)"

partial_function (option) move_loop :: "shard_config \<Rightarrow> shard_config option" where
  "move_loop c = (case analyze c of (mg, mn, lg, ln) \<Rightarrow>
     if mn < ln + 2 then Some c else move_loop (move_one (Shards c) 0 mg lg c))"

declare move_loop.simps [code]

definition Rebalance :: "shard_config \<Rightarrow> shard_config go" where
  "Rebalance c =
     (if length (Groups c) < 1 then Ret (c\<lparr>Shards := map (\<lambda>_. 0) (Shards c)\<rparr>)
      else go_of_option (move_loop (assign_loop (Shards c) 0 c)))"

subsection \<open>Joining and leaving\<close>

definition server_clash :: "(tgid, string list) gomap \<Rightarrow> string list \<Rightarrow> bool" where
  "server_clash groups servers = list_ex (\<lambda>(xgid, xservers). list_ex (\<lambda>s1. List.member servers s1) xservers) groups"

fun join_loop :: "(tgid, string list) gomap \<Rightarrow> bool \<Rightarrow> shard_config \<Rightarrow> (bool \<times> shard_config) go" where
  "join_loop [] changed cfg =
     (if \<not> changed then Fatal ''Join but no change'' else Ret (True, cfg\<lparr>Num := Num cfg + 1\<rparr>))"
| "join_loop ((gid, servers) # rest) changed cfg =
     (if gm_has (Groups cfg) gid then Ret (False, cfg)
      else if server_clash (Groups cfg) servers
      then Fatal ''Join(%v) puts server %v in groups %v and %v''
      else join_loop rest True (cfg\<lparr>Groups := AList.update gid servers (Groups cfg)\<rparr>))"

definition Join :: "(tgid, string list) gomap \<Rightarrow> shard_config \<Rightarrow> (bool \<times> shard_config) go" where
  "Join servers cfg = join_loop servers False cfg"

fun leave_loop :: "tgid list \<Rightarrow> bool \<Rightarrow> shard_config \<Rightarrow> (bool \<times> shard_config) go" where
  "leave_loop [] changed cfg =
     (if \<not> changed then Fatal ''Leave but no change'' else Ret (True, cfg\<lparr>Num := Num cfg + 1\<rparr>))"
| "leave_loop (gid # rest) changed cfg =
     (if \<not> gm_has (Groups cfg) gid then Ret (False, cfg)
      else leave_loop rest True (cfg\<lparr>Groups := AList.delete gid (Groups cfg)\<rparr>))"

definition Leave :: "tgid list \<Rightarrow> shard_config \<Rightarrow> (bool \<times> shard_config) go" where
  "Leave gids cfg = leave_loop gids False cfg"

definition JoinBalance :: "(tgid, string list) gomap \<Rightarrow> shard_config \<Rightarrow> (bool \<times> shard_config) go" where
  "JoinBalance servers cfg = go_bind (Join servers cfg) (\<lambda>(ok, cfg').
     if \<not> ok then Ret (False, cfg') else go_bind (Rebalance cfg') (\<lambda>cfg''. Ret (True, cfg'')))"

definition LeaveBalance :: "tgid list \<Rightarrow> shard_config \<Rightarrow> (bool \<times> shard_config) go" where
  "LeaveBalance gids cfg = go_bind (Leave gids cfg) (\<lambda>(ok, cfg').
     if \<not> ok then Ret (False, cfg') else go_bind (Rebalance cfg') (\<lambda>cfg''. Ret (True, cfg'')))"

subsection \<open>Queries and the consistency check\<close>

definition GidServers :: "shard_config \<Rightarrow> tshid \<Rightarrow> (tgid \<times> string list \<times> bool) go" where
  "GidServers cfg sh =
     (if 0 \<le> sh \<and> nat sh < length (Shards cfg)
      then (let gid = Shards cfg ! nat sh in
        Ret (gid, gm_get [] (Groups cfg) gid, gm_has (Groups cfg) gid))
      else Panic ''index out of range'')"

fun is_member_loop :: "tgid list \<Rightarrow> tgid \<Rightarrow> bool" where
  "is_member_loop [] gid = False"
| "is_member_loop (g # gs) gid = (if g = gid then True else is_member_loop gs gid)"

definition IsMember :: "shard_config \<Rightarrow> tgid \<Rightarrow> bool" where
  "IsMember cfg gid = is_member_loop (Shards cfg) gid"

fun check_min_max :: "(tgid \<Rightarrow> int) \<Rightarrow> tgid list \<Rightarrow> int \<Rightarrow> int \<Rightarrow> int \<times> int" where
  "check_min_max counts [] mn mx = (mn, mx)"
| "check_min_max counts (g # gs) mn mx =
     check_min_max counts gs (if counts g < mn then counts g else mn) (if counts g > mx then counts g else mx)"

definition CheckConfig :: "shard_config \<Rightarrow> tgid list \<Rightarrow> unit go" where
  "CheckConfig cfg groups =
     (if length (Groups cfg) \<noteq> length groups then Fatal ''wanted %v groups, got %v''
      else if list_ex (\<lambda>g. \<not> gm_has (Groups cfg) g) groups then Fatal ''missing group %v''
      else if 0 < length groups \<and> list_ex (\<lambda>g. \<not> gm_has (Groups cfg) g) (Shards cfg)
      then Fatal ''shard %v -> invalid group %v''
      else (case check_min_max (count_shards (Shards cfg) (\<lambda>_. 0)) (gm_keys (Groups cfg)) 257 0 of
        (mn, mx) \<Rightarrow> if mx > mn + 1 then Fatal ''max %v too much larger than min %v'' else Ret ()))"


subsection \<open>The counts and the analysis\<close>

abbreviation gids :: "shard_config \<Rightarrow> tgid set" where
  "gids c \<equiv> fst ` set (Groups c)"

abbreviation load :: "shard_config \<Rightarrow> tgid \<Rightarrow> int" where
  "load c g \<equiv> int (count_list (Shards c) g)"

definition all_assigned :: "shard_config \<Rightarrow> bool" where
  "all_assigned c \<longleftrightarrow> set (Shards c) \<subseteq> gids c"

definition balanced :: "shard_config \<Rightarrow> bool" where
  "balanced c \<longleftrightarrow> (\<forall>g\<in>gids c. \<forall>h\<in>gids c. load c g \<le> load c h + 1)"

lemma count_shards_eq: "count_shards gs m g = m g + int (count_list gs g)"
  by (induction gs arbitrary: m) auto

lemma count_shards_zero [simp]: "count_shards gs (\<lambda>_. 0) = (\<lambda>g. int (count_list gs g))"
  by (simp add: count_shards_eq fun_eq_iff)

lemma analyze_loop_most:
  assumes "analyze_loop cnt gs mg mn lg ln = (mg', mn', lg', ln')"
  shows "mn \<le> mn' \<and> (\<forall>g\<in>set gs. cnt g \<le> mn') \<and> (mn' = mn \<and> mg' = mg \<or> mg' \<in> set gs \<and> cnt mg' = mn')"
  using assms by (induction gs arbitrary: mg mn lg ln) (fastforce split: if_splits)+

lemma analyze_loop_least:
  assumes "analyze_loop cnt gs mg mn lg ln = (mg', mn', lg', ln')"
  shows "ln' \<le> ln \<and> (\<forall>g\<in>set gs. ln' \<le> cnt g) \<and> (ln' = ln \<and> lg' = lg \<or> lg' \<in> set gs \<and> cnt lg' = ln')"
  using assms by (induction gs arbitrary: mg mn lg ln) (fastforce split: if_splits)+

lemma count_le_NShards: "cfg_ok c \<Longrightarrow> load c g \<le> 12"
  using count_le_length[of "Shards c" g] by (simp add: cfg_ok_def NShards_def)

lemma analyze_spec:
  assumes "cfg_ok c" and "Groups c \<noteq> []" and an: "analyze c = (mg, mn, lg, ln)"
  shows "mg \<in> gids c" "mn = load c mg" "lg \<in> gids c" "ln = load c lg"
    "\<And>g. g \<in> gids c \<Longrightarrow> ln \<le> load c g \<and> load c g \<le> mn"
proof -
  let ?gs = "sort (gm_keys (Groups c))"
  have run: "analyze_loop (\<lambda>g. load c g) ?gs (- 1) (- 1) (- 1) 257 = (mg, mn, lg, ln)"
    using an by (simp add: analyze_def)
  note most = analyze_loop_most[OF run] and lst = analyze_loop_least[OF run]
  have set: "set ?gs = gids c" by simp
  from assms(2) obtain g0 where g0: "g0 \<in> gids c" by (cases "Groups c") auto
  have "0 \<le> load c g0" "load c g0 \<le> 12" using count_le_NShards[OF assms(1)] by auto
  with g0 most lst set have "mn \<noteq> - 1" "ln \<noteq> 257" by fastforce+
  with most lst set show "mg \<in> gids c" "mn = load c mg" "lg \<in> gids c" "ln = load c lg"
    by auto
  show "ln \<le> load c g \<and> load c g \<le> mn" if "g \<in> gids c" for g
    using that most lst set by auto
qed

lemma least_spec:
  assumes "cfg_ok c" and "Groups c \<noteq> []"
  shows "least c \<in> gids c" "\<And>g. g \<in> gids c \<Longrightarrow> load c (least c) \<le> load c g"
proof -
  obtain mg mn lg ln where an: "analyze c = (mg, mn, lg, ln)" by (cases "analyze c")
  note sp = analyze_spec[OF assms an]
  show "least c \<in> gids c" using sp an by (simp add: least_def)
  show "load c (least c) \<le> load c g" if "g \<in> gids c" for g
    using sp(4) sp(5)[OF that] an by (simp add: least_def)
qed

subsection \<open>The two loops of Rebalance\<close>

lemma cfg_ok_set_shard [simp]: "cfg_ok (c\<lparr>Shards := (Shards c)[s := g]\<rparr>) = cfg_ok c"
  by (simp add: cfg_ok_def)

lemma load_set_shard:
  "s < length (Shards c) \<Longrightarrow> load (c\<lparr>Shards := (Shards c)[s := g]\<rparr>) h =
     load c h - (if Shards c ! s = h then 1 else 0) + (if g = h then 1 else 0)"
  by (simp add: count_list_list_update)

lemma balanced_set_least:
  assumes "cfg_ok c" "Groups c \<noteq> []" "s < length (Shards c)" "Shards c ! s \<notin> gids c" "balanced c"
  shows "balanced (c\<lparr>Shards := (Shards c)[s := least c]\<rparr>)"
  unfolding balanced_def
proof (intro ballI)
  let ?c = "c\<lparr>Shards := (Shards c)[s := least c]\<rparr>"
  fix g h assume gh: "g \<in> gids ?c" "h \<in> gids ?c"
  then have le: "load c (least c) \<le> load c g" "load c (least c) \<le> load c h" "load c g \<le> load c h + 1"
    using least_spec(2)[OF assms(1,2)] assms(5) by (auto simp: balanced_def)
  have ne: "Shards c ! s \<noteq> g" "Shards c ! s \<noteq> h" using gh assms(4) by auto
  have "load ?c g = load c g + (if least c = g then 1 else 0)"
    "load ?c h = load c h + (if least c = h then 1 else 0)"
    using load_set_shard[OF assms(3)] ne by auto
  then show "load ?c g \<le> load ?c h + 1" using le by (auto split: if_splits)
qed

text \<open>
  The invariant of the assignment loop: it touches only the shards that have no group, it keeps
  what is balanced balanced, and behind the index it has reached every shard has a group.
\<close>

lemma assign_loop_frame:
  "Groups (assign_loop gs s c) = Groups c" "Num (assign_loop gs s c) = Num c"
  "length (Shards (assign_loop gs s c)) = length (Shards c)"
  by (induction gs arbitrary: s c) (auto simp: Let_def)

lemma assign_loop_spec:
  assumes "cfg_ok c" "Groups c \<noteq> []" "gs = drop s (Shards c)" "s \<le> length (Shards c)"
    "set (take s (Shards c)) \<subseteq> gids c"
  shows "all_assigned (assign_loop gs s c) \<and>
    (\<forall>i<length (Shards c). Shards c ! i \<in> gids c \<longrightarrow> Shards (assign_loop gs s c) ! i = Shards c ! i) \<and>
    (balanced c \<longrightarrow> balanced (assign_loop gs s c))"
  using assms
proof (induction gs arbitrary: s c)
  case Nil
  then show ?case by (simp add: all_assigned_def)
next
  case (Cons g gs)
  note s = Cons_eq_dropD(1)[OF Cons.prems(3)] and g = Cons_eq_dropD(2)[OF Cons.prems(3)]
    and tail = Cons_eq_dropD(3)[OF Cons.prems(3)]
  let ?c = "if gm_has (Groups c) g then c else c\<lparr>Shards := (Shards c)[s := least c]\<rparr>"
  have gids: "gids ?c = gids c" "Groups ?c = Groups c" by auto
  have shs: "Shards ?c = (Shards c)[s := (if g \<in> gids c then g else least c)]"
    using g by simp
  have "gs = drop (Suc s) (Shards ?c)" using tail by (simp add: shs)
  moreover have "set (take (Suc s) (Shards ?c)) \<subseteq> gids ?c"
  proof -
    have "take (Suc s) (Shards ?c) = take s (Shards c) @ [if g \<in> gids c then g else least c]"
      using s by (simp add: shs take_Suc_conv_app_nth)
    then show ?thesis using Cons.prems(5) least_spec(1)[OF Cons.prems(1,2)] gids by auto
  qed
  ultimately have IH: "all_assigned (assign_loop gs (Suc s) ?c)"
    "\<forall>i<length (Shards ?c). Shards ?c ! i \<in> gids ?c \<longrightarrow> Shards (assign_loop gs (Suc s) ?c) ! i = Shards ?c ! i"
    "balanced ?c \<longrightarrow> balanced (assign_loop gs (Suc s) ?c)"
    using Cons.IH[of ?c "Suc s"] Cons.prems(1,2) s by (auto simp: shs)
  have keep: "Shards (assign_loop gs (Suc s) ?c) ! i = Shards c ! i"
    if "i < length (Shards c)" "Shards c ! i \<in> gids c" for i
    using IH(2) that g s unfolding gids(1) by (cases "i = s") (auto simp: shs)
  have "balanced c \<longrightarrow> balanced ?c"
    using balanced_set_least[OF Cons.prems(1,2) s] g by auto
  with IH keep show ?case by simp
qed

lemma move_one_spec:
  assumes "gs = drop s (Shards c)" "mg \<in> set gs"
  shows "\<exists>i<length (Shards c). Shards c ! i = mg \<and> move_one gs s mg lg c = c\<lparr>Shards := (Shards c)[i := lg]\<rparr>"
  using assms
proof (induction gs arbitrary: s)
  case (Cons g gs)
  note d = Cons_eq_dropD[OF Cons.prems(1)]
  show ?case
  proof (cases "g = mg")
    case True
    with d show ?thesis by (intro exI[of _ s]) simp
  next
    case False
    with Cons.IH[OF d(3)] Cons.prems(2) show ?thesis by simp
  qed
qed simp

text \<open>
  Every move lowers the sum of the squared loads, so the loop stops; it stops only where no two
  loads differ by more than one.
\<close>

definition load_energy :: "shard_config \<Rightarrow> nat" where
  "load_energy c = nat (\<Sum>g\<in>gids c. (load c g)\<^sup>2)"

lemma load_energy_decreases:
  assumes ok: "cfg_ok c" "Groups c \<noteq> []" and an: "analyze c = (mg, mn, lg, ln)" and gap: "\<not> mn < ln + 2"
    and i: "i < length (Shards c)" "Shards c ! i = mg"
  shows "load_energy (c\<lparr>Shards := (Shards c)[i := lg]\<rparr>) < load_energy c"
proof -
  let ?c = "c\<lparr>Shards := (Shards c)[i := lg]\<rparr>" and ?R = "gids c - {mg, lg}"
  note sp = analyze_spec[OF ok an]
  have ne: "mg \<noteq> lg" using sp gap by auto
  have split: "(\<Sum>g\<in>gids c. f g) = f mg + f lg + (\<Sum>g\<in>?R. f g)" for f :: "tgid \<Rightarrow> int"
  proof -
    have "gids c = insert mg (insert lg ?R)" using sp(1,3) by auto
    then have "(\<Sum>g\<in>gids c. f g) = (\<Sum>g\<in>insert mg (insert lg ?R). f g)" by simp
    also have "\<dots> = f mg + f lg + (\<Sum>g\<in>?R. f g)" using ne by simp
    finally show ?thesis .
  qed
  have rest: "(\<Sum>g\<in>?R. (load ?c g)\<^sup>2) = (\<Sum>g\<in>?R. (load c g)\<^sup>2)"
  proof (rule sum.cong)
    fix g assume "g \<in> ?R"
    then show "(load ?c g)\<^sup>2 = (load c g)\<^sup>2" using load_set_shard[OF i(1), of lg g] i(2) by auto
  qed simp
  have "load ?c mg = mn - 1" "load ?c lg = ln + 1"
    using load_set_shard[OF i(1), of lg] i(2) ne sp(2,4) by auto
  then have "(\<Sum>g\<in>gids ?c. (load ?c g)\<^sup>2) = (mn - 1)\<^sup>2 + (ln + 1)\<^sup>2 + (\<Sum>g\<in>?R. (load c g)\<^sup>2)"
    using split[of "\<lambda>g. (load ?c g)\<^sup>2"] rest by simp
  moreover have "(\<Sum>g\<in>gids c. (load c g)\<^sup>2) = mn\<^sup>2 + ln\<^sup>2 + (\<Sum>g\<in>?R. (load c g)\<^sup>2)"
    using split[of "\<lambda>g. (load c g)\<^sup>2"] sp(2,4) by simp
  moreover have "(mn - 1)\<^sup>2 + (ln + 1)\<^sup>2 < mn\<^sup>2 + ln\<^sup>2"
    using gap by (simp add: power2_eq_square algebra_simps)
  moreover have "0 \<le> (\<Sum>g\<in>?R. (load c g)\<^sup>2)" by (simp add: sum_nonneg)
  ultimately have "(\<Sum>g\<in>gids ?c. (load ?c g)\<^sup>2) < (\<Sum>g\<in>gids c. (load c g)\<^sup>2)" by simp
  then show ?thesis unfolding load_energy_def by (subst nat_less_eq_zless) (auto simp: sum_nonneg)
qed

lemma move_loop_step:
  assumes ok: "cfg_ok c" "Groups c \<noteq> []" and an: "analyze c = (mg, mn, lg, ln)" and gap: "\<not> mn < ln + 2"
  shows "\<exists>i<length (Shards c). Shards c ! i = mg \<and>
    move_loop c = move_loop (c\<lparr>Shards := (Shards c)[i := lg]\<rparr>)"
proof -
  note sp = analyze_spec[OF ok an]
  have "0 < count_list (Shards c) mg" using sp gap by auto
  then have "mg \<in> set (Shards c)" using count_list_0_iff[of "Shards c" mg] by auto
  from move_one_spec[of "Shards c" 0 c mg lg] this obtain i where
    i: "i < length (Shards c)" "Shards c ! i = mg"
      "move_one (Shards c) 0 mg lg c = c\<lparr>Shards := (Shards c)[i := lg]\<rparr>" by auto
  have "move_loop c = move_loop (c\<lparr>Shards := (Shards c)[i := lg]\<rparr>)"
    using an gap i(3) by (subst move_loop.simps) simp
  with i show ?thesis by blast
qed

text \<open>
  The rule for the moving loop: a property that holds at the start and that every move keeps
  holds for the configuration the loop returns, and the loop does return.
\<close>

lemma move_loop_rule:
  assumes ok: "cfg_ok c" "Groups c \<noteq> []" and init: "P c"
    and keep: "\<And>c mg mn lg ln i. \<lbrakk>P c; cfg_ok c; Groups c \<noteq> []; analyze c = (mg, mn, lg, ln); \<not> mn < ln + 2;
      i < length (Shards c); Shards c ! i = mg\<rbrakk> \<Longrightarrow> P (c\<lparr>Shards := (Shards c)[i := lg]\<rparr>)"
  shows "\<exists>c'. move_loop c = Some c' \<and> P c' \<and> cfg_ok c' \<and> balanced c' \<and> Groups c' = Groups c \<and> Num c' = Num c"
  using ok init
proof (induction "load_energy c" arbitrary: c rule: less_induct)
  case less
  obtain mg mn lg ln where an: "analyze c = (mg, mn, lg, ln)" by (cases "analyze c")
  note sp = analyze_spec[OF less.prems(1,2) an]
  show ?case
  proof (cases "mn < ln + 2")
    case True
    have "load c g \<le> load c h + 1" if "g \<in> gids c" "h \<in> gids c" for g h
      using sp(5)[OF that(1)] sp(5)[OF that(2)] True by linarith
    then have "balanced c" by (simp add: balanced_def)
    with True an less.prems show ?thesis by (subst move_loop.simps) simp
  next
    case False
    from move_loop_step[OF less.prems(1,2) an False] obtain i where
      i: "i < length (Shards c)" "Shards c ! i = mg"
      and run: "move_loop c = move_loop (c\<lparr>Shards := (Shards c)[i := lg]\<rparr>)" by blast
    let ?c = "c\<lparr>Shards := (Shards c)[i := lg]\<rparr>"
    have "load_energy ?c < load_energy c"
      by (rule load_energy_decreases[OF less.prems(1,2) an False i])
    moreover have "P ?c" by (rule keep[OF less.prems(3,1,2) an False i])
    ultimately show ?thesis using less.hyps[of ?c] less.prems(1,2) run by simp
  qed
qed

subsection \<open>What the operations establish\<close>

definition disjoint_servers :: "(tgid, string list) gomap \<Rightarrow> bool" where
  "disjoint_servers m \<longleftrightarrow>
     (\<forall>(g, xs)\<in>set m. \<forall>(h, ys)\<in>set m. g \<noteq> h \<longrightarrow> set xs \<inter> set ys = {})"

definition config_inv :: "shard_config \<Rightarrow> bool" where
  "config_inv c \<longleftrightarrow> cfg_ok c \<and> disjoint_servers (Groups c) \<and> balanced c \<and>
     (if Groups c = [] then Shards c = replicate NShards 0 else all_assigned c)"

lemma server_clash_iff:
  "server_clash m servers \<longleftrightarrow> (\<exists>(g, xs)\<in>set m. set xs \<inter> set servers \<noteq> {})"
  by (auto simp: server_clash_def list_ex_iff)

lemma disjoint_servers_mono: "disjoint_servers m \<Longrightarrow> set m' \<subseteq> set m \<Longrightarrow> disjoint_servers m'"
  unfolding disjoint_servers_def by blast

lemma disjoint_servers_snoc:
  assumes "\<not> gm_has m g"
  shows "disjoint_servers (m @ [(g, xs)]) \<longleftrightarrow> disjoint_servers m \<and> \<not> server_clash m xs"
proof
  assume d: "disjoint_servers (m @ [(g, xs)])"
  have "h \<noteq> g" if "(h, ys) \<in> set m" for h ys using assms that by force
  then have "set ys \<inter> set xs = {}" if "(h, ys) \<in> set m" for h ys
    using d that unfolding disjoint_servers_def by fastforce
  with disjoint_servers_mono[OF d, of m] show "disjoint_servers m \<and> \<not> server_clash m xs"
    by (auto simp: server_clash_iff)
next
  assume "disjoint_servers m \<and> \<not> server_clash m xs"
  then show "disjoint_servers (m @ [(g, xs)])"
    unfolding disjoint_servers_def server_clash_iff by fastforce
qed

lemma copy_groups_append:
  "distinct (gm_keys m @ gm_keys rest) \<Longrightarrow> copy_groups rest m = m @ rest"
  by (induction rest m rule: copy_groups.induct) (auto simp: alist_update_fresh)

lemma join_loop_ok:
  assumes "distinct (gm_keys (Groups cfg @ servers))" "disjoint_servers (Groups cfg @ servers)"
    "changed \<or> servers \<noteq> []"
  shows "join_loop servers changed cfg = Ret (True, cfg\<lparr>Num := Num cfg + 1, Groups := Groups cfg @ servers\<rparr>)"
  using assms
proof (induction servers changed cfg rule: join_loop.induct)
  case (2 gid srvs rest changed cfg)
  have fresh: "\<not> gm_has (Groups cfg) gid" using "2.prems"(1) by auto
  moreover have "\<not> server_clash (Groups cfg) srvs"
    using disjoint_servers_mono[OF "2.prems"(2), of "Groups cfg @ [(gid, srvs)]"]
      disjoint_servers_snoc[OF fresh] by auto
  ultimately show ?case using 2 by (simp add: alist_update_fresh)
qed simp

lemma join_loop_True:
  assumes "join_loop servers changed cfg = Ret (True, c')"
  shows "(changed \<or> servers \<noteq> []) \<and> c' = cfg\<lparr>Num := Num cfg + 1, Groups := Groups cfg @ servers\<rparr> \<and>
    (distinct (gm_keys (Groups cfg)) \<longrightarrow> distinct (gm_keys (Groups cfg @ servers))) \<and>
    (disjoint_servers (Groups cfg) \<longrightarrow> disjoint_servers (Groups cfg @ servers))"
  using assms
proof (induction servers changed cfg rule: join_loop.induct)
  case (2 gid srvs rest changed cfg)
  then have fresh: "\<not> gm_has (Groups cfg) gid" and nc: "\<not> server_clash (Groups cfg) srvs"
    by (auto split: if_splits)
  then have "disjoint_servers (Groups cfg) \<longrightarrow> disjoint_servers (Groups cfg @ [(gid, srvs)])"
    by (simp add: disjoint_servers_snoc)
  with 2 fresh nc show ?case by (auto simp: alist_update_fresh)
qed (auto split: if_splits)

lemma leave_loop_ok:
  assumes "distinct gs" "set gs \<subseteq> gids cfg" "changed \<or> gs \<noteq> []"
  shows "leave_loop gs changed cfg =
    Ret (True, cfg\<lparr>Num := Num cfg + 1, Groups := filter (\<lambda>(g, _). g \<notin> set gs) (Groups cfg)\<rparr>)"
  using assms
proof (induction gs changed cfg rule: leave_loop.induct)
  case (1 changed cfg)
  then show ?case by (simp add: case_prod_unfold)
next
  case (2 gid rest changed cfg)
  have "set rest \<subseteq> gids (cfg\<lparr>Groups := AList.delete gid (Groups cfg)\<rparr>)"
    using "2.prems"(1,2) by (auto simp: subset_iff)
  with 2 show ?case by (auto simp: alist_delete_filter case_prod_unfold conj_commute intro!: filter_cong)
qed

lemma leave_loop_True:
  assumes "leave_loop gs changed cfg = Ret (True, c')"
  shows "distinct gs \<and> set gs \<subseteq> gids cfg \<and> (changed \<or> gs \<noteq> [])"
  using assms
proof (induction gs changed cfg rule: leave_loop.induct)
  case (2 gid rest changed cfg)
  then show ?case by (fastforce simp: subset_iff split: if_splits)
qed (simp split: if_splits)

lemma check_min_max_spec:
  "check_min_max cnt gs mn mx = (mn', mx') \<Longrightarrow>
     (mx' \<le> mn' + 1 \<longleftrightarrow> mx \<le> mn + 1 \<and> (\<forall>g\<in>set gs. cnt g \<le> mn + 1 \<and> mx \<le> cnt g + 1) \<and>
       (\<forall>g\<in>set gs. \<forall>h\<in>set gs. cnt g \<le> cnt h + 1))"
proof (induction gs arbitrary: mn mx)
  case (Cons g gs)
  let ?mn = "if cnt g < mn then cnt g else mn" and ?mx = "if cnt g > mx then cnt g else mx"
  have run: "check_min_max cnt gs ?mn ?mx = (mn', mx')" using Cons.prems by simp
  show ?case unfolding Cons.IH[OF run] by (simp add: ball_conj_distrib) (safe; fastforce)
qed auto

text \<open>What \<^verbatim>\<open>CheckConfig\<close> checks, for the configurations whose array has its declared length.\<close>

lemma CheckConfig_ok_iff:
  assumes "cfg_ok c"
  shows "CheckConfig c gs = Ret () \<longleftrightarrow> length (Groups c) = length gs \<and> set gs \<subseteq> gids c \<and>
    (gs \<noteq> [] \<longrightarrow> all_assigned c) \<and> balanced c"
proof -
  obtain mn mx where run: "check_min_max (\<lambda>g. load c g) (gm_keys (Groups c)) 257 0 = (mn, mx)"
    by (cases "check_min_max (\<lambda>g. load c g) (gm_keys (Groups c)) 257 0")
  have "load c g \<le> 258" for g using count_le_NShards[OF assms, of g] by linarith
  then have "mx \<le> mn + 1 \<longleftrightarrow> balanced c"
    using check_min_max_spec[OF run] by (auto simp: balanced_def)
  then have bal: "mn + 1 < mx \<longleftrightarrow> \<not> balanced c" by auto
  show ?thesis
    using run by (auto simp: CheckConfig_def list_ex_iff all_assigned_def bal subset_iff split: if_splits)
qed

lemma assign_loop_id: "set gs \<subseteq> gids c \<Longrightarrow> assign_loop gs s c = c"
  by (induction gs arbitrary: s) auto

lemma Rebalance_run:
  assumes "cfg_ok c"
  shows "\<exists>c'. Rebalance c = Ret c' \<and> cfg_ok c' \<and> Groups c' = Groups c \<and> Num c' = Num c \<and> balanced c' \<and>
    (if Groups c = [] then Shards c' = replicate NShards 0 else all_assigned c')"
proof (cases "Groups c = []")
  case True
  with assms show ?thesis
    by (auto simp: Rebalance_def cfg_ok_def balanced_def map_replicate_const)
next
  case False
  let ?a = "assign_loop (Shards c) 0 c"
  have a: "cfg_ok ?a" "Groups ?a \<noteq> []" "all_assigned ?a"
    using assign_loop_spec[OF assms False, of "Shards c" 0] assms False
    by (auto simp: cfg_ok_def assign_loop_frame)
  have "\<exists>c'. move_loop ?a = Some c' \<and> all_assigned c' \<and> cfg_ok c' \<and> balanced c' \<and>
      Groups c' = Groups ?a \<and> Num c' = Num ?a"
  proof (rule move_loop_rule[where P = all_assigned, OF a(1,2,3)])
    fix d mg mn lg ln i
    assume d: "all_assigned d" "cfg_ok d" "Groups d \<noteq> []" and an: "analyze d = (mg, mn, lg, ln)"
    then show "all_assigned (d\<lparr>Shards := (Shards d)[i := lg]\<rparr>)"
      using analyze_spec(3)[OF d(2,3) an] set_update_subset_insert[of "Shards d" i lg]
      by (auto simp: all_assigned_def)
  qed
  with False show ?thesis by (auto simp: Rebalance_def assign_loop_frame)
qed

lemma Rebalance_stable:
  assumes "cfg_ok c" "Groups c \<noteq> []" "all_assigned c" "balanced c"
  shows "Rebalance c = Ret c"
proof -
  obtain mg mn lg ln where an: "analyze c = (mg, mn, lg, ln)" by (cases "analyze c")
  note sp = analyze_spec[OF assms(1,2) an]
  have "mn \<le> ln + 1" using assms(4) sp(1-4) by (auto simp: balanced_def)
  with an have "move_loop c = Some c" by (subst move_loop.simps) simp
  with assms show ?thesis by (simp add: Rebalance_def assign_loop_id all_assigned_def)
qed

lemma JoinBalance_True:
  assumes "JoinBalance servers c = Ret (True, c')" and "cfg_ok c"
  shows "servers \<noteq> [] \<and> distinct (gm_keys (Groups c @ servers)) \<and>
    (disjoint_servers (Groups c) \<longrightarrow> disjoint_servers (Groups c @ servers)) \<and>
    Rebalance (c\<lparr>Num := Num c + 1, Groups := Groups c @ servers\<rparr>) = Ret c'"
  using assms join_loop_True[of servers False c]
  by (auto simp: JoinBalance_def Join_def cfg_ok_def go_simps split: if_splits)

lemma LeaveBalance_True:
  assumes "LeaveBalance gs c = Ret (True, c')"
  shows "gs \<noteq> [] \<and> distinct gs \<and> set gs \<subseteq> gids c \<and>
    Rebalance (c\<lparr>Num := Num c + 1, Groups := filter (\<lambda>(g, _). g \<notin> set gs) (Groups c)\<rparr>) = Ret c'"
proof -
  from assms obtain d where d: "leave_loop gs False c = Ret (True, d)" "Rebalance d = Ret c'"
    by (auto simp: LeaveBalance_def Leave_def go_simps split: if_splits)
  note ok = leave_loop_True[OF d(1)]
  with leave_loop_ok[of gs c False] d show ?thesis by auto
qed

subsection \<open>Histories of configuration changes\<close>

text \<open>
  The configurations the controller's clients build: they start from \<^verbatim>\<open>MakeShardConfig\<close> and
  apply \<^verbatim>\<open>JoinBalance\<close> and \<^verbatim>\<open>LeaveBalance\<close>, each of which must have returned true.
\<close>

inductive config_reach :: "nat \<Rightarrow> shard_config \<Rightarrow> bool" where
  start: "config_reach 0 MakeShardConfig"
| join: "config_reach n c \<Longrightarrow> JoinBalance servers c = Ret (True, c') \<Longrightarrow> config_reach (Suc n) c'"
| leave: "config_reach n c \<Longrightarrow> LeaveBalance gs c = Ret (True, c') \<Longrightarrow> config_reach (Suc n) c'"

lemma cfg_ok_Groups:
  "cfg_ok c \<Longrightarrow> distinct (gm_keys m) \<Longrightarrow> cfg_ok (c\<lparr>Num := n, Groups := m\<rparr>)"
  by (simp add: cfg_ok_def)

lemma distinct_keys_filter: "distinct (gm_keys m) \<Longrightarrow> distinct (gm_keys (filter P m))"
  by (simp add: distinct_map_filter)

lemma config_reach_inv: "config_reach n c \<Longrightarrow> config_inv c \<and> Num c = int n"
proof (induction rule: config_reach.induct)
  case start
  show ?case
    by (simp add: config_inv_def MakeShardConfig_def cfg_ok_def disjoint_servers_def balanced_def)
next
  case (join n c servers c')
  then have ok: "cfg_ok c" "disjoint_servers (Groups c)" by (auto simp: config_inv_def)
  note J = JoinBalance_True[OF join.hyps(2) ok(1)]
  have "cfg_ok (c\<lparr>Num := Num c + 1, Groups := Groups c @ servers\<rparr>)"
    using ok J by (intro cfg_ok_Groups) auto
  from Rebalance_run[OF this] J ok(2) join.IH show ?case by (auto simp: config_inv_def split: if_splits)
next
  case (leave n c gs c')
  then have ok: "cfg_ok c" "disjoint_servers (Groups c)" by (auto simp: config_inv_def)
  let ?m = "filter (\<lambda>(g, _). g \<notin> set gs) (Groups c)"
  note L = LeaveBalance_True[OF leave.hyps(2)]
  have "cfg_ok (c\<lparr>Num := Num c + 1, Groups := ?m\<rparr>)"
    using ok(1) by (intro cfg_ok_Groups distinct_keys_filter) (auto simp: cfg_ok_def)
  moreover have "disjoint_servers ?m" by (rule disjoint_servers_mono[OF ok(2)]) auto
  ultimately show ?case using Rebalance_run L leave.IH
    by (force simp: config_inv_def split: if_splits)
qed

subsection \<open>Properties\<close>

lemma balanced_join_step:
  assumes ok: "cfg_ok c" "Groups c \<noteq> []" and an: "analyze c = (mg, mn, lg, ln)" and gap: "\<not> mn < ln + 2"
    and i: "i < length (Shards c)" "Shards c ! i = mg"
    and low: "\<forall>h\<in>gids c - {g}. load c g \<le> load c h"
    and old: "\<forall>h\<in>gids c - {g}. \<forall>h'\<in>gids c - {g}. load c h \<le> load c h' + 1"
  defines "c' \<equiv> c\<lparr>Shards := (Shards c)[i := lg]\<rparr>"
  shows "lg = g \<and> (\<forall>h\<in>gids c' - {g}. load c' g \<le> load c' h) \<and>
    (\<forall>h\<in>gids c' - {g}. \<forall>h'\<in>gids c' - {g}. load c' h \<le> load c' h' + 1)"
proof -
  note sp = analyze_spec[OF ok an]
  have lg: "lg = g"
  proof (rule ccontr)
    assume ne: "lg \<noteq> g"
    then have "load c g \<le> ln" using low sp(3,4) by auto
    then have "mg \<noteq> g" using gap sp(2) by auto
    then have "mn \<le> ln + 1" using old sp(1-4) ne by auto
    with gap show False by simp
  qed
  have mg: "mg \<noteq> g" "mn = load c mg" "mg \<in> gids c - {g}" "ln = load c g" using sp lg gap by auto
  have near: "mn - 1 \<le> load c h \<and> load c h \<le> mn" if "h \<in> gids c - {g}" for h
    using old mg(2,3) that sp(5)[of h] by (metis DiffD1 diff_le_eq)
  have load': "load c' h = load c h - (if mg = h then 1 else 0) + (if g = h then 1 else 0)" for h
    unfolding c'_def lg load_set_shard[OF i(1)] i(2) by simp
  have gids': "gids c' = gids c" by (simp add: c'_def)
  have "load c' g \<le> load c' h" if "h \<in> gids c' - {g}" for h
    unfolding load' using near[of h] that mg gap by (auto simp: gids')
  moreover have "load c' h \<le> load c' h' + 1" if "h \<in> gids c' - {g}" "h' \<in> gids c' - {g}" for h h'
    unfolding load' using near[of h] near[of h'] that mg by (auto simp: gids')
  ultimately show ?thesis using lg by blast
qed

text \<open>
  Property C1: \<^verbatim>\<open>Rebalance\<close> terminates on every configuration and leaves the groups and the number
  unchanged. Without groups all shards are unassigned (group 0); otherwise every shard has a
  group, and the loads of any two groups differ by at most one.
\<close>

theorem Rebalance_terminates_balanced:
  assumes "cfg_ok c"
  shows "\<exists>c'. Rebalance c = Ret c' \<and> Groups c' = Groups c \<and> Num c' = Num c \<and> length (Shards c') = NShards \<and>
    (if Groups c = [] then Shards c' = replicate NShards 0
     else (\<forall>s<NShards. Shards c' ! s \<in> fst ` set (Groups c)) \<and>
       (\<forall>g\<in>fst ` set (Groups c). \<forall>h\<in>fst ` set (Groups c).
          count_list (Shards c') g \<le> count_list (Shards c') h + 1))"
proof -
  from Rebalance_run[OF assms] obtain c' where c': "Rebalance c = Ret c'" "cfg_ok c'" "Groups c' = Groups c"
      "Num c' = Num c" "balanced c'" "if Groups c = [] then Shards c' = replicate NShards 0 else all_assigned c'"
    by blast
  moreover have "Groups c \<noteq> [] \<Longrightarrow> s < NShards \<Longrightarrow> Shards c' ! s \<in> fst ` set (Groups c)" for s
    using c' nth_mem[of s "Shards c'"] by (auto simp: all_assigned_def cfg_ok_def)
  moreover have "count_list (Shards c') g \<le> count_list (Shards c') h + 1"
    if "g \<in> gids c" "h \<in> gids c" for g h
  proof -
    have "load c' g \<le> load c' h + 1" using c'(3,5) that by (auto simp: balanced_def)
    then show ?thesis by linarith
  qed
  ultimately show ?thesis by (auto simp: cfg_ok_def)
qed

theorem Rebalance_terminates_balanced_witness:
  "\<exists>c'. Rebalance \<lparr>Num = 3, Shards = replicate 12 7, Groups = [(2, [''a'']), (5, [''b''])]\<rparr> = Ret c' \<and>
     (\<forall>s<NShards. Shards c' ! s \<in> {2, 5})"
  using Rebalance_terminates_balanced[of "\<lparr>Num = 3, Shards = replicate 12 7, Groups = [(2, [''a'']), (5, [''b''])]\<rparr>"]
  by (auto simp: cfg_ok_def NShards_def)

text \<open>
  \<^verbatim>\<open>JoinBalance\<close> with new groups, whose servers belong to no other group, succeeds: it
  adds exactly those groups, advances the number by one, and the result passes \<^verbatim>\<open>CheckConfig\<close> for
  the old and new groups listed in any order.
\<close>

lemma JoinBalance_passes_CheckConfig:
  assumes "cfg_ok c" "servers \<noteq> []" "distinct (gm_keys (Groups c @ servers))"
    "disjoint_servers (Groups c @ servers)"
    and "mset gs = mset (gm_keys (Groups c @ servers))"
  shows "\<exists>c'. JoinBalance servers c = Ret (True, c') \<and> Groups c' = Groups c @ servers \<and>
    Num c' = Num c + 1 \<and> CheckConfig c' gs = Ret ()"
proof -
  let ?c = "c\<lparr>Num := Num c + 1, Groups := Groups c @ servers\<rparr>"
  have "Join servers c = Ret (True, ?c)" using assms by (simp add: Join_def join_loop_ok)
  moreover have "cfg_ok ?c" using assms(1,3) by (intro cfg_ok_Groups)
  from Rebalance_run[OF this] obtain c' where c': "Rebalance ?c = Ret c'" "cfg_ok c'" "balanced c'"
      "all_assigned c'" "Groups c' = Groups c @ servers" "Num c' = Num c + 1"
    using assms(2) by auto
  moreover have "CheckConfig c' gs = Ret ()"
    unfolding CheckConfig_ok_iff[OF c'(2)]
    using c' mset_eq_setD[OF assms(5)] mset_eq_length[OF assms(5)] by auto
  ultimately show ?thesis by (auto simp: JoinBalance_def)
qed

text \<open>
  \<^verbatim>\<open>LeaveBalance\<close> with distinct groups of the configuration succeeds: it removes
  exactly those groups, advances the number, and the result passes \<^verbatim>\<open>CheckConfig\<close> for the groups
  that remain, in any order; that includes removing the last group.
\<close>

lemma LeaveBalance_passes_CheckConfig:
  assumes "cfg_ok c" "leaving \<noteq> []" "distinct leaving" "set leaving \<subseteq> fst ` set (Groups c)"
    and "mset gs = mset (filter (\<lambda>g. g \<notin> set leaving) (gm_keys (Groups c)))"
  shows "\<exists>c'. LeaveBalance leaving c = Ret (True, c') \<and>
    Groups c' = filter (\<lambda>(g, _). g \<notin> set leaving) (Groups c) \<and> Num c' = Num c + 1 \<and> CheckConfig c' gs = Ret ()"
proof -
  let ?m = "filter (\<lambda>(g, _). g \<notin> set leaving) (Groups c)"
  let ?c = "c\<lparr>Num := Num c + 1, Groups := ?m\<rparr>"
  have "Leave leaving c = Ret (True, ?c)" using assms by (simp add: Leave_def leave_loop_ok)
  moreover have "cfg_ok ?c" using assms(1) by (intro cfg_ok_Groups distinct_keys_filter) (auto simp: cfg_ok_def)
  from Rebalance_run[OF this] obtain c' where c': "Rebalance ?c = Ret c'" "cfg_ok c'" "balanced c'"
      "?m \<noteq> [] \<longrightarrow> all_assigned c'" "Groups c' = ?m" "Num c' = Num c + 1"
    by (auto split: if_splits)
  moreover have keys: "gm_keys ?m = filter (\<lambda>g. g \<notin> set leaving) (gm_keys (Groups c))"
    by (simp add: filter_map case_prod_unfold o_def)
  moreover have "CheckConfig c' gs = Ret ()"
    unfolding CheckConfig_ok_iff[OF c'(2)]
    using c' mset_eq_setD[OF assms(5)] mset_eq_length[OF assms(5)] arg_cong[OF keys, of length]
      arg_cong[OF keys, of set] by auto
  ultimately show ?thesis by (auto simp: LeaveBalance_def)
qed

text \<open>
  Property C25: in every configuration reached from \<^verbatim>\<open>MakeShardConfig\<close> by successful joins and
  leaves, the number counts the changes, the array has its length, no group is listed twice, no
  server belongs to two groups, the loads differ by at most one, and every shard has a group as
  soon as there is one.
\<close>

theorem config_history_invariant:
  assumes "config_reach n c"
  shows "Num c = int n \<and> length (Shards c) = NShards \<and> distinct (gm_keys (Groups c)) \<and>
    disjoint_servers (Groups c) \<and> balanced c \<and> (Groups c \<noteq> [] \<longrightarrow> all_assigned c)"
  using config_reach_inv[OF assms] by (auto simp: config_inv_def cfg_ok_def)

theorem config_history_invariant_witness:
  "\<exists>c. config_reach 1 c \<and> Groups c = [(1, [''x''])] \<and> all_assigned c"
proof -
  let ?c = "\<lparr>Num = 1, Shards = replicate NShards 1, Groups = [(1, [''x''])]\<rparr>"
  have "JoinBalance [(1, [''x''])] MakeShardConfig = Ret (True, ?c)" by code_simp
  then have "config_reach 1 ?c" using config_reach.join[OF config_reach.start] by (metis One_nat_def)
  moreover from this have "all_assigned ?c" using config_history_invariant[of 1 ?c] by simp
  ultimately show ?thesis by (intro exI[of _ ?c]) simp
qed

text \<open>
  Property C23: joining one group to a balanced configuration in which every shard has a group moves
  a shard only to the new group: no shard travels between two old groups.
\<close>

theorem JoinBalance_moves_only_to_new_group:
  assumes "cfg_ok c" "Groups c \<noteq> []" "all_assigned c" "balanced c"
    and "JoinBalance [(g, servers)] c = Ret (True, c')" and "s < NShards"
  shows "Shards c' ! s = Shards c ! s \<or> Shards c' ! s = g"
proof -
  let ?c = "c\<lparr>Num := Num c + 1, Groups := Groups c @ [(g, servers)]\<rparr>"
  let ?P = "\<lambda>d. gids d = gids ?c \<and> (\<forall>s<NShards. Shards d ! s = Shards c ! s \<or> Shards d ! s = g) \<and>
     (\<forall>h\<in>gids d - {g}. load d g \<le> load d h) \<and> (\<forall>h\<in>gids d - {g}. \<forall>h'\<in>gids d - {g}. load d h \<le> load d h' + 1)"
  note J = JoinBalance_True[OF assms(5,1)]
  have fresh: "g \<notin> gids c" using J by auto
  then have "count_list (Shards c) g = 0" using assms(3) count_list_0_iff by (fastforce simp: all_assigned_def)
  then have P0: "?P ?c" using assms(4) fresh by (auto simp: balanced_def)
  have ok: "cfg_ok ?c" "Groups ?c \<noteq> []" using assms(1) J by (auto intro!: cfg_ok_Groups)
  have "\<exists>d. move_loop ?c = Some d \<and> ?P d \<and> cfg_ok d \<and> balanced d \<and> Groups d = Groups ?c \<and> Num d = Num ?c"
  proof (rule move_loop_rule[where P = ?P, OF ok P0])
    fix d mg mn lg ln i
    assume P: "?P d" and d: "cfg_ok d" "Groups d \<noteq> []" "analyze d = (mg, mn, lg, ln)" "\<not> mn < ln + 2"
      and i: "i < length (Shards d)" "Shards d ! i = mg"
    from balanced_join_step[OF d i, of g] P show "?P (d\<lparr>Shards := (Shards d)[i := lg]\<rparr>)"
      by (auto simp: nth_list_update[OF i(1)])
  qed
  moreover have "assign_loop (Shards ?c) 0 ?c = ?c"
    using assms(3) by (intro assign_loop_id) (auto simp: all_assigned_def)
  ultimately show ?thesis using J ok(2) assms(6) by (auto simp: Rebalance_def)
qed

theorem JoinBalance_moves_only_to_new_group_witness:
  "\<exists>c'. JoinBalance [(3, [''z''])] \<lparr>Num = 2, Shards = [1,1,1,1,1,1,2,2,2,2,2,2],
       Groups = [(1, [''x'']), (2, [''y''])]\<rparr> = Ret (True, c') \<and> (Shards c' ! 11 = 2 \<or> Shards c' ! 11 = 3)"
proof -
  let ?c = "\<lparr>Num = 2, Shards = [1,1,1,1,1,1,2,2,2,2,2,2], Groups = [(1, [''x'']), (2, [''y''])]\<rparr>"
  let ?c' = "\<lparr>Num = 3, Shards = [3,3,1,1,1,1,3,3,2,2,2,2],
    Groups = [(1, [''x'']), (2, [''y'']), (3, [''z''])]\<rparr>"
  have "JoinBalance [(3, [''z''])] ?c = Ret (True, ?c')" by code_simp
  moreover have "cfg_ok ?c" "all_assigned ?c" "balanced ?c"
    by (simp_all add: cfg_ok_def NShards_def all_assigned_def balanced_def)
  ultimately show ?thesis
    using JoinBalance_moves_only_to_new_group[of ?c 3 "[''z'']" ?c' 11] by (simp add: NShards_def)
qed

text \<open>
  Property C24: when groups leave a balanced configuration in which every shard has a group, only the
  shards of the leaving groups are reassigned; every other shard stays where it was.
\<close>

theorem LeaveBalance_moves_only_orphans:
  assumes "cfg_ok c" "all_assigned c" "balanced c" "LeaveBalance leaving c = Ret (True, c')"
    and "Groups c' \<noteq> []" and "s < NShards" "Shards c ! s \<notin> set leaving"
  shows "Shards c' ! s = Shards c ! s"
proof -
  let ?m = "filter (\<lambda>(g, _). g \<notin> set leaving) (Groups c)"
  let ?c = "c\<lparr>Num := Num c + 1, Groups := ?m\<rparr>" and ?a = "assign_loop (Shards c) 0"
  note L = LeaveBalance_True[OF assms(4)]
  have gids: "gids ?c = gids c - set leaving" by (force simp: case_prod_unfold)
  have ok: "cfg_ok ?c" using assms(1) by (intro cfg_ok_Groups distinct_keys_filter) (auto simp: cfg_ok_def)
  have ne: "Groups ?c \<noteq> []" using Rebalance_run[OF ok] L assms(5) by auto
  have "balanced ?c" using assms(3) gids by (auto simp: balanced_def)
  with assign_loop_spec[OF ok ne, of "Shards c" 0]
  have a: "all_assigned (?a ?c)" "balanced (?a ?c)"
    "\<forall>i<length (Shards c). Shards c ! i \<in> gids ?c \<longrightarrow> Shards (?a ?c) ! i = Shards c ! i" by auto
  have "cfg_ok (?a ?c)" "Groups (?a ?c) \<noteq> []" using ok ne by (simp_all add: cfg_ok_def assign_loop_frame)
  with Rebalance_stable[OF this a(1,2)] have "move_loop (?a ?c) = Some (?a ?c)"
    using assign_loop_id[of "Shards (?a ?c)" "?a ?c" 0] a(1)
    by (simp add: Rebalance_def all_assigned_def go_simps)
  then have "c' = ?a ?c" using L ne by (simp add: Rebalance_def)
  moreover have "Shards c ! s \<in> gids ?c"
    unfolding gids using assms(1,2,6,7) by (auto simp: all_assigned_def cfg_ok_def)
  ultimately show ?thesis using a(3) assms(1,6) by (simp add: cfg_ok_def)
qed

theorem LeaveBalance_moves_only_orphans_witness:
  "\<exists>c'. LeaveBalance [2] \<lparr>Num = 2, Shards = [1,1,1,1,2,2,2,2,3,3,3,3],
       Groups = [(1, [''x'']), (2, [''y'']), (3, [''z''])]\<rparr> = Ret (True, c') \<and> Shards c' ! 11 = 3"
proof -
  let ?c = "\<lparr>Num = 2, Shards = [1,1,1,1,2,2,2,2,3,3,3,3], Groups = [(1, [''x'']), (2, [''y'']), (3, [''z''])]\<rparr>"
  let ?c' = "\<lparr>Num = 3, Shards = [1,1,1,1,1,3,1,3,3,3,3,3], Groups = [(1, [''x'']), (3, [''z''])]\<rparr>"
  have "LeaveBalance [2] ?c = Ret (True, ?c')" by code_simp
  moreover have "cfg_ok ?c" "all_assigned ?c" "balanced ?c"
    by (simp_all add: cfg_ok_def NShards_def all_assigned_def balanced_def)
  ultimately show ?thesis
    using LeaveBalance_moves_only_orphans[of ?c "[2]" ?c' 11] by (simp add: NShards_def)
qed

text \<open>
  Property C26: \<^verbatim>\<open>Key2Shard\<close> always yields an index of the shard array, and in every configuration
  reached with at least one group, looking that shard up with \<^verbatim>\<open>GidServers\<close> gives the group that the array has at this index and the
  servers that the configuration lists for this group: every key is served, by the group its shard is assigned to.
\<close>

theorem every_key_is_served:
  assumes "config_reach n c" "Groups c \<noteq> []"
  shows "0 \<le> Key2Shard key \<and> Key2Shard key < int NShards \<and>
    (\<exists>gid srvs. gid = Shards c ! nat (Key2Shard key) \<and> map_of (Groups c) gid = Some srvs \<and>
      GidServers c (Key2Shard key) = Ret (gid, srvs, True))"
proof -
  have k: "0 \<le> Key2Shard key" "Key2Shard key < int NShards"
    by (simp_all add: Key2Shard_def NShards_def)
  have inv: "length (Shards c) = NShards" "all_assigned c"
    using config_reach_inv[OF assms(1)] assms(2) by (auto simp: config_inv_def cfg_ok_def)
  let ?g = "Shards c ! nat (Key2Shard key)"
  have i: "nat (Key2Shard key) < length (Shards c)" using k inv by simp
  then have has: "gm_has (Groups c) ?g" using inv(2) nth_mem by (fastforce simp: all_assigned_def)
  then obtain srvs where s: "map_of (Groups c) ?g = Some srvs" by (auto simp: gm_get_has)
  then have "gm_get [] (Groups c) ?g = srvs" by (simp add: gm_get_def)
  with k i has s show ?thesis by (auto simp: GidServers_def Let_def)
qed

text \<open>The key \<open>b\<close> has shard 1, which another group serves than shard 0.\<close>

theorem every_key_is_served_witness:
  "\<exists>c. config_reach 1 c \<and> Shards c ! 0 = 1 \<and> Key2Shard ''b'' = 1 \<and> GidServers c (Key2Shard ''b'') = Ret (2, [''y''], True)"
proof -
  let ?c = "\<lparr>Num = 1, Shards = [1, 2, 1, 2, 1, 2, 1, 2, 1, 2, 1, 2], Groups = [(1, [''x'']), (2, [''y''])]\<rparr>"
  have "JoinBalance [(1, [''x'']), (2, [''y''])] MakeShardConfig = Ret (True, ?c)" by code_simp
  then have c: "config_reach 1 ?c" using config_reach.join[OF config_reach.start] by (metis One_nat_def)
  have k: "Key2Shard ''b'' = 1" by code_simp
  show ?thesis using every_key_is_served[OF c, of "''b''"] c k by (intro exI[of _ ?c]) simp
qed

text \<open>
  \<^verbatim>\<open>Join\<close> does not roll back. When the map of joining groups is visited with a new group
  before one that is already present, \<^verbatim>\<open>Join\<close> returns false although it has added the new group,
  without advancing the number; visited in the other order it returns false with nothing changed.
\<close>

lemma Join_failure_depends_on_order:
  assumes "gm_has (Groups c) g1" "\<not> gm_has (Groups c) g2" "\<not> server_clash (Groups c) s2"
  shows "Join [(g2, s2), (g1, s1)] c = Ret (False, c\<lparr>Groups := Groups c @ [(g2, s2)]\<rparr>) \<and>
    Join [(g1, s1), (g2, s2)] c = Ret (False, c)"
  using assms by (auto simp: Join_def alist_update_fresh)

end
