(* ===== verification/Kv_Model.thy ===== *)
theory Kv_Model
  imports Go_Stdlib
begin

text \<open>
  The sequential specification of one key that the linearizability checker runs
  (\<^verbatim>\<open>models1/kv.go\<close>), with the error names and the version type of \<^verbatim>\<open>kvsrv1/rpc/rpc.go\<close>. The
  checker itself (package porcupine) is not part of the repository: a history is legal when some
  order of its operations respects real time and is accepted by \<open>Step\<close>, which is what that package
  documents. The main result is that checking the parts that \<open>Partition\<close> returns one by one is
  the same as checking the whole history against a store of many keys.
\<close>

subsection \<open>kvsrv1/rpc: errors and versions\<close>

type_synonym tversion = "64 word"

definition OK :: string where "OK = ''OK''"
definition ErrNoKey :: string where "ErrNoKey = ''ErrNoKey''"
definition ErrVersion :: string where "ErrVersion = ''ErrVersion''"
definition ErrMaybe :: string where "ErrMaybe = ''ErrMaybe''"
definition ErrWrongLeader :: string where "ErrWrongLeader = ''ErrWrongLeader''"
definition ErrWrongGroup :: string where "ErrWrongGroup = ''ErrWrongGroup''"

lemmas err_defs = OK_def ErrNoKey_def ErrVersion_def ErrMaybe_def ErrWrongLeader_def ErrWrongGroup_def

subsection \<open>models1: inputs, outputs, states\<close>

record kv_input =
  in_Op :: "8 word"
  in_Key :: string
  in_Value :: string
  in_Version :: "64 word"

record kv_output =
  out_Value :: string
  out_Version :: "64 word"
  out_Err :: string

record kv_state =
  st_Value :: string
  st_Version :: "64 word"

text \<open>The state is an \<^verbatim>\<open>interface{}\<close>: a \<^verbatim>\<open>KvState\<close>, or the string that an unknown operation leaves.\<close>

datatype kv_dyn = DynState kv_state | DynString string

text \<open>A \<^verbatim>\<open>porcupine.Operation\<close>, with the dynamic types that the recording code gives its fields.\<close>

record operation =
  ClientId :: int
  Input :: kv_input
  Call :: int
  Output :: kv_output
  Return :: int

fun partition_add :: "operation list \<Rightarrow> (string, operation list) gomap \<Rightarrow> (string, operation list) gomap" where
  "partition_add [] m = m"
| "partition_add (v # vs) m =
     (let key = in_Key (Input v) in partition_add vs (AList.update key (gm_get [] m key @ [v]) m))"

definition Partition :: "operation list \<Rightarrow> operation list list" where
  "Partition history =
     (let m = partition_add history []; keys = sort (gm_keys m) in map (gm_get [] m) keys)"

definition Init :: kv_dyn where
  "Init = DynState \<lparr>st_Value = [], st_Version = 0\<rparr>"

definition Step :: "kv_dyn \<Rightarrow> kv_input \<Rightarrow> kv_output \<Rightarrow> (bool \<times> kv_dyn) go" where
  "Step state inp out = (case state of
     DynString _ \<Rightarrow> Panic ''interface conversion: interface {} is string, not KvState''
   | DynState st \<Rightarrow>
       if in_Op inp = 0 then Ret (out_Value out = st_Value st, state)
       else if in_Op inp = 1 then
         (if st_Version st = in_Version inp
          then Ret (out_Err out = ''OK'' \<or> out_Err out = ''ErrMaybe'',
                    DynState \<lparr>st_Value = in_Value inp, st_Version = st_Version st + 1\<rparr>)
          else Ret (out_Err out = ''ErrVersion'' \<or> out_Err out = ''ErrMaybe'', DynState st))
       else Ret (False, DynString ''<invalid>''))"

definition quoted :: "string \<Rightarrow> string" where
  "quoted s = [CHR 0x27] @ s @ [CHR 0x27]"

definition DescribeOperation :: "kv_input \<Rightarrow> kv_output \<Rightarrow> string" where
  "DescribeOperation inp out =
     (if in_Op inp = 0 then
        ''get('' @ quoted (in_Key inp) @ '') -> ('' @ quoted (out_Value out) @ '', ''
          @ quoted (itoa (uint (out_Version out))) @ '', '' @ quoted (out_Err out) @ '')''
      else if in_Op inp = 1 then
        ''put('' @ quoted (in_Key inp) @ '', '' @ quoted (in_Value inp) @ '', ''
          @ quoted (itoa (uint (in_Version inp))) @ '') -> ('' @ quoted (out_Err out) @ '')''
      else ''<invalid>'')"

subsection \<open>Legal and linearizable histories\<close>

abbreviation op_key :: "operation \<Rightarrow> string" where
  "op_key v \<equiv> in_Key (Input v)"

text \<open>Running \<open>Step\<close> over a sequence of operations on one key: every step must be accepted.\<close>

fun run_key :: "kv_dyn \<Rightarrow> operation list \<Rightarrow> bool" where
  "run_key st [] = True"
| "run_key st (v # vs) = (case Step st (Input v) (Output v) of
     Ret (ok, st') \<Rightarrow> ok \<and> run_key st' vs | _ \<Rightarrow> False)"

text \<open>A store of many keys runs the same steps on the state of the key an operation names.\<close>

fun run_store :: "(string \<Rightarrow> kv_dyn) \<Rightarrow> operation list \<Rightarrow> bool" where
  "run_store m [] = True"
| "run_store m (v # vs) = (case Step (m (op_key v)) (Input v) (Output v) of
     Ret (ok, st') \<Rightarrow> ok \<and> run_store (m(op_key v := st')) vs | _ \<Rightarrow> False)"

definition real_time :: "operation list \<Rightarrow> bool" where
  \<comment> \<open>No operation comes before one that had returned when it was called.\<close>
  "real_time xs = sorted_wrt (\<lambda>a b. \<not> Return b < Call a) xs"

definition linearizable_key :: "operation list \<Rightarrow> bool" where
  "linearizable_key h \<longleftrightarrow> (\<exists>xs. mset xs = mset h \<and> real_time xs \<and> run_key Init xs)"

definition linearizable_store :: "operation list \<Rightarrow> bool" where
  "linearizable_store h \<longleftrightarrow> (\<exists>xs. mset xs = mset h \<and> real_time xs \<and> run_store (\<lambda>_. Init) xs)"

subsection \<open>The partition by key\<close>

lemma partition_add_get:
  "gm_get [] (partition_add vs m) k = gm_get [] m k @ filter (\<lambda>v. op_key v = k) vs"
  by (induction vs arbitrary: m) (auto simp: Let_def)

lemma partition_add_keys:
  "fst ` set (partition_add vs m) = fst ` set m \<union> op_key ` set vs"
proof (induction vs arbitrary: m)
  case (Cons v vs)
  have "fst ` set (AList.update k x m) = insert k (fst ` set m)" for k x
    by (auto simp: set_eq_iff)
  with Cons show ?case by (simp add: Let_def)
qed simp

lemma partition_add_distinct: "distinct (gm_keys m) \<Longrightarrow> distinct (gm_keys (partition_add vs m))"
  by (induction vs arbitrary: m) (simp_all add: Let_def distinct_update)

lemma Partition_eq:
  "Partition h = map (\<lambda>k. filter (\<lambda>v. op_key v = k) h) (sorted_list_of_set (op_key ` set h))"
proof -
  have keys: "set (gm_keys (partition_add h [])) = op_key ` set h"
    using partition_add_keys[of h "[]"] by simp
  have "distinct (gm_keys (partition_add h []))" by (rule partition_add_distinct) simp
  then have "sort (gm_keys (partition_add h [])) = sorted_list_of_set (op_key ` set h)"
    by (metis keys sorted_list_of_set_sort_remdups distinct_remdups_id)
  then show ?thesis by (simp add: Partition_def Let_def partition_add_get)
qed

lemma filter_eq_empty_sym: "[] = filter P xs \<Longrightarrow> \<forall>x\<in>set xs. \<not> P x"
  by (metis filter_empty_conv)

lemma Partition_mset: "mset (concat (Partition h)) = mset h"
proof -
  have "mset (concat (map (\<lambda>k. filter (\<lambda>v. op_key v = k) h) ks)) = filter_mset (\<lambda>v. op_key v \<in> set ks) (mset h)"
    if "distinct ks" for ks
    using that
  proof (induction ks)
    case (Cons k ks)
    have "filter_mset (\<lambda>v. op_key v \<in> set (k # ks)) (mset h) =
        filter_mset (\<lambda>v. op_key v = k) (mset h) + filter_mset (\<lambda>v. op_key v \<in> set ks) (mset h)"
      using Cons.prems by (induction h) auto
    with Cons show ?case by (simp add: mset_filter)
  qed simp
  from this[of "sorted_list_of_set (op_key ` set h)"]
  have "mset (concat (Partition h)) = filter_mset (\<lambda>v. op_key v \<in> op_key ` set h) (mset h)"
    unfolding Partition_eq by simp
  also have "\<dots> = mset h" by (simp add: filter_mset_eq_conv)
  finally show ?thesis .
qed

subsection \<open>Locality\<close>

lemma run_store_iff: "run_store m vs \<longleftrightarrow> (\<forall>k. run_key (m k) (filter (\<lambda>v. op_key v = k) vs))"
proof (induction vs arbitrary: m)
  case (Cons v vs)
  show ?case
  proof (cases "Step (m (op_key v)) (Input v) (Output v)")
    case (Ret r)
    obtain ok st' where r: "r = (ok, st')" by (cases r)
    have "(\<forall>k. run_key ((m(op_key v := st')) k) (filter (\<lambda>w. op_key w = k) vs)) \<and> ok \<longleftrightarrow>
      (\<forall>k. run_key (m k) (filter (\<lambda>w. op_key w = k) (v # vs)))"
      using Ret r by (auto split: if_splits)
    then show ?thesis using Ret r Cons by auto
  qed (auto intro: exI[of _ "op_key v"])
qed simp

text \<open>
  The linearization point of an operation in a sequence that respects real time: the latest call
  among the operations up to it. It lies between the operation's call and its return.
\<close>

fun lin_points :: "int \<Rightarrow> operation list \<Rightarrow> (int \<times> operation) list" where
  "lin_points m [] = []"
| "lin_points m (v # vs) = (max m (Call v), v) # lin_points (max m (Call v)) vs"

lemma lin_points_snd [simp]: "map snd (lin_points m vs) = vs"
  by (induction vs arbitrary: m) auto

lemma lin_points_ge: "(p, v) \<in> set (lin_points m vs) \<Longrightarrow> m \<le> p \<and> Call v \<le> p"
  by (induction vs arbitrary: m) fastforce+

lemma lin_points_sorted: "sorted (map fst (lin_points m vs))"
proof (induction vs arbitrary: m)
  case (Cons v vs)
  have "\<forall>p\<in>set (map fst (lin_points (max m (Call v)) vs)). max m (Call v) \<le> p"
    using lin_points_ge by fastforce
  with Cons show ?case by simp
qed simp

lemma lin_points_le_return:
  assumes "real_time vs" "\<forall>v\<in>set vs. Call v \<le> Return v" "\<forall>v\<in>set vs. m \<le> Return v"
    and "(p, v) \<in> set (lin_points m vs)"
  shows "p \<le> Return v"
  using assms
proof (induction vs arbitrary: m)
  case (Cons w vs)
  have "\<forall>v\<in>set vs. Call w \<le> Return v" using Cons.prems(1) by (auto simp: real_time_def not_less)
  then have "\<forall>v\<in>set vs. max m (Call w) \<le> Return v" using Cons.prems(3) by auto
  moreover have "real_time vs" using Cons.prems(1) by (simp add: real_time_def)
  ultimately show ?case using Cons.IH[of "max m (Call w)"] Cons.prems(2,3,4) by auto
qed simp

definition with_points :: "operation list \<Rightarrow> (int \<times> operation) list" where
  "with_points vs = (case vs of [] \<Rightarrow> [] | v # _ \<Rightarrow> lin_points (Call v) vs)"

lemma with_points_snd [simp]: "map snd (with_points vs) = vs"
  by (simp add: with_points_def split: list.split)

lemma with_points_sorted: "sorted (map fst (with_points vs))"
  using lin_points_sorted by (auto simp: with_points_def simp del: lin_points.simps split: list.split)

lemma with_points_interval:
  assumes "real_time vs" "\<forall>v\<in>set vs. Call v \<le> Return v" "(p, v) \<in> set (with_points vs)"
  shows "Call v \<le> p \<and> p \<le> Return v"
proof (cases vs)
  case Nil
  with assms(3) show ?thesis by (simp add: with_points_def)
next
  case (Cons w ws)
  then have mem: "(p, v) \<in> set (lin_points (Call w) vs)" using assms(3) by (simp add: with_points_def)
  have "\<forall>v\<in>set vs. Call w \<le> Return v"
    using assms(1,2) Cons by (auto simp: real_time_def not_less)
  with lin_points_le_return[OF assms(1,2) _ mem] lin_points_ge[OF mem] show ?thesis by simp
qed

text \<open>
  Merging one sequence per key by linearization point. The sort is stable, so the order within a
  key survives; the points lie inside the operations' intervals, so real time is respected.
\<close>

definition merge_points :: "operation list list \<Rightarrow> operation list" where
  "merge_points xss = map snd (sort_key fst (concat (map with_points xss)))"

lemma mset_merge_points: "mset (merge_points xss) = mset (concat xss)"
proof -
  have "mset (merge_points xss) = mset (map snd (concat (map with_points xss)))"
    by (simp add: merge_points_def)
  also have "map snd (concat (map with_points xss)) = concat xss"
    by (simp add: map_concat o_def)
  finally show ?thesis .
qed

lemma real_time_merge_points:
  assumes "\<forall>vs\<in>set xss. real_time vs \<and> (\<forall>v\<in>set vs. Call v \<le> Return v)"
  shows "real_time (merge_points xss)"
proof -
  let ?ps = "sort_key fst (concat (map with_points xss))"
  have iv: "Call v \<le> p \<and> p \<le> Return v" if "(p, v) \<in> set ?ps" for p v
  proof -
    from that obtain vs where "vs \<in> set xss" "(p, v) \<in> set (with_points vs)" by auto
    then show ?thesis using assms with_points_interval[of vs p v] by blast
  qed
  have "sorted_wrt (\<lambda>a b. fst a \<le> fst b) ?ps"
    using sorted_sort_key[of fst] by (simp add: sorted_map)
  then have "sorted_wrt (\<lambda>a b. \<not> Return (snd b) < Call (snd a)) ?ps"
  proof (rule sorted_wrt_mono_rel[rotated])
    fix a b assume "a \<in> set ?ps" "b \<in> set ?ps" "fst a \<le> fst b"
    then show "\<not> Return (snd b) < Call (snd a)"
      using iv[of "fst a" "snd a"] iv[of "fst b" "snd b"] by simp
  qed
  then show ?thesis by (simp add: real_time_def merge_points_def sorted_wrt_map)
qed

lemma filter_key_concat:
  assumes "distinct ks" "k \<in> set ks" "\<forall>j\<in>set ks. \<forall>v\<in>set (f j). op_key v = j"
  shows "filter (\<lambda>pv. op_key (snd pv) = k) (concat (map with_points (map f ks))) = with_points (f k)"
  using assms
proof (induction ks)
  case (Cons j ks)
  have other: "filter (\<lambda>pv. op_key (snd pv) = k) (with_points (f i)) =
      (if i = k then with_points (f i) else [])" if "i \<in> set (j # ks)" for i
  proof -
    have "op_key (snd pv) = i" if "pv \<in> set (with_points (f i))" for pv
      using Cons.prems(3) \<open>i \<in> set (j # ks)\<close> with_points_snd[of "f i"] that by (metis image_set imageI)
    then show ?thesis by (auto simp: filter_id_conv filter_empty_conv)
  qed
  have rest: "k \<notin> set ks \<Longrightarrow> filter (\<lambda>pv. op_key (snd pv) = k) (concat (map with_points (map f ks))) = []"
    using other by (auto simp: filter_concat filter_empty_conv)
  show ?case using Cons.IH Cons.prems other[of j] rest by (cases "j = k") auto
qed simp

lemma filter_merge_points:
  assumes "distinct ks" "k \<in> set ks" "\<forall>j\<in>set ks. \<forall>v\<in>set (f j). op_key v = j"
  shows "filter (\<lambda>v. op_key v = k) (merge_points (map f ks)) = f k"
proof -
  have "filter (\<lambda>v. op_key v = k) (merge_points (map f ks)) =
      map snd (filter (\<lambda>pv. op_key (snd pv) = k) (sort_key fst (concat (map with_points (map f ks)))))"
    by (simp add: merge_points_def filter_map o_def)
  also have "\<dots> = map snd (sort_key fst (with_points (f k)))"
    unfolding filter_sort filter_key_concat[OF assms] ..
  also have "\<dots> = f k" by (simp add: sort_key_id_if_sorted with_points_sorted)
  finally show ?thesis .
qed

subsection \<open>Versions count the puts that took effect\<close>

fun end_key :: "kv_dyn \<Rightarrow> operation list \<Rightarrow> kv_dyn" where
  "end_key st [] = st"
| "end_key st (v # vs) = (case Step st (Input v) (Output v) of Ret (_, st') \<Rightarrow> end_key st' vs | _ \<Rightarrow> st)"

definition put_with :: "string \<Rightarrow> operation \<Rightarrow> bool" where
  "put_with err v \<longleftrightarrow> in_Op (Input v) = 1 \<and> out_Err (Output v) = err"

definition count_puts :: "string \<Rightarrow> operation list \<Rightarrow> nat" where
  "count_puts err vs = length (filter (put_with err) vs)"

lemma run_key_append: "run_key st (xs @ ys) \<longleftrightarrow> run_key st xs \<and> run_key (end_key st xs) ys"
  by (induction xs arbitrary: st) (auto split: go.splits)

lemma run_key_Cons_state:
  assumes "run_key (DynState st) (v # vs)"
  obtains st' where "Step (DynState st) (Input v) (Output v) = Ret (True, DynState st')"
    "run_key (DynState st') vs" "end_key (DynState st) (v # vs) = end_key (DynState st') vs"
    "st_Version st' = st_Version st \<and> \<not> put_with ''OK'' v \<or>
     st_Version st' = st_Version st + 1 \<and> st_Version st = in_Version (Input v) \<and>
       (put_with ''OK'' v \<or> put_with ''ErrMaybe'' v)"
proof -
  obtain ok dyn where step: "Step (DynState st) (Input v) (Output v) = Ret (ok, dyn)"
    and run: "ok" "run_key dyn vs" using assms by (auto split: go.splits)
  then obtain st' where dyn: "dyn = DynState st'"
    by (auto simp: Step_def split: if_splits)
  have "st_Version st' = st_Version st \<and> \<not> put_with ''OK'' v \<or>
     st_Version st' = st_Version st + 1 \<and> st_Version st = in_Version (Input v) \<and>
       (put_with ''OK'' v \<or> put_with ''ErrMaybe'' v)"
    using step run(1) dyn by (auto simp: Step_def put_with_def split: if_splits)
  then show ?thesis using that[of st'] step run dyn by simp
qed

text \<open>
  The version after an accepted run is the version before plus a number between the puts that
  reported \<^verbatim>\<open>OK\<close> and those that reported \<^verbatim>\<open>OK\<close> or \<^verbatim>\<open>ErrMaybe\<close>, modulo the width of a version.
\<close>

lemma run_key_version:
  assumes "run_key (DynState st) vs"
  shows "\<exists>n st'. end_key (DynState st) vs = DynState st' \<and> st_Version st' = st_Version st + of_nat n \<and>
    count_puts ''OK'' vs \<le> n \<and> n \<le> count_puts ''OK'' vs + count_puts ''ErrMaybe'' vs"
  using assms
proof (induction vs arbitrary: st)
  case Nil
  then show ?case by (auto simp: count_puts_def intro: exI[of _ 0])
next
  case (Cons v vs)
  from run_key_Cons_state[OF Cons.prems] obtain st1 where st1: "run_key (DynState st1) vs"
    "end_key (DynState st) (v # vs) = end_key (DynState st1) vs"
    and eff: "st_Version st1 = st_Version st \<and> \<not> put_with ''OK'' v \<or>
     st_Version st1 = st_Version st + 1 \<and> st_Version st = in_Version (Input v) \<and>
       (put_with ''OK'' v \<or> put_with ''ErrMaybe'' v)" by blast
  from Cons.IH[OF st1(1)] obtain n st' where n: "end_key (DynState st1) vs = DynState st'"
    "st_Version st' = st_Version st1 + of_nat n" "count_puts ''OK'' vs \<le> n"
    "n \<le> count_puts ''OK'' vs + count_puts ''ErrMaybe'' vs" by blast
  have excl: "\<not> (put_with ''OK'' v \<and> put_with ''ErrMaybe'' v)" by (auto simp: put_with_def)
  from eff show ?case
  proof
    assume "st_Version st1 = st_Version st \<and> \<not> put_with ''OK'' v"
    with n st1(2) show ?case by (intro exI[of _ n] exI[of _ st']) (auto simp: count_puts_def)
  next
    assume "st_Version st1 = st_Version st + 1 \<and> st_Version st = in_Version (Input v) \<and>
       (put_with ''OK'' v \<or> put_with ''ErrMaybe'' v)"
    with n st1(2) excl show ?case
      by (intro exI[of _ "Suc n"] exI[of _ st']) (auto simp: count_puts_def algebra_simps)
  qed
qed

lemma run_key_version_ge:
  assumes "run_key (DynState st) vs" "put_with ''OK'' v" "v \<in> set vs" "in_Version (Input v) = ver"
  shows "\<exists>k\<le>length vs. ver = st_Version st + of_nat k"
proof -
  from split_list[OF assms(3)] obtain xs ys where vs: "vs = xs @ v # ys" by blast
  with assms(1) have xs: "run_key (DynState st) xs" and v: "run_key (end_key (DynState st) xs) (v # ys)"
    by (auto simp: run_key_append)
  from run_key_version[OF xs] obtain n st' where n: "end_key (DynState st) xs = DynState st'"
    "st_Version st' = st_Version st + of_nat n" "n \<le> count_puts ''OK'' xs + count_puts ''ErrMaybe'' xs" by blast
  have "count_puts ''OK'' xs + count_puts ''ErrMaybe'' xs \<le> length xs"
    by (induction xs) (auto simp: count_puts_def put_with_def)
  moreover have "st_Version st' = in_Version (Input v)"
    using v assms(2) unfolding n(1) by (elim run_key_Cons_state) auto
  ultimately show ?thesis using n assms(4) vs by (intro exI[of _ n]) auto
qed

subsection \<open>Properties\<close>

text \<open>
  \<^verbatim>\<open>Partition\<close> splits a history by key and loses nothing: the parts are the operations of
  each key in their original order, the keys come in increasing order without repetition, no part
  is empty, and together the parts are a permutation of the history.
\<close>

lemma Partition_splits_by_key:
  "\<exists>ks. sorted ks \<and> distinct ks \<and> set ks = op_key ` set h \<and>
     Partition h = map (\<lambda>k. filter (\<lambda>v. op_key v = k) h) ks \<and>
     [] \<notin> set (Partition h) \<and> mset (concat (Partition h)) = mset h"
proof -
  have "[] \<notin> set (Partition h)" by (auto simp: Partition_eq dest!: filter_eq_empty_sym)
  with Partition_mset show ?thesis
    by (intro exI[of _ "sorted_list_of_set (op_key ` set h)"]) (simp add: Partition_eq)
qed

text \<open>
  Property C4: checking each part of \<^verbatim>\<open>Partition\<close> against the model of a single key is equivalent to
  checking the whole history against a store of all keys (the source only remarks that
  partitioning by key "is okay"), for histories in which no operation returns before its call.
\<close>

theorem linearizability_is_local:
  assumes "\<forall>v\<in>set h. Call v \<le> Return v"
  shows "(\<forall>p\<in>set (Partition h). linearizable_key p) \<longleftrightarrow> linearizable_store h"
proof
  assume "linearizable_store h"
  then obtain xs where xs: "mset xs = mset h" "real_time xs" "\<forall>k. run_key Init (filter (\<lambda>v. op_key v = k) xs)"
    by (auto simp: linearizable_store_def run_store_iff)
  have "linearizable_key (filter (\<lambda>v. op_key v = k) h)" for k
    unfolding linearizable_key_def
    using xs by (intro exI[of _ "filter (\<lambda>v. op_key v = k) xs"])
      (auto simp: real_time_def sorted_wrt_filter mset_filter)
  then show "\<forall>p\<in>set (Partition h). linearizable_key p" by (auto simp: Partition_eq)
next
  let ?ks = "sorted_list_of_set (op_key ` set h)" and ?sub = "\<lambda>k. filter (\<lambda>v. op_key v = k) h"
  assume "\<forall>p\<in>set (Partition h). linearizable_key p"
  then have "\<forall>k\<in>set ?ks. \<exists>xs. mset xs = mset (?sub k) \<and> real_time xs \<and> run_key Init xs"
    by (auto simp: Partition_eq linearizable_key_def)
  then obtain f where f: "\<forall>k\<in>set ?ks. mset (f k) = mset (?sub k) \<and> real_time (f k) \<and> run_key Init (f k)"
    by metis
  then have sets: "\<forall>k\<in>set ?ks. set (f k) = set (?sub k)" by (metis mset_eq_setD)
  let ?m = "merge_points (map f ?ks)"
  have "mset ?m = mset (concat (map f ?ks))" by (rule mset_merge_points)
  also have "\<dots> = mset (concat (map ?sub ?ks))"
    unfolding mset_concat map_map o_def using f by (intro arg_cong[of _ _ sum_list] map_cong) auto
  also have "\<dots> = mset h" using Partition_mset[of h] by (simp add: Partition_eq)
  finally have m: "mset ?m = mset h" .
  moreover have "real_time ?m"
    using f sets assms by (intro real_time_merge_points) auto
  moreover have "run_key Init (filter (\<lambda>v. op_key v = k) ?m)" for k
  proof (cases "k \<in> set ?ks")
    case True
    then have "filter (\<lambda>v. op_key v = k) ?m = f k"
      using sets by (intro filter_merge_points) auto
    with f True show ?thesis by metis
  next
    case False
    then have "filter (\<lambda>v. op_key v = k) ?m = []"
      using mset_eq_setD[OF m] by (auto simp: filter_empty_conv)
    then show ?thesis by simp
  qed
  ultimately show "linearizable_store h" by (auto simp: linearizable_store_def run_store_iff)
qed

definition ex_op :: "int \<Rightarrow> int \<Rightarrow> string \<Rightarrow> string \<Rightarrow> operation" where
  "ex_op c r k v = \<lparr>ClientId = 0, Input = \<lparr>in_Op = 1, in_Key = k, in_Value = v, in_Version = 0\<rparr>, Call = c,
     Output = \<lparr>out_Value = [], out_Version = 0, out_Err = OK\<rparr>, Return = r\<rparr>"

theorem linearizability_is_local_witness:
  "linearizable_store [ex_op 0 5 ''b'' ''x'', ex_op 2 3 ''a'' ''y''] \<and>
   Partition [ex_op 0 5 ''b'' ''x'', ex_op 2 3 ''a'' ''y''] = [[ex_op 2 3 ''a'' ''y''], [ex_op 0 5 ''b'' ''x'']] \<and>
   linearizable_key [ex_op 2 3 ''a'' ''y''] \<and> linearizable_key [ex_op 0 5 ''b'' ''x'']"
proof -
  let ?h = "[ex_op 0 5 ''b'' ''x'', ex_op 2 3 ''a'' ''y'']"
  have "run_store (\<lambda>_. Init) ?h" by (simp add: ex_op_def Step_def Init_def err_defs)
  moreover have "real_time ?h" by (simp add: real_time_def ex_op_def)
  ultimately have lin: "linearizable_store ?h" unfolding linearizable_store_def by blast
  have part: "Partition ?h = [[ex_op 2 3 ''a'' ''y''], [ex_op 0 5 ''b'' ''x'']]" by code_simp
  have "\<forall>v\<in>set ?h. Call v \<le> Return v" by (simp add: ex_op_def)
  from linearizability_is_local[OF this] lin part show ?thesis by simp
qed

text \<open>
  In a run the model accepts from the initial state, the final version is between the
  number of puts that reported \<^verbatim>\<open>OK\<close> and the number that reported \<^verbatim>\<open>OK\<close> or \<^verbatim>\<open>ErrMaybe\<close>, counted
  modulo \<open>2 ^ 64\<close>.
\<close>

lemma version_counts_puts:
  assumes "run_key Init vs"
  shows "\<exists>n st. end_key Init vs = DynState st \<and> st_Version st = word_of_nat n \<and>
    count_puts OK vs \<le> n \<and> n \<le> count_puts OK vs + count_puts ErrMaybe vs"
proof -
  from assms have "run_key (DynState \<lparr>st_Value = [], st_Version = 0\<rparr>) vs" by (simp add: Init_def)
  from run_key_version[OF this] show ?thesis by (auto simp: Init_def err_defs)
qed

text \<open>
  Property C29: conditional put is exclusive. Among fewer than \<open>2 ^ 64\<close> operations that the model
  accepts, no two puts of the same version both report \<^verbatim>\<open>OK\<close>: of the clients that race with one
  version at most one is told that it won.
\<close>

theorem OK_put_is_exclusive:
  assumes "run_key Init (xs @ v # ys @ w # zs)" "put_with OK v" "put_with OK w"
    and "length (xs @ v # ys @ w # zs) < 2 ^ 64"
  shows "in_Version (Input v) \<noteq> in_Version (Input w)"
proof
  assume same: "in_Version (Input v) = in_Version (Input w)"
  obtain st where st: "end_key Init xs = DynState st"
    using assms(1) run_key_version[of "\<lparr>st_Value = [], st_Version = 0\<rparr>" xs]
    by (auto simp: run_key_append Init_def)
  have "run_key (DynState st) (v # ys @ w # zs)" using assms(1) st by (simp add: run_key_append)
  from run_key_Cons_state[OF this] obtain st' where run: "run_key (DynState st') (ys @ w # zs)"
    and ver: "st_Version st' = in_Version (Input v) + 1"
    using assms(2) by (metis OK_def)
  from run_key_version_ge[OF run, of w] assms(3) obtain k where
    k: "k \<le> length (ys @ w # zs)" "in_Version (Input w) = st_Version st' + of_nat k"
    by (auto simp: err_defs)
  then have "(of_nat (Suc k) :: 64 word) = 0" using same ver by (simp add: algebra_simps)
  then have "2 ^ 64 dvd Suc k" by (simp only: word_of_nat_eq_0_iff) simp
  moreover have "Suc k < 2 ^ 64" using k(1) assms(4) by simp
  ultimately show False by (meson nat_dvd_not_less zero_less_Suc)
qed

theorem OK_put_is_exclusive_witness:
  "in_Version (Input (ex_op 0 1 ''a'' ''y'')) \<noteq> in_Version (Input ((ex_op 2 3 ''a'' ''z'')\<lparr>Input := \<lparr>in_Op = 1, in_Key = ''a'', in_Value = ''z'', in_Version = 1\<rparr>\<rparr>))"
  using OK_put_is_exclusive[of "[]" "ex_op 0 1 ''a'' ''y''" "[]"
      "(ex_op 2 3 ''a'' ''z'')\<lparr>Input := \<lparr>in_Op = 1, in_Key = ''a'', in_Value = ''z'', in_Version = 1\<rparr>\<rparr>" "[]"]
  by (simp add: ex_op_def Step_def Init_def err_defs put_with_def)

text \<open>
  The model accepts no put that reports \<^verbatim>\<open>ErrNoKey\<close>, whatever the state, although the
  server's documentation answers a put with a non-zero version to a missing key exactly so.
\<close>

lemma model_rejects_ErrNoKey_put:
  assumes "in_Op inp = 1" "out_Err out = ErrNoKey" "Step (DynState st) inp out = Ret (ok, st')"
  shows "\<not> ok"
  using assms by (auto simp: Step_def err_defs split: if_splits)

end
