(* ===== verification/Lab_Rpc.thy ===== *)
theory Lab_Rpc
  imports Go_Stdlib
begin

text \<open>
  The simulated network (\<^verbatim>\<open>labrpc/labrpc.go\<close>). The \<open>network\<close> record holds the fields of \<^verbatim>\<open>Network\<close>;
  a server is referred to by the address of its object, because \<^verbatim>\<open>isServerDead\<close> compares pointers.
  The operations that hold the network's mutex are functions on the record. What runs
  concurrently, the goroutines of a call (\<^verbatim>\<open>Call\<close>, \<^verbatim>\<open>processReq\<close> and the handler it starts), is a
  step relation over a world of servers and requests: every rule is a stretch of code between two
  points where goroutines synchronise, and the administrative operations may come in between.
  Random draws are arguments. The gob codec is a parameter.
\<close>

subsection \<open>Messages and codec\<close>

type_synonym byte = "8 word"

record reqMsg =
  rq_endname :: string
  rq_svcMeth :: string
  rq_args :: "byte list"

record replyMsg =
  rp_ok :: bool
  rp_reply :: "byte list"

definition no_reply :: replyMsg where
  "no_reply = \<lparr>rp_ok = False, rp_reply = []\<rparr>"

text \<open>
  What the code uses of gob: encoding a value (\<open>None\<close> is an error) and decoding bytes into a
  variable that holds some value before; the result is what the variable holds afterwards and
  whether decoding succeeded.
\<close>

record 'v codec =
  cd_enc :: "'v \<Rightarrow> byte list option"
  cd_dec :: "'v \<Rightarrow> byte list \<Rightarrow> 'v \<times> bool"
  cd_zero :: 'v

subsection \<open>Services and servers\<close>

type_synonym ('s, 'v) handler = "'v \<Rightarrow> 's \<Rightarrow> 's \<times> 'v"

text \<open>What \<^verbatim>\<open>MakeService\<close> reads of a \<^verbatim>\<open>reflect.Method\<close>, with the function it denotes.\<close>

record ('s, 'v) rmethod =
  m_Name :: string
  m_PkgPath :: string
  m_NumIn :: nat
  m_In2_ptr :: bool
  m_NumOut :: nat
  m_Func :: "('s, 'v) handler"

record ('s, 'v) service =
  svc_name :: string
  svc_methods :: "(string, ('s, 'v) handler) gomap"

fun make_methods :: "('s, 'v) rmethod list \<Rightarrow> (string, ('s, 'v) handler) gomap \<Rightarrow> (string, ('s, 'v) handler) gomap" where
  "make_methods [] ms = ms"
| "make_methods (m # rest) ms = make_methods rest
     (if m_PkgPath m \<noteq> [] \<or> m_NumIn m \<noteq> 3 \<or> \<not> m_In2_ptr m \<or> m_NumOut m \<noteq> 0 then ms
      else AList.update (m_Name m) (m_Func m) ms)"

definition MakeService :: "string \<Rightarrow> ('s, 'v) rmethod list \<Rightarrow> ('s, 'v) service" where
  "MakeService type_name methods = \<lparr>svc_name = type_name, svc_methods = make_methods methods []\<rparr>"

definition Service_dispatch :: "'v codec \<Rightarrow> ('s, 'v) service \<Rightarrow> string \<Rightarrow> reqMsg \<Rightarrow> 's \<Rightarrow> ('s \<times> replyMsg) go" where
  "Service_dispatch cd svc methname req st = (case map_of (svc_methods svc) methname of
     Some meth \<Rightarrow>
       (let args = fst (cd_dec cd (cd_zero cd) (rq_args req));
            (st', replyv) = meth args st
        in Ret (st', \<lparr>rp_ok = True, rp_reply = (case cd_enc cd replyv of None \<Rightarrow> [] | Some b \<Rightarrow> b)\<rparr>))
   | None \<Rightarrow> Fatal ''labrpc.Service.dispatch(): unknown method %v in %v; expecting one of %v'')"

text \<open>\<open>sv_state\<close> is the state of the objects that serve the methods.\<close>

record ('s, 'v) server =
  sv_services :: "(string, ('s, 'v) service) gomap"
  sv_count :: int
  sv_state :: 's

definition MakeServer :: "'s \<Rightarrow> ('s, 'v) server" where
  "MakeServer st = \<lparr>sv_services = [], sv_count = 0, sv_state = st\<rparr>"

definition AddService :: "('s, 'v) service \<Rightarrow> ('s, 'v) server \<Rightarrow> ('s, 'v) server" where
  "AddService svc rs = rs\<lparr>sv_services := AList.update (svc_name svc) svc (sv_services rs)\<rparr>"

definition Server_dispatch :: "'v codec \<Rightarrow> ('s, 'v) server \<Rightarrow> reqMsg \<Rightarrow> (('s, 'v) server \<times> replyMsg) go" where
  "Server_dispatch cd rs req =
     (let rs1 = rs\<lparr>sv_count := sv_count rs + 1\<rparr>; dot = last_index (rq_svcMeth req) (CHR ''.'') in
      if dot < 0 then Panic ''slice bounds out of range''
      else (let serviceName = take (nat dot) (rq_svcMeth req);
                methodName = drop (nat (dot + 1)) (rq_svcMeth req)
            in case map_of (sv_services rs1) serviceName of
                 Some svc \<Rightarrow> go_bind (Service_dispatch cd svc methodName req (sv_state rs1))
                   (\<lambda>(st', reply). Ret (rs1\<lparr>sv_state := st'\<rparr>, reply))
               | None \<Rightarrow> Fatal ''labrpc.Server.dispatch(): unknown service %v in %v.%v; expecting one of %v''))"

definition Server_GetCount :: "('s, 'v) server \<Rightarrow> int" where
  "Server_GetCount rs = sv_count rs"

subsection \<open>The network and the operations under its mutex\<close>

text \<open>
  A server entry may be absent or nil (\<open>Some None\<close>, what \<^verbatim>\<open>DeleteServer\<close> leaves); so may a
  connection. A missing entry of \<^verbatim>\<open>enabled\<close> reads false.
\<close>

record network =
  rn_reliable :: bool
  rn_longDelays :: bool
  rn_longReordering :: bool
  rn_ends :: "string \<rightharpoonup> string"
  rn_enabled :: "string \<rightharpoonup> bool"
  rn_servers :: "string \<rightharpoonup> nat option"
  rn_connections :: "string \<rightharpoonup> string option"
  rn_done :: bool
  rn_count :: "32 word"
  rn_bytes :: "64 word"

definition MakeNetwork :: network where
  "MakeNetwork = \<lparr>rn_reliable = True, rn_longDelays = False, rn_longReordering = False,
     rn_ends = Map.empty, rn_enabled = Map.empty, rn_servers = Map.empty, rn_connections = Map.empty,
     rn_done = False, rn_count = 0, rn_bytes = 0\<rparr>"

definition Cleanup :: "network \<Rightarrow> network go" where
  "Cleanup rn = (if rn_done rn then Panic ''close of closed channel'' else Ret (rn\<lparr>rn_done := True\<rparr>))"

definition Reliable :: "bool \<Rightarrow> network \<Rightarrow> network" where
  "Reliable yes rn = rn\<lparr>rn_reliable := yes\<rparr>"

definition IsReliable :: "network \<Rightarrow> bool" where
  "IsReliable rn = rn_reliable rn"

definition LongReordering :: "bool \<Rightarrow> network \<Rightarrow> network" where
  "LongReordering yes rn = rn\<lparr>rn_longReordering := yes\<rparr>"

definition LongDelays :: "bool \<Rightarrow> network \<Rightarrow> network" where
  "LongDelays yes rn = rn\<lparr>rn_longDelays := yes\<rparr>"

definition IsLongDelays :: "network \<Rightarrow> bool" where
  "IsLongDelays rn = rn_longDelays rn"

definition is_enabled :: "network \<Rightarrow> string \<Rightarrow> bool" where
  "is_enabled rn endname = (rn_enabled rn endname = Some True)"

definition lookup_server :: "network \<Rightarrow> string \<Rightarrow> nat option" where
  "lookup_server rn servername = (case rn_servers rn servername of None \<Rightarrow> None | Some p \<Rightarrow> p)"

definition readEndnameInfo :: "network \<Rightarrow> string \<Rightarrow> bool \<times> string option \<times> nat option \<times> bool \<times> bool" where
  "readEndnameInfo rn endname =
     (let enabled = is_enabled rn endname;
          servername = (case rn_connections rn endname of None \<Rightarrow> None | Some s \<Rightarrow> s);
          server = (case servername of None \<Rightarrow> None | Some s \<Rightarrow> lookup_server rn s)
      in (enabled, servername, server, rn_reliable rn, rn_longReordering rn))"

definition isServerDead :: "network \<Rightarrow> string \<Rightarrow> string \<Rightarrow> nat \<Rightarrow> bool" where
  "isServerDead rn endname servername server \<longleftrightarrow>
     is_enabled rn endname = False \<or> lookup_server rn servername \<noteq> Some server"

definition MakeEnd :: "string \<Rightarrow> network \<Rightarrow> (string \<times> network) go" where
  "MakeEnd endname rn =
     (if rn_ends rn endname \<noteq> None then Fatal ''MakeEnd: %v already exists''
      else Ret (endname, rn\<lparr>rn_ends := (rn_ends rn)(endname \<mapsto> endname),
        rn_enabled := (rn_enabled rn)(endname \<mapsto> False),
        rn_connections := (rn_connections rn)(endname \<mapsto> None)\<rparr>))"

definition DeleteEnd :: "string \<Rightarrow> network \<Rightarrow> network go" where
  "DeleteEnd endname rn =
     (if rn_ends rn endname = None then Fatal ''MakeEnd: %v doesn't exists''
      else Ret (rn\<lparr>rn_ends := (rn_ends rn)(endname := None),
        rn_enabled := (rn_enabled rn)(endname := None),
        rn_connections := (rn_connections rn)(endname := None)\<rparr>))"

definition AddServer :: "string \<Rightarrow> nat \<Rightarrow> network \<Rightarrow> network" where
  "AddServer servername rs rn = rn\<lparr>rn_servers := (rn_servers rn)(servername \<mapsto> Some rs)\<rparr>"

definition DeleteServer :: "string \<Rightarrow> network \<Rightarrow> network" where
  "DeleteServer servername rn = rn\<lparr>rn_servers := (rn_servers rn)(servername \<mapsto> None)\<rparr>"

definition Connect :: "string \<Rightarrow> string \<Rightarrow> network \<Rightarrow> network" where
  "Connect endname servername rn = rn\<lparr>rn_connections := (rn_connections rn)(endname \<mapsto> Some servername)\<rparr>"

definition Enable :: "string \<Rightarrow> bool \<Rightarrow> network \<Rightarrow> network" where
  "Enable endname enabled rn = rn\<lparr>rn_enabled := (rn_enabled rn)(endname \<mapsto> enabled)\<rparr>"

definition GetCount :: "(nat \<rightharpoonup> ('s, 'v) server) \<Rightarrow> string \<Rightarrow> network \<Rightarrow> int go" where
  "GetCount heap servername rn = (case lookup_server rn servername of
     None \<Rightarrow> Panic ''nil pointer dereference''
   | Some p \<Rightarrow> (case heap p of None \<Rightarrow> Panic ''nil pointer dereference'' | Some rs \<Rightarrow> Ret (Server_GetCount rs)))"

definition GetTotalCount :: "network \<Rightarrow> int" where
  "GetTotalCount rn = sint (rn_count rn)"

definition GetTotalBytes :: "network \<Rightarrow> int" where
  "GetTotalBytes rn = sint (rn_bytes rn)"

subsection \<open>The goroutines of a call\<close>

text \<open>
  Where the goroutine that serves a request (\<^verbatim>\<open>processReq\<close>) is. \<open>Waiting\<close> and \<open>Got\<close> carry what
  \<^verbatim>\<open>readEndnameInfo\<close> returned: the server name, the server, \<^verbatim>\<open>reliable\<close> and \<^verbatim>\<open>longreordering\<close>.
  \<open>Refused\<close>: \<^verbatim>\<open>Call\<close> found the network destroyed and returned false.
\<close>

datatype call_pc =
    Sent
  | Refused
  | Waiting string nat bool bool
  | Got string nat bool bool replyMsg
  | Delayed replyMsg
  | Replied replyMsg

text \<open>The goroutine that runs the handler; it goes on when \<^verbatim>\<open>processReq\<close> has given up on it.\<close>

datatype handler_pc = NotStarted | Running nat | Finished replyMsg

record thread =
  th_req :: reqMsg
  th_pc :: call_pc
  th_h :: handler_pc
  th_runs :: nat

record ('s, 'v) world =
  w_net :: network
  w_heap :: "nat \<rightharpoonup> ('s, 'v) server"
  w_fresh :: nat
  w_calls :: "thread list"

definition accept_call :: "reqMsg \<Rightarrow> network \<Rightarrow> network" where
  "accept_call req rn = rn\<lparr>rn_count := rn_count rn + 1,
     rn_bytes := rn_bytes rn + word_of_nat (length (rq_args req))\<rparr>"

definition process_start :: "network \<Rightarrow> reqMsg \<Rightarrow> nat \<Rightarrow> call_pc" where
  "process_start rn req draw = (case readEndnameInfo rn (rq_endname req) of
     (enabled, servername, server, reliable, longreordering) \<Rightarrow>
       (case (servername, server) of
          (Some sn, Some srv) \<Rightarrow>
            if enabled then
              (if reliable = False \<and> draw mod 1000 < 100 then Replied no_reply
               else Waiting sn srv reliable longreordering)
            else Replied no_reply
        | _ \<Rightarrow> Replied no_reply))"

definition finish_req :: "network \<Rightarrow> reqMsg \<Rightarrow> string \<Rightarrow> nat \<Rightarrow> bool \<Rightarrow> bool \<Rightarrow> replyMsg \<Rightarrow> nat \<Rightarrow> nat \<Rightarrow> call_pc" where
  "finish_req rn req sn srv reliable longreordering reply draw1 draw2 =
     (if isServerDead rn (rq_endname req) sn srv then Replied no_reply
      else if reliable = False \<and> draw1 mod 1000 < 100 then Replied no_reply
      else if longreordering \<and> draw2 mod 900 < 600 then Delayed reply
      else Replied reply)"

definition count_reply :: "call_pc \<Rightarrow> network \<Rightarrow> network" where
  "count_reply pc rn = (case pc of
     Replied r \<Rightarrow> if rp_ok r then rn\<lparr>rn_bytes := rn_bytes rn + word_of_nat (length (rp_reply r))\<rparr> else rn
   | _ \<Rightarrow> rn)"

datatype ('s, 'v) admin =
    ACleanup
  | AReliable bool
  | ALongReordering bool
  | ALongDelays bool
  | AMakeEnd string
  | ADeleteEnd string
  | AAddServer string "('s, 'v) server"
  | ADeleteServer string
  | AConnect string string
  | AEnable string bool

text \<open>\<^verbatim>\<open>AddServer\<close> is called with a server that \<^verbatim>\<open>MakeServer\<close> has just allocated: a new address.\<close>

fun apply_admin :: "('s, 'v) admin \<Rightarrow> ('s, 'v) world \<Rightarrow> ('s, 'v) world go" where
  "apply_admin ACleanup w = go_bind (Cleanup (w_net w)) (\<lambda>rn. Ret (w\<lparr>w_net := rn\<rparr>))"
| "apply_admin (AReliable yes) w = Ret (w\<lparr>w_net := Reliable yes (w_net w)\<rparr>)"
| "apply_admin (ALongReordering yes) w = Ret (w\<lparr>w_net := LongReordering yes (w_net w)\<rparr>)"
| "apply_admin (ALongDelays yes) w = Ret (w\<lparr>w_net := LongDelays yes (w_net w)\<rparr>)"
| "apply_admin (AMakeEnd e) w = go_bind (MakeEnd e (w_net w)) (\<lambda>(_, rn). Ret (w\<lparr>w_net := rn\<rparr>))"
| "apply_admin (ADeleteEnd e) w = go_bind (DeleteEnd e (w_net w)) (\<lambda>rn. Ret (w\<lparr>w_net := rn\<rparr>))"
| "apply_admin (AAddServer sn rs) w = Ret (w\<lparr>w_net := AddServer sn (w_fresh w) (w_net w),
     w_heap := (w_heap w)(w_fresh w \<mapsto> rs), w_fresh := Suc (w_fresh w)\<rparr>)"
| "apply_admin (ADeleteServer sn) w = Ret (w\<lparr>w_net := DeleteServer sn (w_net w)\<rparr>)"
| "apply_admin (AConnect e sn) w = Ret (w\<lparr>w_net := Connect e sn (w_net w)\<rparr>)"
| "apply_admin (AEnable e b) w = Ret (w\<lparr>w_net := Enable e b (w_net w)\<rparr>)"

definition init_world :: "('s, 'v) world" where
  "init_world = \<lparr>w_net = MakeNetwork, w_heap = Map.empty, w_fresh = 0, w_calls = []\<rparr>"

abbreviation set_call :: "('s, 'v) world \<Rightarrow> nat \<Rightarrow> thread \<Rightarrow> ('s, 'v) world" where
  "set_call w i t \<equiv> w\<lparr>w_calls := (w_calls w)[i := t]\<rparr>"

text \<open>
  The steps. What a goroutine does between two points where it waits is one step. In particular the last check whether the server is dead and
  handing the reply over are one step: a deletion of the server between the two, which the code allows, is not separate from one after the reply.
\<close>

inductive rpc_step :: "'v codec \<Rightarrow> ('s, 'v) world \<Rightarrow> ('s, 'v) world \<Rightarrow> bool" for cd where
  call: "rpc_step cd w (w\<lparr>w_net := accept_call req (w_net w),
     w_calls := w_calls w @ [\<lparr>th_req = req, th_pc = Sent, th_h = NotStarted, th_runs = 0\<rparr>]\<rparr>)"
| refuse: "rn_done (w_net w) \<Longrightarrow> rpc_step cd w
     (w\<lparr>w_calls := w_calls w @ [\<lparr>th_req = req, th_pc = Refused, th_h = NotStarted, th_runs = 0\<rparr>]\<rparr>)"
| start: "i < length (w_calls w) \<Longrightarrow> w_calls w ! i = t \<Longrightarrow> th_pc t = Sent \<Longrightarrow>
     process_start (w_net w) (th_req t) draw = pc \<Longrightarrow>
     rpc_step cd w (set_call w i (t\<lparr>th_pc := pc,
       th_h := (case pc of Waiting sn srv _ _ \<Rightarrow> Running srv | _ \<Rightarrow> NotStarted)\<rparr>))"
| handle: "i < length (w_calls w) \<Longrightarrow> w_calls w ! i = t \<Longrightarrow> th_h t = Running srv \<Longrightarrow>
     w_heap w srv = Some rs \<Longrightarrow> Server_dispatch cd rs (th_req t) = Ret (rs', reply) \<Longrightarrow>
     rpc_step cd w ((set_call w i (t\<lparr>th_h := Finished reply, th_runs := Suc (th_runs t)\<rparr>))
       \<lparr>w_heap := (w_heap w)(srv \<mapsto> rs')\<rparr>)"
| receive: "i < length (w_calls w) \<Longrightarrow> w_calls w ! i = t \<Longrightarrow> th_pc t = Waiting sn srv rel lng \<Longrightarrow>
     th_h t = Finished reply \<Longrightarrow> rpc_step cd w (set_call w i (t\<lparr>th_pc := Got sn srv rel lng reply\<rparr>))"
| give_up: "i < length (w_calls w) \<Longrightarrow> w_calls w ! i = t \<Longrightarrow> th_pc t = Waiting sn srv rel lng \<Longrightarrow>
     isServerDead (w_net w) (rq_endname (th_req t)) sn srv \<Longrightarrow>
     rpc_step cd w (set_call w i (t\<lparr>th_pc := Replied no_reply\<rparr>))"
| finish: "i < length (w_calls w) \<Longrightarrow> w_calls w ! i = t \<Longrightarrow> th_pc t = Got sn srv rel lng reply \<Longrightarrow>
     finish_req (w_net w) (th_req t) sn srv rel lng reply draw1 draw2 = pc \<Longrightarrow>
     rpc_step cd w ((set_call w i (t\<lparr>th_pc := pc\<rparr>))\<lparr>w_net := count_reply pc (w_net w)\<rparr>)"
| deliver: "i < length (w_calls w) \<Longrightarrow> w_calls w ! i = t \<Longrightarrow> th_pc t = Delayed reply \<Longrightarrow>
     rpc_step cd w ((set_call w i (t\<lparr>th_pc := Replied reply\<rparr>))
       \<lparr>w_net := count_reply (Replied reply) (w_net w)\<rparr>)"
| admin: "apply_admin a w = Ret w' \<Longrightarrow> rpc_step cd w w'"

abbreviation rpc_reach :: "'v codec \<Rightarrow> ('s, 'v) world \<Rightarrow> bool" where
  "rpc_reach cd w \<equiv> (rpc_step cd)\<^sup>*\<^sup>* init_world w"

subsection \<open>A call without interference\<close>

text \<open>
  \<^verbatim>\<open>ClientEnd.Call\<close> as its caller sees it when nothing else happens in between: the request is
  encoded, processed and, if the reply is positive, decoded into the caller's variable. The three
  random draws decide about losing the request, losing the reply and delaying it.
\<close>

definition Call_alone :: "'v codec \<Rightarrow> nat \<times> nat \<times> nat \<Rightarrow> string \<Rightarrow> string \<Rightarrow> 'v \<Rightarrow> 'v \<Rightarrow>
    network \<times> (nat \<rightharpoonup> ('s, 'v) server) \<Rightarrow> (bool \<times> 'v \<times> network \<times> (nat \<rightharpoonup> ('s, 'v) server)) go" where
  "Call_alone cd draws endname svcMeth args reply nh = (case (draws, nh) of ((d0, d1, d2), (rn, heap)) \<Rightarrow>
     (case cd_enc cd args of
        None \<Rightarrow> Panic ''gob: encode error''
      | Some b \<Rightarrow>
          if rn_done rn then Ret (False, reply, rn, heap)
          else (let req = \<lparr>rq_endname = endname, rq_svcMeth = svcMeth, rq_args = b\<rparr>;
                    rn1 = accept_call req rn
                in case process_start rn1 req d0 of
                     Waiting sn srv rel lng \<Rightarrow>
                       (case heap srv of
                          None \<Rightarrow> Panic ''nil pointer dereference''
                        | Some rs \<Rightarrow> go_bind (Server_dispatch cd rs req) (\<lambda>(rs', rep).
                            let pc = finish_req rn1 req sn srv rel lng rep d1 d2;
                                res = (case pc of Delayed r \<Rightarrow> r | Replied r \<Rightarrow> r | _ \<Rightarrow> no_reply);
                                rn2 = count_reply (Replied res) rn1; heap' = heap(srv \<mapsto> rs')
                            in if rp_ok res then
                                 (case cd_dec cd reply (rp_reply res) of
                                    (v, True) \<Rightarrow> Ret (True, v, rn2, heap')
                                  | (v, False) \<Rightarrow> Fatal ''ClientEnd.Call(): decode reply: %v'')
                               else Ret (False, reply, rn2, heap')))
                   | _ \<Rightarrow> Ret (False, reply, rn1, heap))))"

subsection \<open>The invariant of a request\<close>

definition thread_ok :: "thread \<Rightarrow> bool" where
  "thread_ok t \<longleftrightarrow> th_runs t = (case th_h t of Finished _ \<Rightarrow> 1 | _ \<Rightarrow> 0) \<and>
     (case th_pc t of
        Sent \<Rightarrow> th_h t = NotStarted
      | Refused \<Rightarrow> th_h t = NotStarted
      | Waiting sn srv _ _ \<Rightarrow> th_h t \<noteq> NotStarted
      | Got _ _ _ _ r \<Rightarrow> th_h t = Finished r
      | Delayed r \<Rightarrow> th_h t = Finished r
      | Replied r \<Rightarrow> r = no_reply \<or> th_h t = Finished r)"

text \<open>Servers are at addresses already allocated, and so is every server a request waits for.\<close>

definition pc_server :: "call_pc \<Rightarrow> nat option" where
  "pc_server pc = (case pc of Waiting _ srv _ _ \<Rightarrow> Some srv | Got _ srv _ _ _ \<Rightarrow> Some srv | _ \<Rightarrow> None)"

definition world_ok :: "('s, 'v) world \<Rightarrow> bool" where
  "world_ok w \<longleftrightarrow> (\<forall>t\<in>set (w_calls w). thread_ok t) \<and>
     (\<forall>sn p. lookup_server (w_net w) sn = Some p \<longrightarrow> p < w_fresh w) \<and>
     (\<forall>t\<in>set (w_calls w). \<forall>p. pc_server (th_pc t) = Some p \<longrightarrow> p < w_fresh w) \<and>
     rn_count (w_net w) = word_of_nat (length (filter (\<lambda>t. th_pc t \<noteq> Refused) (w_calls w)))"

lemmas net_op_defs = Cleanup_def Reliable_def LongReordering_def LongDelays_def MakeEnd_def DeleteEnd_def
  AddServer_def DeleteServer_def Connect_def Enable_def accept_call_def

lemma count_reply_frame [simp]:
  "rn_servers (count_reply pc rn) = rn_servers rn" "rn_count (count_reply pc rn) = rn_count rn"
  "rn_enabled (count_reply pc rn) = rn_enabled rn"
  by (auto simp: count_reply_def split: call_pc.split)

lemma lookup_server_cong: "rn_servers rn = rn_servers rn' \<Longrightarrow> lookup_server rn = lookup_server rn'"
  by (simp add: lookup_server_def fun_eq_iff)

lemma process_start_cases:
  "process_start rn req d = Replied no_reply \<or>
   (\<exists>sn srv rel lng. process_start rn req d = Waiting sn srv rel lng \<and> lookup_server rn sn = Some srv)"
  by (auto simp: process_start_def readEndnameInfo_def Let_def split: option.splits)

lemma finish_req_cases:
  "finish_req rn req sn srv rel lng reply d1 d2 = Replied no_reply \<or>
   (\<not> isServerDead rn (rq_endname req) sn srv \<and>
    finish_req rn req sn srv rel lng reply d1 d2 \<in> {Delayed reply, Replied reply})"
  by (auto simp: finish_req_def)

lemma admin_frame:
  assumes "apply_admin a w = Ret w'"
  shows "w_calls w' = w_calls w" "rn_count (w_net w') = rn_count (w_net w)" "w_fresh w \<le> w_fresh w'"
    "lookup_server (w_net w') sn = Some p \<Longrightarrow> lookup_server (w_net w) sn = Some p \<or> p = w_fresh w \<and> w_fresh w < w_fresh w'"
  using assms by (cases a; force simp: net_op_defs go_simps lookup_server_def split: if_splits)+

text \<open>Replacing one request keeps the count of accepted requests, since none becomes refused.\<close>

lemma length_filter_update:
  assumes "i < length xs" "P (xs ! i) = P y"
  shows "length (filter P (xs[i := y])) = length (filter P xs)"
proof -
  have "xs[i := y] = take i xs @ y # drop (Suc i) xs" using assms(1) by (rule upd_conv_take_nth_drop)
  moreover have "length (filter P xs) = length (filter P (take i xs @ xs ! i # drop (Suc i) xs))"
    using id_take_nth_drop[OF assms(1)] by simp
  ultimately show ?thesis using assms(2) by simp
qed

lemma world_ok_set_call:
  assumes "world_ok w" "i < length (w_calls w)" "thread_ok t"
    "\<And>p. pc_server (th_pc t) = Some p \<Longrightarrow> p < w_fresh w"
    "(th_pc (w_calls w ! i) = Refused) = (th_pc t = Refused)"
    "rn_servers rn = rn_servers (w_net w)" "rn_count rn = rn_count (w_net w)"
  shows "world_ok ((set_call w i t)\<lparr>w_net := rn, w_heap := h\<rparr>)"
proof -
  have mem: "x = t \<or> x \<in> set (w_calls w)" if "x \<in> set ((w_calls w)[i := t])" for x
    using that set_update_subset_insert by fast
  have "length (filter (\<lambda>t. th_pc t \<noteq> Refused) ((w_calls w)[i := t])) =
      length (filter (\<lambda>t. th_pc t \<noteq> Refused) (w_calls w))"
    using assms(2,5) by (intro length_filter_update) auto
  moreover note lookup_server_cong[OF assms(6)]
  moreover have "\<forall>x\<in>set ((w_calls w)[i := t]). thread_ok x \<and> (\<forall>p. pc_server (th_pc x) = Some p \<longrightarrow> p < w_fresh w)"
    using mem assms(1,3,4) unfolding world_ok_def by blast
  ultimately show ?thesis using assms(1,7) unfolding world_ok_def by simp
qed

lemma set_call_frame_net: "set_call w i t = (set_call w i t)\<lparr>w_net := w_net w, w_heap := w_heap w\<rparr>"
  by simp

lemma nth_thread_ok:
  "world_ok w \<Longrightarrow> i < length (w_calls w) \<Longrightarrow> w_calls w ! i = t \<Longrightarrow>
     thread_ok t \<and> (\<forall>p. pc_server (th_pc t) = Some p \<longrightarrow> p < w_fresh w)"
  by (auto simp: world_ok_def)

lemma rpc_step_world_ok: "rpc_step cd w w' \<Longrightarrow> world_ok w \<Longrightarrow> world_ok w'"
proof (induction rule: rpc_step.induct)
  case (call w req)
  then show ?case by (auto simp: world_ok_def accept_call_def lookup_server_def thread_ok_def pc_server_def)
next
  case (refuse w req)
  then show ?case by (auto simp: world_ok_def thread_ok_def pc_server_def)
next
  case (start i w t draw pc)
  let ?h = "case pc of Waiting sn srv _ _ \<Rightarrow> Running srv | _ \<Rightarrow> NotStarted"
  have t: "thread_ok t" using nth_thread_ok[OF start.prems start.hyps(1,2)] by blast
  have pc: "pc = Replied no_reply \<or>
      (\<exists>sn srv rel lng. pc = Waiting sn srv rel lng \<and> lookup_server (w_net w) sn = Some srv)"
    using process_start_cases start.hyps(4) by metis
  then have "thread_ok (t\<lparr>th_pc := pc, th_h := ?h\<rparr>)"
    using t start.hyps(3) by (auto simp: thread_ok_def)
  moreover have "p < w_fresh w" if "pc_server pc = Some p" for p
    using pc that start.prems by (auto simp: pc_server_def world_ok_def)
  ultimately show ?case using start pc
    by (subst set_call_frame_net, intro world_ok_set_call) auto
next
  case (handle i w t srv rs rs' reply)
  note t = nth_thread_ok[OF handle.prems handle.hyps(1,2)]
  have "world_ok ((set_call w i (t\<lparr>th_h := Finished reply, th_runs := Suc (th_runs t)\<rparr>))
      \<lparr>w_net := w_net w, w_heap := (w_heap w)(srv \<mapsto> rs')\<rparr>)"
    using t handle.hyps handle.prems
    by (intro world_ok_set_call) (auto simp: thread_ok_def split: call_pc.splits)
  then show ?case by simp
next
  case (receive i w t sn srv rel lng reply)
  note t = nth_thread_ok[OF receive.prems receive.hyps(1,2)]
  then show ?case using receive
    by (subst set_call_frame_net, intro world_ok_set_call) (auto simp: thread_ok_def pc_server_def)
next
  case (give_up i w t sn srv rel lng)
  note t = nth_thread_ok[OF give_up.prems give_up.hyps(1,2)]
  then show ?case using give_up
    by (subst set_call_frame_net, intro world_ok_set_call) (auto simp: thread_ok_def pc_server_def)
next
  case (finish i w t sn srv rel lng reply d1 d2 pc)
  note t = nth_thread_ok[OF finish.prems finish.hyps(1,2)]
  have "world_ok ((set_call w i (t\<lparr>th_pc := pc\<rparr>))\<lparr>w_net := count_reply pc (w_net w), w_heap := w_heap w\<rparr>)"
    using t finish finish_req_cases[of "w_net w" "th_req t" sn srv rel lng reply d1 d2]
    by (intro world_ok_set_call) (auto simp: thread_ok_def pc_server_def)
  then show ?case by simp
next
  case (deliver i w t reply)
  note t = nth_thread_ok[OF deliver.prems deliver.hyps(1,2)]
  have "world_ok ((set_call w i (t\<lparr>th_pc := Replied reply\<rparr>))
      \<lparr>w_net := count_reply (Replied reply) (w_net w), w_heap := w_heap w\<rparr>)"
    using t deliver by (intro world_ok_set_call) (auto simp: thread_ok_def pc_server_def)
  then show ?case by simp
next
  case (admin a w w')
  note fr = admin_frame[OF admin.hyps]
  have "p < w_fresh w'" if "lookup_server (w_net w') sn = Some p" for sn p
    using fr(4)[OF that] fr(3) admin.prems unfolding world_ok_def by (meson less_le_trans)
  moreover have "\<forall>t\<in>set (w_calls w'). \<forall>p. pc_server (th_pc t) = Some p \<longrightarrow> p < w_fresh w'"
    using fr(1,3) admin.prems unfolding world_ok_def by (metis less_le_trans)
  ultimately show ?case using admin.prems fr(1,2) unfolding world_ok_def by simp
qed

lemma rpc_steps_world_ok: "(rpc_step cd)\<^sup>*\<^sup>* w w' \<Longrightarrow> world_ok w \<Longrightarrow> world_ok w'"
  by (induction rule: rtranclp_induct) (auto intro: rpc_step_world_ok)

lemma world_ok_init: "world_ok init_world"
  by (simp add: world_ok_def init_world_def MakeNetwork_def lookup_server_def)

subsection \<open>Requests to a deleted server\<close>

fun waits_for :: "call_pc \<Rightarrow> string \<Rightarrow> nat \<Rightarrow> bool" where
  "waits_for (Waiting sn srv _ _) sn' srv' = (sn = sn' \<and> srv = srv')"
| "waits_for (Got sn srv _ _ _) sn' srv' = (sn = sn' \<and> srv = srv')"
| "waits_for _ _ _ = False"

text \<open>
  A request that waits for a server which is no longer registered under its name is doomed: the
  address will not be registered again, so the only reply it can get is the negative one.
\<close>

definition doomed :: "nat \<Rightarrow> string \<Rightarrow> nat \<Rightarrow> ('s, 'v) world \<Rightarrow> bool" where
  "doomed i sn srv w \<longleftrightarrow> i < length (w_calls w) \<and> srv < w_fresh w \<and> lookup_server (w_net w) sn \<noteq> Some srv \<and>
     (waits_for (th_pc (w_calls w ! i)) sn srv \<or> th_pc (w_calls w ! i) = Replied no_reply)"

lemma finish_dead:
  "lookup_server rn sn \<noteq> Some srv \<Longrightarrow> finish_req rn req sn srv rel lng reply d1 d2 = Replied no_reply"
  by (simp add: finish_req_def isServerDead_def)

lemma doomed_set_call:
  assumes "doomed i sn srv w" "j < length (w_calls w)" "rn_servers rn = rn_servers (w_net w)"
    and "i = j \<Longrightarrow> waits_for (th_pc t) sn srv \<or> th_pc t = Replied no_reply"
  shows "doomed i sn srv ((set_call w j t)\<lparr>w_net := rn, w_heap := h\<rparr>)"
  using assms lookup_server_cong[OF assms(3)] by (cases "i = j") (auto simp: doomed_def)

lemma rpc_step_doomed: "rpc_step cd w w' \<Longrightarrow> doomed i sn srv w \<Longrightarrow> doomed i sn srv w'"
proof (induction rule: rpc_step.induct)
  case (call w req)
  then show ?case by (auto simp: doomed_def accept_call_def lookup_server_def nth_append)
next
  case (refuse w req)
  then show ?case by (auto simp: doomed_def nth_append)
next
  case (start j w t draw pc)
  then show ?case by (subst set_call_frame_net, intro doomed_set_call) (auto simp: doomed_def)
next
  case (handle j w t srv' rs rs' reply)
  then have "doomed i sn srv ((set_call w j (t\<lparr>th_h := Finished reply, th_runs := Suc (th_runs t)\<rparr>))
      \<lparr>w_net := w_net w, w_heap := (w_heap w)(srv' \<mapsto> rs')\<rparr>)"
    by (intro doomed_set_call) (auto simp: doomed_def)
  then show ?case by simp
next
  case (receive j w t sn' srv' rel lng reply)
  then show ?case by (subst set_call_frame_net, intro doomed_set_call) (auto simp: doomed_def)
next
  case (give_up j w t sn' srv' rel lng)
  then show ?case by (subst set_call_frame_net, intro doomed_set_call) (auto simp: doomed_def)
next
  case (finish j w t sn' srv' rel lng reply d1 d2 pc)
  then have "doomed i sn srv ((set_call w j (t\<lparr>th_pc := pc\<rparr>))\<lparr>w_net := count_reply pc (w_net w), w_heap := w_heap w\<rparr>)"
    by (intro doomed_set_call) (auto simp: doomed_def finish_dead)
  then show ?case by simp
next
  case (deliver j w t reply)
  then have "doomed i sn srv ((set_call w j (t\<lparr>th_pc := Replied reply\<rparr>))
      \<lparr>w_net := count_reply (Replied reply) (w_net w), w_heap := w_heap w\<rparr>)"
    by (intro doomed_set_call) (auto simp: doomed_def)
  then show ?case by simp
next
  case (admin a w w')
  note fr = admin_frame[OF admin.hyps]
  from admin.prems fr(1,3) show ?case using fr(4)[of sn srv] by (auto simp: doomed_def)
qed

lemma rpc_steps_doomed: "(rpc_step cd)\<^sup>*\<^sup>* w w' \<Longrightarrow> doomed i sn srv w \<Longrightarrow> doomed i sn srv w'"
  by (induction rule: rtranclp_induct) (auto intro: rpc_step_doomed)

fun apply_admins :: "('s, 'v) admin list \<Rightarrow> ('s, 'v) world \<Rightarrow> ('s, 'v) world go" where
  "apply_admins [] w = Ret w"
| "apply_admins (a # as) w = go_bind (apply_admin a w) (apply_admins as)"

lemma apply_admins_steps: "apply_admins as w = Ret w' \<Longrightarrow> (rpc_step cd)\<^sup>*\<^sup>* w w'"
  by (induction as arbitrary: w)
    (auto simp: go_simps intro: converse_rtranclp_into_rtranclp rpc_step.admin)

subsection \<open>Properties\<close>

text \<open>An example: one server with a counter that a handler increments; byte strings encode themselves.\<close>

definition ex_codec :: "byte list codec" where
  "ex_codec = \<lparr>cd_enc = Some, cd_dec = (\<lambda>_ b. (b, True)), cd_zero = []\<rparr>"

definition ex_methods :: "(int, byte list) rmethod list" where
  "ex_methods =
     [\<lparr>m_Name = ''Inc'', m_PkgPath = [], m_NumIn = 3, m_In2_ptr = True, m_NumOut = 0,
       m_Func = (\<lambda>args n. (n + 1, args @ [7]))\<rparr>,
      \<lparr>m_Name = ''Kill'', m_PkgPath = [], m_NumIn = 1, m_In2_ptr = False, m_NumOut = 0,
       m_Func = (\<lambda>args n. (0, []))\<rparr>]"

definition ex_server :: "(int, byte list) server" where
  "ex_server = AddService (MakeService ''Counter'' ex_methods) (MakeServer 0)"

definition ex_net :: network where
  "ex_net = Enable ''e'' True (Connect ''e'' ''srv'' (AddServer ''srv'' 0 MakeNetwork))"

definition ex_heap :: "nat \<rightharpoonup> (int, byte list) server" where
  "ex_heap = [0 \<mapsto> ex_server]"

definition ex_req :: reqMsg where
  "ex_req = \<lparr>rq_endname = ''e'', rq_svcMeth = ''Counter.Inc'', rq_args = [5]\<rparr>"

lemmas ex_defs = ex_codec_def ex_methods_def ex_server_def ex_net_def ex_heap_def ex_req_def
  MakeService_def MakeServer_def AddService_def net_op_defs MakeNetwork_def

text \<open>
  Property C3: whatever the interleaving of calls, handlers, losses, delays and reconfiguration of
  the network, the handler of a request runs at most once, and a call that returns true returns
  the reply of a handler that has run.
\<close>

theorem handler_runs_at_most_once:
  assumes "rpc_reach cd w" "t \<in> set (w_calls w)"
  shows "th_runs t \<le> 1 \<and>
    (\<forall>r. th_pc t = Replied r \<and> rp_ok r \<longrightarrow> th_runs t = 1 \<and> th_h t = Finished r)"
proof -
  have "thread_ok t" using rpc_steps_world_ok[OF assms(1) world_ok_init] assms(2) by (simp add: world_ok_def)
  then show ?thesis by (auto simp: thread_ok_def no_reply_def split: handler_pc.splits)
qed

theorem handler_runs_at_most_once_witness:
  "\<exists>(w :: (int, byte list) world) t. rpc_reach ex_codec w \<and> t \<in> set (w_calls w) \<and> th_runs t \<le> 1"
proof -
  let ?t = "\<lparr>th_req = ex_req, th_pc = Sent, th_h = NotStarted, th_runs = 0\<rparr>"
  let ?w0 = "init_world :: (int, byte list) world"
  let ?w = "?w0\<lparr>w_net := accept_call ex_req (w_net ?w0), w_calls := w_calls ?w0 @ [?t]\<rparr>"
  have reach: "rpc_reach ex_codec ?w" by (intro r_into_rtranclp rpc_step.call)
  have mem: "?t \<in> set (w_calls ?w)" by simp
  from handler_runs_at_most_once[OF reach mem] reach mem show ?thesis by blast
qed

text \<open>
  Property C2: once a server has been deleted (or replaced) under its name, a request that was
  already waiting for it never gets a positive reply, even if its handler still completes.
\<close>

theorem deleted_server_never_answers:
  assumes "rpc_reach cd w" "i < length (w_calls w)" "waits_for (th_pc (w_calls w ! i)) sn srv"
    and "lookup_server (w_net w) sn \<noteq> Some srv" and "(rpc_step cd)\<^sup>*\<^sup>* w w'"
  shows "\<not> (\<exists>r. rp_ok r \<and> th_pc (w_calls w' ! i) \<in> {Replied r, Delayed r})"
proof -
  have "world_ok w" by (rule rpc_steps_world_ok[OF assms(1) world_ok_init])
  moreover have "pc_server (th_pc (w_calls w ! i)) = Some srv"
    using assms(3) by (cases "th_pc (w_calls w ! i)") (auto simp: pc_server_def)
  ultimately have "srv < w_fresh w" using nth_thread_ok[OF _ assms(2) refl] by blast
  with assms have "doomed i sn srv w" by (simp add: doomed_def)
  from rpc_steps_doomed[OF assms(5) this] show ?thesis by (auto simp: doomed_def no_reply_def)
qed

theorem deleted_server_never_answers_witness:
  "\<exists>w :: (int, byte list) world. rpc_reach ex_codec w \<and> waits_for (th_pc (w_calls w ! 0)) ''srv'' 0 \<and>
     {w'. (rpc_step ex_codec)\<^sup>*\<^sup>* w w' \<and> (\<exists>r. rp_ok r \<and> th_pc (w_calls w' ! 0) \<in> {Replied r, Delayed r})} = {}"
proof -
  let ?c = ex_codec
  obtain w1 where w1: "apply_admins [AAddServer ''srv'' ex_server, AMakeEnd ''e'', AConnect ''e'' ''srv'', AEnable ''e'' True]
      (init_world :: (int, byte list) world) = Ret w1" and net1: "w_calls w1 = []" "w_fresh w1 = 1"
      "is_enabled (w_net w1) ''e''" "rn_connections (w_net w1) ''e'' = Some (Some ''srv'')"
      "lookup_server (w_net w1) ''srv'' = Some 0" "rn_reliable (w_net w1)"
    by (simp add: init_world_def ex_defs is_enabled_def lookup_server_def)
  let ?t = "\<lparr>th_req = ex_req, th_pc = Sent, th_h = NotStarted, th_runs = 0\<rparr>"
  let ?w2 = "w1\<lparr>w_net := accept_call ex_req (w_net w1), w_calls := w_calls w1 @ [?t]\<rparr>"
  have s2: "rpc_step ?c w1 ?w2" by (rule rpc_step.call)
  obtain lng where ps: "process_start (w_net ?w2) ex_req 0 = Waiting ''srv'' 0 True lng"
    using net1 by (auto simp: process_start_def readEndnameInfo_def accept_call_def ex_req_def is_enabled_def lookup_server_def)
  let ?w3 = "set_call ?w2 0 (?t\<lparr>th_pc := Waiting ''srv'' 0 True lng, th_h := Running 0\<rparr>)"
  have s3: "rpc_step ?c ?w2 ?w3" using rpc_step.start[of 0 ?w2 ?t 0 _ ?c] ps net1(1) by simp
  let ?w4 = "?w3\<lparr>w_net := DeleteServer ''srv'' (w_net ?w3)\<rparr>"
  have s4: "rpc_step ?c ?w3 ?w4" by (rule rpc_step.admin[of "ADeleteServer ''srv''"]) simp
  have reach: "rpc_reach ?c ?w4"
    using apply_admins_steps[OF w1, of ?c] s2 s3 s4 by (meson rtranclp.rtrancl_into_rtrancl)
  have wf: "0 < length (w_calls ?w4)" "waits_for (th_pc (w_calls ?w4 ! 0)) ''srv'' 0"
    "lookup_server (w_net ?w4) ''srv'' \<noteq> Some 0"
    using net1 by (auto simp: DeleteServer_def lookup_server_def)
  from deleted_server_never_answers[OF reach wf] reach wf(2) show ?thesis by blast
qed

text \<open>
  \<^verbatim>\<open>Server.dispatch\<close> splits the method name at its last dot: \<^verbatim>\<open>Svc.Meth\<close> runs the handler
  \<^verbatim>\<open>Meth\<close> of the service registered as \<^verbatim>\<open>Svc\<close> on the decoded arguments, stores the state the
  handler leaves, answers with the encoded reply and counts the request; a name without a dot
  makes it panic.
\<close>

lemma dispatch_splits_at_last_dot:
  assumes "CHR ''.'' \<notin> set meth" "map_of (sv_services rs) svc = Some sv" "map_of (svc_methods sv) meth = Some f"
    and "f (fst (cd_dec cd (cd_zero cd) (rq_args req))) (sv_state rs) = (st', v)" "cd_enc cd v = Some b"
  shows "Server_dispatch cd rs (req\<lparr>rq_svcMeth := svc @ ''.'' @ meth\<rparr>) =
      Ret (rs\<lparr>sv_count := sv_count rs + 1, sv_state := st'\<rparr>, \<lparr>rp_ok = True, rp_reply = b\<rparr>) \<and>
    Server_dispatch cd rs (req\<lparr>rq_svcMeth := meth\<rparr>) = Panic ''slice bounds out of range''"
  using assms last_index_append[OF assms(1), of svc] last_index_none[OF assms(1)]
  by (simp add: Server_dispatch_def Service_dispatch_def nat_add_distrib)

lemma Call_alone_reliable:
  assumes "rn_reliable rn" "\<not> rn_longReordering rn" "\<not> rn_done rn" "is_enabled rn endname"
    "rn_connections rn endname = Some (Some sn)" "lookup_server rn sn = Some srv" "heap srv = Some rs"
    "cd_enc cd args = Some b"
    "Server_dispatch cd rs \<lparr>rq_endname = endname, rq_svcMeth = m, rq_args = b\<rparr> = Ret (rs', \<lparr>rp_ok = True, rp_reply = rb\<rparr>)"
    "cd_dec cd reply rb = (v, True)"
  shows "\<exists>rn'. Call_alone cd draws endname m args reply (rn, heap) = Ret (True, v, rn', heap(srv \<mapsto> rs')) \<and>
    rn_count rn' = rn_count rn + 1"
proof -
  obtain d0 d1 d2 where d: "draws = (d0, d1, d2)" by (cases draws)
  let ?req = "\<lparr>rq_endname = endname, rq_svcMeth = m, rq_args = b\<rparr>"
  let ?rn = "accept_call ?req rn"
  have fr: "is_enabled ?rn = is_enabled rn" "lookup_server ?rn = lookup_server rn"
    "rn_connections ?rn = rn_connections rn" "rn_reliable ?rn = rn_reliable rn"
    "rn_longReordering ?rn = rn_longReordering rn" "rn_count ?rn = rn_count rn + 1"
    by (simp_all add: accept_call_def is_enabled_def lookup_server_def fun_eq_iff)
  have "process_start ?rn ?req d0 = Waiting sn srv True False"
    using assms by (simp add: process_start_def readEndnameInfo_def fr)
  moreover have "finish_req ?rn ?req sn srv True False r d1 d2 = Replied r" for r
    using assms by (simp add: finish_req_def isServerDead_def fr)
  ultimately show ?thesis using assms d fr(6) by (simp add: Call_alone_def Let_def)
qed

text \<open>
  Property C27: on a reliable network without long reordering, a call over an enabled connection to a
  live server returns true, whatever the random draws; the caller's variable then holds what the
  handler answered, the handler saw what the caller sent, and the server keeps the state the
  handler left. The codec is only assumed to decode what it encoded.
\<close>

theorem reliable_call_returns_handler_result:
  assumes "\<And>v b. cd_enc cd v = Some b \<Longrightarrow> cd_dec cd (cd_zero cd) b = (v, True)"
    and "rn_reliable rn" "\<not> rn_longReordering rn" "\<not> rn_done rn" "is_enabled rn endname"
    and "rn_connections rn endname = Some (Some sn)" "lookup_server rn sn = Some srv" "heap srv = Some rs"
    and "CHR ''.'' \<notin> set meth" "map_of (sv_services rs) svc = Some sv" "map_of (svc_methods sv) meth = Some f"
    and "cd_enc cd args = Some b" "f args (sv_state rs) = (st', v)" "cd_enc cd v = Some rb"
  shows "\<exists>rn'. Call_alone cd draws endname (svc @ ''.'' @ meth) args (cd_zero cd) (rn, heap) =
    Ret (True, v, rn', heap(srv \<mapsto> rs\<lparr>sv_count := sv_count rs + 1, sv_state := st'\<rparr>))"
proof -
  have "Server_dispatch cd rs \<lparr>rq_endname = endname, rq_svcMeth = svc @ ''.'' @ meth, rq_args = b\<rparr> =
      Ret (rs\<lparr>sv_count := sv_count rs + 1, sv_state := st'\<rparr>, \<lparr>rp_ok = True, rp_reply = rb\<rparr>)"
    using assms last_index_append[OF assms(9), of svc]
    by (simp add: Server_dispatch_def Service_dispatch_def nat_add_distrib)
  from Call_alone_reliable[where heap = heap, OF assms(2-8,12) this] assms(1,14) show ?thesis by blast
qed

theorem reliable_call_returns_handler_result_witness:
  "\<exists>rn'. Call_alone ex_codec (0, 50, 3) ''e'' ''Counter.Inc'' [5] [] (ex_net, ex_heap) =
     Ret (True, [5, 7], rn', ex_heap(0 \<mapsto> ex_server\<lparr>sv_count := 1, sv_state := 1\<rparr>))"
  using reliable_call_returns_handler_result[of ex_codec ex_net "''e''" "''srv''" 0 ex_heap ex_server "''Inc''"
      "''Counter''" "MakeService ''Counter'' ex_methods" "\<lambda>args n. (n + 1, args @ [7])" "[5]" "[5]" 1 "[5, 7]" "[5, 7]" "(0, 50, 3)"]
  by (simp add: ex_defs is_enabled_def lookup_server_def)

lemma Call_alone_unreachable:
  assumes "\<not> is_enabled rn endname \<or> rn_connections rn endname \<in> {None, Some None} \<or>
      (\<exists>sn. rn_connections rn endname = Some (Some sn) \<and> lookup_server rn sn = None)"
    and "cd_enc cd args = Some b" "\<not> rn_done rn"
  shows "Call_alone cd draws endname m args reply (rn, heap) =
    Ret (False, reply, accept_call \<lparr>rq_endname = endname, rq_svcMeth = m, rq_args = b\<rparr> rn, heap)"
proof -
  obtain d0 d1 d2 where d: "draws = (d0, d1, d2)" by (cases draws)
  let ?req = "\<lparr>rq_endname = endname, rq_svcMeth = m, rq_args = b\<rparr>"
  have "process_start (accept_call ?req rn) ?req d0 = Replied no_reply"
    using assms(1) by (auto simp: process_start_def readEndnameInfo_def accept_call_def is_enabled_def
        lookup_server_def Let_def split: option.splits)
  with assms(2,3) d show ?thesis by (simp add: Call_alone_def Let_def)
qed

text \<open>
  When the end is disabled, not connected, or its server is gone, a call returns false,
  leaves the caller's variable as it was and touches no server; only the request is counted.
\<close>

lemma unreachable_call_has_no_effect:
  assumes "\<not> is_enabled rn endname \<or> rn_connections rn endname \<in> {None, Some None} \<or>
      (\<exists>sn. rn_connections rn endname = Some (Some sn) \<and> lookup_server rn sn = None)"
    and "cd_enc cd args = Some b" "\<not> rn_done rn"
  shows "\<exists>rn'. Call_alone cd draws endname m args reply (rn, heap) = Ret (False, reply, rn', heap) \<and>
    rn_count rn' = rn_count rn + 1"
  using Call_alone_unreachable[where cd = cd and draws = draws and m = m and reply = reply and heap = heap, OF assms]
  by (simp add: accept_call_def)

text \<open>
  Property C28: on an unreliable network a false return does not tell whether the request was executed:
  for the same call there are draws for which the request is lost before the server sees it, and
  draws for which the handler runs and only its reply is lost. In both cases the caller's
  variable is unchanged.
\<close>

theorem lost_reply_is_ambiguous:
  assumes "\<not> rn_reliable rn" "\<not> rn_done rn" "is_enabled rn endname"
    and "rn_connections rn endname = Some (Some sn)" "lookup_server rn sn = Some srv" "heap srv = Some rs"
    and "cd_enc cd args = Some b"
    and "Server_dispatch cd rs \<lparr>rq_endname = endname, rq_svcMeth = m, rq_args = b\<rparr> = Ret (rs', r)"
  shows "(\<exists>draws rn'. Call_alone cd draws endname m args reply (rn, heap) = Ret (False, reply, rn', heap)) \<and>
    (\<exists>draws rn'. Call_alone cd draws endname m args reply (rn, heap) = Ret (False, reply, rn', heap(srv \<mapsto> rs')))"
proof -
  let ?req = "\<lparr>rq_endname = endname, rq_svcMeth = m, rq_args = b\<rparr>"
  let ?rn = "accept_call ?req rn"
  have fr: "is_enabled ?rn = is_enabled rn" "lookup_server ?rn = lookup_server rn"
    "rn_connections ?rn = rn_connections rn" "rn_reliable ?rn = rn_reliable rn"
    by (simp_all add: accept_call_def is_enabled_def lookup_server_def fun_eq_iff)
  have "process_start ?rn ?req 0 = Replied no_reply"
    using assms by (simp add: process_start_def readEndnameInfo_def fr)
  then have "Call_alone cd (0, 0, 0) endname m args reply (rn, heap) = Ret (False, reply, ?rn, heap)"
    using assms by (simp add: Call_alone_def Let_def)
  moreover have "process_start ?rn ?req 500 = Waiting sn srv False (rn_longReordering ?rn)"
    using assms by (simp add: process_start_def readEndnameInfo_def fr)
  moreover have "finish_req ?rn ?req sn srv False lng r 0 0 = Replied no_reply" for lng
    using assms by (simp add: finish_req_def)
  ultimately have "Call_alone cd (500, 0, 0) endname m args reply (rn, heap) = Ret (False, reply, ?rn, heap(srv \<mapsto> rs'))"
    using assms by (simp add: Call_alone_def Let_def no_reply_def count_reply_def)
  with \<open>Call_alone cd (0, 0, 0) _ _ _ _ _ = _\<close> show ?thesis by blast
qed

theorem lost_reply_is_ambiguous_witness:
  "let rn = Reliable False ex_net in
   (\<exists>draws rn'. Call_alone ex_codec draws ''e'' ''Counter.Inc'' [5] [] (rn, ex_heap) = Ret (False, [], rn', ex_heap)) \<and>
   (\<exists>draws rn'. Call_alone ex_codec draws ''e'' ''Counter.Inc'' [5] [] (rn, ex_heap) =
      Ret (False, [], rn', ex_heap(0 \<mapsto> ex_server\<lparr>sv_count := 1, sv_state := 1\<rparr>)))"
proof -
  have "Server_dispatch ex_codec ex_server ex_req =
      Ret (ex_server\<lparr>sv_count := 1, sv_state := 1\<rparr>, \<lparr>rp_ok = True, rp_reply = [5, 7]\<rparr>)"
    by (simp add: ex_defs Server_dispatch_def Service_dispatch_def last_index_def numeral_eq_Suc)
  then show ?thesis
    using lost_reply_is_ambiguous[of "Reliable False ex_net" "''e''" "''srv''" 0 ex_heap ex_server ex_codec "[5]" "[5]"
        "''Counter.Inc''" "ex_server\<lparr>sv_count := 1, sv_state := 1\<rparr>" "\<lparr>rp_ok = True, rp_reply = [5, 7]\<rparr>" "[]"]
    by (simp add: ex_defs is_enabled_def lookup_server_def Let_def)
qed

end
