(* ===== verification/Tester_Group.thy ===== *)
theory Tester_Group
  imports Lab_Rpc
begin

text \<open>
  The server side of the test framework: persisters (\<^verbatim>\<open>tester1/persister.go\<close>), servers
  (\<^verbatim>\<open>tester1/srv.go\<close>) and groups of servers (\<^verbatim>\<open>tester1/group.go\<close>). Objects that the code shares
  through pointers live in the state \<open>tstate\<close>: the network, the RPC servers, the persisters (an old
  instance of a server may keep a pointer to its persister) and the services that have been told
  to stop. \<^verbatim>\<open>Randstring\<close> draws names: the stream of draws is a parameter. How groups connect,
  disconnect and partition servers is proved against an interface of connections and links, which
  the group operations implement.
\<close>

subsection \<open>Persisters\<close>

text \<open>A byte slice may be nil.\<close>

record persister =
  ps_raftstate :: "byte list option"
  ps_snapshot :: "byte list option"

definition bytes_of :: "byte list option \<Rightarrow> byte list" where
  "bytes_of b = (case b of None \<Rightarrow> [] | Some xs \<Rightarrow> xs)"

definition MakePersister :: persister where
  "MakePersister = \<lparr>ps_raftstate = None, ps_snapshot = None\<rparr>"

definition clone :: "byte list option \<Rightarrow> byte list option" where
  "clone orig = Some (bytes_of orig)"

definition Persister_Copy :: "persister \<Rightarrow> persister" where
  "Persister_Copy ps = MakePersister\<lparr>ps_raftstate := ps_raftstate ps, ps_snapshot := ps_snapshot ps\<rparr>"

definition ReadRaftState :: "persister \<Rightarrow> byte list option" where
  "ReadRaftState ps = clone (ps_raftstate ps)"

definition RaftStateSize :: "persister \<Rightarrow> nat" where
  "RaftStateSize ps = length (bytes_of (ps_raftstate ps))"

definition Save :: "byte list option \<Rightarrow> byte list option \<Rightarrow> persister \<Rightarrow> persister" where
  "Save raftstate snapshot ps = ps\<lparr>ps_raftstate := clone raftstate, ps_snapshot := clone snapshot\<rparr>"

definition ReadSnapshot :: "persister \<Rightarrow> byte list option" where
  "ReadSnapshot ps = clone (ps_snapshot ps)"

definition SnapshotSize :: "persister \<Rightarrow> nat" where
  "SnapshotSize ps = length (bytes_of (ps_snapshot ps))"

subsection \<open>State\<close>

record ('s, 'v) tstate =
  t_net :: network
  t_heap :: "nat \<rightharpoonup> ('s, 'v) server"
  t_pers :: "nat \<rightharpoonup> persister"
  t_fresh :: nat
  t_draws :: nat
  t_killed :: "nat list"

text \<open>
  A service object: its identity, what \<^verbatim>\<open>MakeService\<close> reads of its type, and its methods. The start
  function of a group is the lab's code and a parameter: from the ends, the group, the index and the
  persister (its address and what it holds) it makes the services of a server and the state they
  serve, and it may write the persister. It returns no nil service: \<^verbatim>\<open>MakeService\<close> would panic.
\<close>

record ('s, 'v) iservice =
  is_obj :: nat
  is_type :: string
  is_methods :: "('s, 'v) rmethod list"

type_synonym ('s, 'v) fstart =
  "string list \<Rightarrow> tgid \<Rightarrow> nat \<Rightarrow> nat \<Rightarrow> persister \<Rightarrow> ('s, 'v) iservice list \<times> 's \<times> persister"

definition ServerName :: "tgid \<Rightarrow> int \<Rightarrow> string" where
  "ServerName gid i = ''server-'' @ itoa gid @ ''-'' @ itoa i"

definition enable_end :: "string \<Rightarrow> bool \<Rightarrow> ('s, 'v) tstate \<Rightarrow> ('s, 'v) tstate" where
  "enable_end e b st = st\<lparr>t_net := Enable e b (t_net st)\<rparr>"

subsection \<open>Servers\<close>

record ('s, 'v) tsrv =
  sr_saved :: "nat option"
  sr_svcs :: "('s, 'v) iservice list option"
  sr_endNames :: "string list option"
  sr_clntEnds :: "string list"

fun make_ends :: "(nat \<Rightarrow> string) \<Rightarrow> tgid \<Rightarrow> nat \<Rightarrow> nat \<Rightarrow> ('s, 'v) tstate \<Rightarrow> (string list \<times> ('s, 'v) tstate) go" where
  "make_ends rand gid j 0 st = Ret ([], st)"
| "make_ends rand gid j (Suc k) st =
     (let name = rand (t_draws st) in
      go_bind (MakeEnd name (t_net st)) (\<lambda>(_, net).
        go_bind (make_ends rand gid (Suc j) k
            (st\<lparr>t_net := Connect name (ServerName gid (int j)) net, t_draws := Suc (t_draws st)\<rparr>))
          (\<lambda>(names, st'). Ret (name # names, st'))))"

definition makeServer :: "(nat \<Rightarrow> string) \<Rightarrow> tgid \<Rightarrow> nat \<Rightarrow> ('s, 'v) tstate \<Rightarrow> (('s, 'v) tsrv \<times> ('s, 'v) tstate) go" where
  "makeServer rand gid nsrv st = go_bind (make_ends rand gid 0 nsrv st) (\<lambda>(names, st').
     Ret (\<lparr>sr_saved = None, sr_svcs = None, sr_endNames = Some names, sr_clntEnds = names\<rparr>, st'))"

definition new_persister :: "persister \<Rightarrow> ('s, 'v) tstate \<Rightarrow> nat \<times> ('s, 'v) tstate" where
  "new_persister ps st = (t_fresh st, st\<lparr>t_pers := (t_pers st)(t_fresh st \<mapsto> ps), t_fresh := Suc (t_fresh st)\<rparr>)"

definition copy_persister :: "nat option \<Rightarrow> ('s, 'v) tstate \<Rightarrow> nat \<times> ('s, 'v) tstate" where
  "copy_persister saved st = new_persister (case saved of
     None \<Rightarrow> MakePersister
   | Some a \<Rightarrow> (case t_pers st a of None \<Rightarrow> MakePersister | Some ps \<Rightarrow> Persister_Copy ps)) st"

definition startServer :: "(nat \<Rightarrow> string) \<Rightarrow> tgid \<Rightarrow> ('s, 'v) tsrv \<Rightarrow> ('s, 'v) tstate \<Rightarrow> (('s, 'v) tsrv \<times> ('s, 'v) tstate) go" where
  "startServer rand gid s st =
     go_bind (makeServer rand gid (length (case sr_endNames s of None \<Rightarrow> [] | Some ns \<Rightarrow> ns)) st) (\<lambda>(srv, st').
       case copy_persister (sr_saved s) st' of (a, st'') \<Rightarrow> Ret (srv\<lparr>sr_saved := Some a\<rparr>, st''))"

definition end_names :: "('s, 'v) tsrv \<Rightarrow> string list" where
  "end_names s = (case sr_endNames s of None \<Rightarrow> [] | Some ns \<Rightarrow> ns)"

definition srv_connect :: "bool list \<Rightarrow> ('s, 'v) tsrv \<Rightarrow> nat list \<Rightarrow> ('s, 'v) tstate \<Rightarrow> ('s, 'v) tstate go" where
  "srv_connect connected s to = fold_go (\<lambda>j st. go_bind (go_nth connected j) (\<lambda>c.
     if c then go_bind (go_nth (end_names s) j) (\<lambda>e. Ret (enable_end e True st)) else Ret st)) to"

definition srv_disconnect :: "('s, 'v) tsrv \<Rightarrow> nat list \<Rightarrow> ('s, 'v) tstate \<Rightarrow> ('s, 'v) tstate go" where
  "srv_disconnect s from st = (case sr_endNames s of
     None \<Rightarrow> Ret st
   | Some ns \<Rightarrow> fold_go (\<lambda>j st. go_bind (go_nth ns j) (\<lambda>e. Ret (enable_end e False st))) from st)"

definition kill_all :: "('s, 'v) iservice list \<Rightarrow> ('s, 'v) tstate \<Rightarrow> ('s, 'v) tstate" where
  "kill_all svcs st = st\<lparr>t_killed := t_killed st @ map is_obj svcs\<rparr>"

definition shutdownServer :: "('s, 'v) tsrv \<Rightarrow> ('s, 'v) tstate \<Rightarrow> ('s, 'v) tsrv \<times> ('s, 'v) tstate" where
  "shutdownServer s st =
     (let (saved', st1) = (case sr_saved s of
            None \<Rightarrow> (None, st)
          | Some a \<Rightarrow> (case copy_persister (Some a) st of (a', st') \<Rightarrow> (Some a', st')));
          st2 = (case sr_svcs s of None \<Rightarrow> st1 | Some svcs \<Rightarrow> kill_all svcs st1)
      in (s\<lparr>sr_saved := saved', sr_svcs := None\<rparr>, st2))"

subsection \<open>Groups\<close>

record ('s, 'v) server_grp =
  sg_srvs :: "('s, 'v) tsrv list"
  sg_servernames :: "string list"
  sg_gid :: tgid
  sg_connected :: "bool list"
  sg_mks :: "('s, 'v) fstart"

text \<open>A group together with the shared state; the group operations map one to the next.\<close>

type_synonym ('s, 'v) gs = "('s, 'v) server_grp \<times> ('s, 'v) tstate"

fun make_servers :: "(nat \<Rightarrow> string) \<Rightarrow> tgid \<Rightarrow> nat \<Rightarrow> nat \<Rightarrow> ('s, 'v) tstate \<Rightarrow> (('s, 'v) tsrv list \<times> ('s, 'v) tstate) go" where
  "make_servers rand gid n 0 st = Ret ([], st)"
| "make_servers rand gid n (Suc k) st = go_bind (makeServer rand gid n st) (\<lambda>(s, st1).
     go_bind (make_servers rand gid n k st1) (\<lambda>(ss, st2). Ret (s # ss, st2)))"

definition makeSrvGrp :: "(nat \<Rightarrow> string) \<Rightarrow> tgid \<Rightarrow> nat \<Rightarrow> ('s, 'v) fstart \<Rightarrow> ('s, 'v) tstate \<Rightarrow> ('s, 'v) gs go" where
  "makeSrvGrp rand gid n mks st = go_bind (make_servers rand gid n n st) (\<lambda>(srvs, st').
     Ret (\<lparr>sg_srvs = srvs, sg_servernames = map (\<lambda>i. ServerName gid (int i)) [0..<n], sg_gid = gid,
       sg_connected = replicate n False, sg_mks = mks\<rparr>, st'))"

definition grp_N :: "('s, 'v) server_grp \<Rightarrow> nat" where
  "grp_N sg = length (sg_srvs sg)"

definition SrvNames :: "('s, 'v) server_grp \<Rightarrow> string list" where
  "SrvNames sg = sg_servernames sg"

definition SrvName :: "('s, 'v) server_grp \<Rightarrow> nat \<Rightarrow> string go" where
  "SrvName sg i = go_nth (sg_servernames sg) i"

definition Services :: "('s, 'v) server_grp \<Rightarrow> ('s, 'v) iservice list option list" where
  "Services sg = map sr_svcs (sg_srvs sg)"

definition SrvNamesTo :: "nat list \<Rightarrow> ('s, 'v) server_grp \<Rightarrow> string list go" where
  "SrvNamesTo to sg = fold_go (\<lambda>i ns. go_bind (go_nth (sg_servernames sg) i) (\<lambda>n. Ret (ns @ [n]))) to []"

definition grp_all :: "('s, 'v) server_grp \<Rightarrow> nat list" where
  "grp_all sg = [0..<length (sg_srvs sg)]"

definition IsConnected :: "('s, 'v) server_grp \<Rightarrow> nat \<Rightarrow> bool go" where
  "IsConnected sg i = go_nth (sg_connected sg) i"

definition set_connected :: "nat \<Rightarrow> bool \<Rightarrow> ('s, 'v) server_grp \<Rightarrow> ('s, 'v) server_grp go" where
  "set_connected i b sg = (if i < length (sg_connected sg) then Ret (sg\<lparr>sg_connected := (sg_connected sg)[i := b]\<rparr>)
     else Panic ''index out of range'')"

definition grp_connect :: "nat \<Rightarrow> nat list \<Rightarrow> ('s, 'v) gs \<Rightarrow> ('s, 'v) gs go" where
  "grp_connect i to g = (case g of (sg0, st) \<Rightarrow>
     go_bind (set_connected i True sg0) (\<lambda>sg.
     go_bind (go_nth (sg_srvs sg) i) (\<lambda>s.
     go_bind (srv_connect (sg_connected sg) s to st) (\<lambda>st1.
     go_bind (fold_go (\<lambda>j st. go_bind (IsConnected sg j) (\<lambda>c.
         if c then go_bind (go_nth (sg_srvs sg) j) (\<lambda>sj.
           go_bind (go_nth (end_names sj) i) (\<lambda>e. Ret (enable_end e True st)))
         else Ret st)) to st1) (\<lambda>st2. Ret (sg, st2))))))"

definition grp_disconnect :: "nat \<Rightarrow> nat list \<Rightarrow> ('s, 'v) gs \<Rightarrow> ('s, 'v) gs go" where
  "grp_disconnect i from g = (case g of (sg0, st) \<Rightarrow>
     go_bind (set_connected i False sg0) (\<lambda>sg.
     go_bind (go_nth (sg_srvs sg) i) (\<lambda>s.
     go_bind (srv_disconnect s from st) (\<lambda>st1.
     go_bind (fold_go (\<lambda>j st. go_bind (go_nth (sg_srvs sg) j) (\<lambda>sj.
         case sr_endNames sj of
           None \<Rightarrow> Ret st
         | Some ns \<Rightarrow> go_bind (go_nth ns i) (\<lambda>e. Ret (enable_end e False st)))) from st1) (\<lambda>st2. Ret (sg, st2))))))"

definition ConnectOne :: "nat \<Rightarrow> ('s, 'v) gs \<Rightarrow> ('s, 'v) gs go" where
  "ConnectOne i g = grp_connect i (grp_all (fst g)) g"

definition ConnectAll :: "('s, 'v) gs \<Rightarrow> ('s, 'v) gs go" where
  "ConnectAll g = fold_go ConnectOne [0..<length (sg_srvs (fst g))] g"

definition DisconnectAll :: "nat \<Rightarrow> ('s, 'v) gs \<Rightarrow> ('s, 'v) gs go" where
  "DisconnectAll i g = grp_disconnect i (grp_all (fst g)) g"

definition GetConnected :: "('s, 'v) server_grp \<Rightarrow> bool list" where
  "GetConnected sg = sg_connected sg"

fun max_size :: "(persister \<Rightarrow> nat) \<Rightarrow> (nat \<rightharpoonup> persister) \<Rightarrow> ('s, 'v) tsrv list \<Rightarrow> nat \<Rightarrow> nat go" where
  "max_size sz pers [] m = Ret m"
| "max_size sz pers (s # ss) m = (case sr_saved s of
     None \<Rightarrow> Panic ''nil pointer dereference''
   | Some a \<Rightarrow> (case pers a of
        None \<Rightarrow> Panic ''nil pointer dereference''
      | Some ps \<Rightarrow> max_size sz pers ss (if sz ps > m then sz ps else m)))"

definition LogSize :: "('s, 'v) gs \<Rightarrow> nat go" where
  "LogSize g = max_size RaftStateSize (t_pers (snd g)) (sg_srvs (fst g)) 0"

definition grp_SnapshotSize :: "('s, 'v) gs \<Rightarrow> nat go" where
  "grp_SnapshotSize g = max_size SnapshotSize (t_pers (snd g)) (sg_srvs (fst g)) 0"

fun add_services :: "('s, 'v) iservice list \<Rightarrow> ('s, 'v) server \<Rightarrow> ('s, 'v) server" where
  "add_services [] rs = rs"
| "add_services (svc # svcs) rs = add_services svcs (AddService (MakeService (is_type svc) (is_methods svc)) rs)"

definition StartServer :: "(nat \<Rightarrow> string) \<Rightarrow> nat \<Rightarrow> ('s, 'v) gs \<Rightarrow> ('s, 'v) gs go" where
  "StartServer rand i g = (case g of (sg, st) \<Rightarrow>
     go_bind (go_nth (sg_srvs sg) i) (\<lambda>s.
     go_bind (startServer rand (sg_gid sg) s st) (\<lambda>(srv, st1).
       let p = the (sr_saved srv); (svcs, state, ps) = sg_mks sg (sr_clntEnds srv) (sg_gid sg) i p (the (t_pers st1 p));
           labsrv = add_services svcs (MakeServer state); a = t_fresh st1
       in Ret (sg\<lparr>sg_srvs := (sg_srvs sg)[i := srv\<lparr>sr_svcs := Some svcs\<rparr>]\<rparr>,
            st1\<lparr>t_pers := (t_pers st1)(p \<mapsto> ps), t_heap := (t_heap st1)(a \<mapsto> labsrv), t_fresh := Suc a,
              t_net := AddServer (ServerName (sg_gid sg) (int i)) a (t_net st1)\<rparr>))))"

definition grp_start :: "(nat \<Rightarrow> string) \<Rightarrow> ('s, 'v) gs \<Rightarrow> ('s, 'v) gs go" where
  "grp_start rand g = fold_go (StartServer rand) [0..<length (sg_srvs (fst g))] g"

definition StartServers :: "(nat \<Rightarrow> string) \<Rightarrow> ('s, 'v) gs \<Rightarrow> ('s, 'v) gs go" where
  "StartServers rand g = go_bind (grp_start rand g) ConnectAll"

definition ShutdownServer :: "nat \<Rightarrow> ('s, 'v) gs \<Rightarrow> ('s, 'v) gs go" where
  "ShutdownServer i g = go_bind (grp_disconnect i (grp_all (fst g)) g) (\<lambda>(sg, st).
     go_bind (go_nth (sg_srvs sg) i) (\<lambda>s.
       case shutdownServer s (st\<lparr>t_net := DeleteServer (ServerName (sg_gid sg) (int i)) (t_net st)\<rparr>) of
         (s', st') \<Rightarrow> Ret (sg\<lparr>sg_srvs := (sg_srvs sg)[i := s']\<rparr>, st')))"

definition Shutdown :: "('s, 'v) gs \<Rightarrow> ('s, 'v) gs go" where
  "Shutdown g = fold_go ShutdownServer [0..<length (sg_srvs (fst g))] g"

fun grp_cleanup :: "('s, 'v) tsrv list \<Rightarrow> ('s, 'v) tstate \<Rightarrow> ('s, 'v) tstate" where
  "grp_cleanup [] st = st"
| "grp_cleanup (s # ss) st = grp_cleanup ss (case sr_svcs s of None \<Rightarrow> st | Some svcs \<Rightarrow> kill_all svcs st)"

fun make_partition_loop :: "nat \<Rightarrow> nat list \<Rightarrow> nat \<Rightarrow> nat list \<Rightarrow> nat list \<Rightarrow> (nat list \<times> nat list) go" where
  "make_partition_loop l [] j p1 p2 = Ret (p1, p2)"
| "make_partition_loop l (i # is) j p1 p2 =
     (if i \<noteq> l then
        (if j < length p1 then make_partition_loop l is (Suc j) (p1[j := i]) p2
         else if j - length p1 < length p2 then make_partition_loop l is (Suc j) p1 (p2[j - length p1 := i])
         else Panic ''index out of range'')
      else make_partition_loop l is j p1 p2)"

definition MakePartition :: "nat \<Rightarrow> ('s, 'v) server_grp \<Rightarrow> (nat list \<times> nat list) go" where
  "MakePartition l sg = (let n = length (sg_srvs sg) in
     go_bind (make_partition_loop l [0..<n] 0 (replicate (n div 2 + 1) 0) (replicate (n div 2) 0)) (\<lambda>(p1, p2).
       if p2 = [] then Panic ''index out of range'' else Ret (p1, p2[length p2 - 1 := l])))"

definition grp_Partition :: "nat list \<Rightarrow> nat list \<Rightarrow> ('s, 'v) gs \<Rightarrow> ('s, 'v) gs go" where
  "grp_Partition p1 p2 g =
     go_bind (fold_go (\<lambda>i g. go_bind (grp_disconnect i p2 g) (grp_connect i p1)) p1 g)
       (fold_go (\<lambda>i g. go_bind (grp_disconnect i p1 g) (grp_connect i p2)) p2)"

subsection \<open>All groups of a test\<close>

type_synonym ('s, 'v) groups = "(tgid, ('s, 'v) server_grp) gomap"

definition newGroups :: "('s, 'v) groups" where
  "newGroups = []"

definition MakeGroup :: "(nat \<Rightarrow> string) \<Rightarrow> tgid \<Rightarrow> nat \<Rightarrow> ('s, 'v) fstart \<Rightarrow> ('s, 'v) groups \<times> ('s, 'v) tstate \<Rightarrow>
    (('s, 'v) groups \<times> ('s, 'v) tstate) go" where
  "MakeGroup rand gid nsrv mks gs = (case gs of (grps, st) \<Rightarrow>
     go_bind (makeSrvGrp rand gid nsrv mks st) (\<lambda>(sg, st'). Ret (AList.update gid sg grps, st')))"

definition lookupGroup :: "tgid \<Rightarrow> ('s, 'v) groups \<Rightarrow> ('s, 'v) server_grp option" where
  "lookupGroup gid grps = map_of grps gid"

definition delete_group :: "tgid \<Rightarrow> ('s, 'v) groups \<Rightarrow> ('s, 'v) groups" where
  "delete_group gid grps = AList.delete gid grps"

fun groups_cleanup :: "('s, 'v) groups \<Rightarrow> ('s, 'v) tstate \<Rightarrow> ('s, 'v) tstate" where
  "groups_cleanup [] st = st"
| "groups_cleanup ((gid, sg) # grps) st = groups_cleanup grps (grp_cleanup (sg_srvs sg) st)"

definition RpcCount :: "nat \<Rightarrow> ('s, 'v) gs \<Rightarrow> int go" where
  "RpcCount i g = GetCount (t_heap (snd g)) (ServerName (sg_gid (fst g)) (int i)) (t_net (snd g))"

subsection \<open>Connections and links\<close>

text \<open>
  The interface of connections: a state of \<open>n\<close> servers, each on the net or not, and directed links
  between them. Connecting a server opens the links in both directions to those of a list that are
  on the net, disconnecting closes them.
\<close>

locale link_net =
  fixes cn dc :: "nat \<Rightarrow> nat list \<Rightarrow> 'g \<Rightarrow> 'g go"
    and ok :: "nat \<Rightarrow> 'g \<Rightarrow> bool"
    and conn :: "'g \<Rightarrow> nat \<Rightarrow> bool"
    and link :: "'g \<Rightarrow> nat \<Rightarrow> nat \<Rightarrow> bool"
  assumes link_range: "ok n g \<Longrightarrow> link g a b \<Longrightarrow> a < n \<and> b < n"
    and connect_law: "ok n g \<Longrightarrow> i < n \<Longrightarrow> set to \<subseteq> {..<n} \<Longrightarrow> \<exists>g'. cn i to g = Ret g' \<and> ok n g'
      \<and> conn g' = (conn g)(i := True)
      \<and> link g' = (\<lambda>a b. link g a b \<or> (a = i \<and> b \<in> set to \<and> conn g' b) \<or> (b = i \<and> a \<in> set to \<and> conn g' a))"
    and disconnect_law: "ok n g \<Longrightarrow> i < n \<Longrightarrow> set to \<subseteq> {..<n} \<Longrightarrow> \<exists>g'. dc i to g = Ret g' \<and> ok n g'
      \<and> conn g' = (conn g)(i := False)
      \<and> link g' = (\<lambda>a b. link g a b \<and> \<not> (a = i \<and> b \<in> set to) \<and> \<not> (b = i \<and> a \<in> set to))"
begin

lemma reconnect:
  assumes "ok n g" "i < n" "set q \<subseteq> {..<n}" "set p \<subseteq> {..<n}"
  shows "\<exists>g'. go_bind (dc i q g) (cn i p) = Ret g' \<and> ok n g' \<and> conn g' = (conn g)(i := True)
    \<and> link g' = (\<lambda>a b. (link g a b \<and> \<not> (a = i \<and> b \<in> set q) \<and> \<not> (b = i \<and> a \<in> set q))
        \<or> (a = i \<and> b \<in> set p \<and> conn g' b) \<or> (b = i \<and> a \<in> set p \<and> conn g' a))"
proof -
  obtain g1 where g1: "dc i q g = Ret g1" "ok n g1" "conn g1 = (conn g)(i := False)"
    "link g1 = (\<lambda>a b. link g a b \<and> \<not> (a = i \<and> b \<in> set q) \<and> \<not> (b = i \<and> a \<in> set q))"
    using disconnect_law[OF assms(1-3)] by blast
  obtain g2 where g2: "cn i p g1 = Ret g2" "ok n g2" "conn g2 = (conn g1)(i := True)"
    "link g2 = (\<lambda>a b. link g1 a b \<or> (a = i \<and> b \<in> set p \<and> conn g2 b) \<or> (b = i \<and> a \<in> set p \<and> conn g2 a))"
    using connect_law[OF g1(2) assms(2,4)] by blast
  show ?thesis using g1 g2 by (intro exI[of _ g2]) (simp add: g2(4))
qed

definition side_inv :: "nat \<Rightarrow> 'g \<Rightarrow> nat set \<Rightarrow> nat set \<Rightarrow> nat set \<Rightarrow> 'g \<Rightarrow> bool" where
  "side_inv n g p q X g' \<longleftrightarrow> ok n g' \<and> conn g' = (\<lambda>a. conn g a \<or> a \<in> X)
     \<and> (\<forall>a b. (a \<in> X \<and> b \<in> q \<or> a \<in> q \<and> b \<in> X \<longrightarrow> \<not> link g' a b)
            \<and> (a \<in> X \<and> b \<in> X \<longrightarrow> link g' a b)
            \<and> (\<not> (a \<in> p \<and> b \<in> p) \<and> \<not> (a \<in> p \<and> b \<in> q) \<and> \<not> (a \<in> q \<and> b \<in> p) \<longrightarrow> link g' a b = link g a b))"

lemma one_side:
  assumes ok: "ok n g" and sub: "set p \<subseteq> {..<n}" "set q \<subseteq> {..<n}" and disj: "set p \<inter> set q = {}"
  shows "\<exists>g'. fold_go (\<lambda>i g. go_bind (dc i q g) (cn i p)) p g = Ret g' \<and> side_inv n g (set p) (set q) (set p) g'"
proof (rule fold_go_rule[where P = "\<lambda>xs g'. set xs \<subseteq> set p \<and> side_inv n g (set p) (set q) (set xs) g'", THEN exE])
  show "set [] \<subseteq> set p \<and> side_inv n g (set p) (set q) (set []) g"
    using ok by (auto simp: side_inv_def)
next
  fix xs x s assume P: "set xs \<subseteq> set p \<and> side_inv n g (set p) (set q) (set xs) s" and x: "x \<in> set p"
  have "ok n s" "x < n" using P x sub by (auto simp: side_inv_def)
  then obtain s' where s': "go_bind (dc x q s) (cn x p) = Ret s'" "ok n s'" "conn s' = (conn s)(x := True)"
    "link s' = (\<lambda>a b. (link s a b \<and> \<not> (a = x \<and> b \<in> set q) \<and> \<not> (b = x \<and> a \<in> set q))
        \<or> (a = x \<and> b \<in> set p \<and> conn s' b) \<or> (b = x \<and> a \<in> set p \<and> conn s' a))"
    using reconnect[of n s x q p] sub by blast
  have "side_inv n g (set p) (set q) (set (xs @ [x])) s'"
    using P x disj s' by (auto simp: side_inv_def fun_eq_iff)
  with s'(1) P x show "\<exists>s'. go_bind (dc x q s) (cn x p) = Ret s' \<and>
      set (xs @ [x]) \<subseteq> set p \<and> side_inv n g (set p) (set q) (set (xs @ [x])) s'" by auto
qed auto

lemma partition:
  assumes "ok n g" "set p1 \<subseteq> {..<n}" "set p2 \<subseteq> {..<n}" "set p1 \<inter> set p2 = {}"
  shows "\<exists>g'. go_bind (fold_go (\<lambda>i g. go_bind (dc i p2 g) (cn i p1)) p1 g)
       (fold_go (\<lambda>i g. go_bind (dc i p1 g) (cn i p2)) p2) = Ret g' \<and> ok n g'
    \<and> conn g' = (\<lambda>a. conn g a \<or> a \<in> set p1 \<union> set p2)
    \<and> link g' = (\<lambda>a b.
        if a \<in> set p1 \<and> b \<in> set p1 \<or> a \<in> set p2 \<and> b \<in> set p2 then True
        else if a \<in> set p1 \<and> b \<in> set p2 \<or> a \<in> set p2 \<and> b \<in> set p1 then False
        else link g a b)"
proof -
  obtain g1 where g1: "fold_go (\<lambda>i g. go_bind (dc i p2 g) (cn i p1)) p1 g = Ret g1"
    "side_inv n g (set p1) (set p2) (set p1) g1"
    using one_side[of n g p1 p2] assms by blast
  obtain g2 where g2: "fold_go (\<lambda>i g. go_bind (dc i p1 g) (cn i p2)) p2 g1 = Ret g2"
    "side_inv n g1 (set p2) (set p1) (set p2) g2"
    using one_side[of n g1 p2 p1] assms g1(2) by (auto simp: side_inv_def)
  have "link g2 a b = (if a \<in> set p1 \<and> b \<in> set p1 \<or> a \<in> set p2 \<and> b \<in> set p2 then True
      else if a \<in> set p1 \<and> b \<in> set p2 \<or> a \<in> set p2 \<and> b \<in> set p1 then False else link g a b)" for a b
    using g1(2) g2(2) assms(4) unfolding side_inv_def by (cases "a \<in> set p1"; cases "b \<in> set p1"; cases "a \<in> set p2"; cases "b \<in> set p2") auto
  then have "link g2 = (\<lambda>a b. if a \<in> set p1 \<and> b \<in> set p1 \<or> a \<in> set p2 \<and> b \<in> set p2 then True
      else if a \<in> set p1 \<and> b \<in> set p2 \<or> a \<in> set p2 \<and> b \<in> set p1 then False else link g a b)"
    by (intro ext)
  moreover have "ok n g2" "conn g2 = (\<lambda>a. conn g a \<or> a \<in> set p1 \<union> set p2)"
    using g1(2) g2(2) by (auto simp: side_inv_def)
  ultimately show ?thesis using g1(1) g2(1) by (intro exI[of _ g2]) simp
qed

lemma connect_all:
  assumes "ok n g" "\<And>i g. f i g = cn i [0..<n] g"
  shows "\<exists>g'. fold_go f [0..<n] g = Ret g' \<and> ok n g' \<and> (\<forall>a<n. conn g' a) \<and> (\<forall>a<n. \<forall>b<n. link g' a b)"
proof -
  let ?P = "\<lambda>xs g'. set xs \<subseteq> {..<n} \<and> ok n g' \<and> (\<forall>a\<in>set xs. conn g' a) \<and> (\<forall>a\<in>set xs. \<forall>b\<in>set xs. link g' a b)"
  have "\<exists>s'. fold_go f [0..<n] g = Ret s' \<and> ?P [0..<n] s'"
  proof (rule fold_go_rule)
    show "?P [] g" using assms by simp
    fix xs x s assume P: "?P xs s" and x: "x \<in> set [0..<n]"
    then obtain s' where s': "cn x [0..<n] s = Ret s'" "ok n s'" "conn s' = (conn s)(x := True)"
      "link s' = (\<lambda>a b. link s a b \<or> (a = x \<and> b \<in> set [0..<n] \<and> conn s' b) \<or> (b = x \<and> a \<in> set [0..<n] \<and> conn s' a))"
      using connect_law[of n s x "[0..<n]"] by (auto simp: atLeast0LessThan)
    then show "\<exists>s'. f x s = Ret s' \<and> ?P (xs @ [x]) s'"
      using P x assms(2) by (intro exI[of _ s']) auto
  qed
  then show ?thesis by auto
qed

lemma disconnect_all:
  assumes "ok n g" "i < n"
  shows "\<exists>g'. dc i [0..<n] g = Ret g' \<and> ok n g' \<and> conn g' = (conn g)(i := False)
    \<and> link g' = (\<lambda>a b. link g a b \<and> a \<noteq> i \<and> b \<noteq> i)"
proof -
  have "set [0..<n] \<subseteq> {..<n}" by auto
  from disconnect_law[OF assms this] link_range[OF assms(1)] show ?thesis by (fastforce simp: fun_eq_iff)
qed

end

subsection \<open>Groups implement the interface\<close>

text \<open>
  A well-formed group of \<open>n\<close> servers: every server has an end for each server of the group and no
  two ends share their name.
\<close>

definition wf_group :: "nat \<Rightarrow> ('s, 'v) gs \<Rightarrow> bool" where
  "wf_group n g \<longleftrightarrow> (case g of (sg, st) \<Rightarrow> length (sg_srvs sg) = n \<and> length (sg_connected sg) = n
     \<and> (\<forall>s\<in>set (sg_srvs sg). sr_endNames s \<noteq> None \<and> length (end_names s) = n)
     \<and> distinct (concat (map end_names (sg_srvs sg))))"

definition grp_conn :: "('s, 'v) gs \<Rightarrow> nat \<Rightarrow> bool" where
  "grp_conn g a \<longleftrightarrow> a < length (sg_connected (fst g)) \<and> sg_connected (fst g) ! a"

definition grp_end :: "('s, 'v) server_grp \<Rightarrow> nat \<Rightarrow> nat \<Rightarrow> string" where
  "grp_end sg a b = end_names (sg_srvs sg ! a) ! b"

definition grp_link :: "('s, 'v) gs \<Rightarrow> nat \<Rightarrow> nat \<Rightarrow> bool" where
  "grp_link g a b \<longleftrightarrow> a < length (sg_srvs (fst g)) \<and> b < length (sg_srvs (fst g))
     \<and> is_enabled (t_net (snd g)) (grp_end (fst g) a b)"

lemma distinct_concat_nth:
  assumes "distinct (concat xss)" "i < length xss" "i' < length xss" "j < length (xss ! i)" "j' < length (xss ! i')"
  shows "xss ! i ! j = xss ! i' ! j' \<longleftrightarrow> i = i' \<and> j = j'"
  using assms
proof (induction xss arbitrary: i i')
  case (Cons xs xss)
  have sep: "x \<noteq> xss ! k ! j" if "x \<in> set xs" "k < length xss" "j < length (xss ! k)" for x k j
    using Cons.prems(1) that by (auto dest!: nth_mem)
  show ?case
    using Cons.prems Cons.IH sep[of "xs ! j" "i' - 1" j'] sep[of "xs ! j'" "i - 1" j]
    by (cases i; cases i') (auto simp: nth_eq_iff_index_eq)
qed simp

lemma wf_groupD:
  assumes "wf_group n (sg, st)"
  shows "length (sg_srvs sg) = n" "length (sg_connected sg) = n"
    "i < n \<Longrightarrow> sr_endNames (sg_srvs sg ! i) = Some (end_names (sg_srvs sg ! i))"
    "i < n \<Longrightarrow> length (end_names (sg_srvs sg ! i)) = n"
  using assms nth_mem[of i "sg_srvs sg"] by (auto simp: wf_group_def end_names_def split: option.splits)

lemma grp_end_inj:
  assumes "wf_group n (sg, st)" "a < n" "b < n" "c < n" "d < n"
  shows "grp_end sg a b = grp_end sg c d \<longleftrightarrow> a = c \<and> b = d"
  using distinct_concat_nth[of "map end_names (sg_srvs sg)" a c b d] assms wf_groupD[OF assms(1)]
  by (simp add: wf_group_def grp_end_def)

definition enable_all :: "bool \<Rightarrow> string list \<Rightarrow> ('s, 'v) tstate \<Rightarrow> ('s, 'v) tstate" where
  "enable_all b es = fold (\<lambda>e. enable_end e b) es"

lemma is_enabled_enable_all:
  "is_enabled (t_net (enable_all b es st)) e \<longleftrightarrow> (if e \<in> set es then b else is_enabled (t_net st) e)"
  by (induction es arbitrary: st) (auto simp: enable_all_def enable_end_def Enable_def is_enabled_def)

lemma enable_all_frame [simp]:
  "t_heap (enable_all b es st) = t_heap st" "t_pers (enable_all b es st) = t_pers st"
  "t_fresh (enable_all b es st) = t_fresh st" "t_draws (enable_all b es st) = t_draws st"
  "t_killed (enable_all b es st) = t_killed st"
  "rn_ends (t_net (enable_all b es st)) = rn_ends (t_net st)"
  "rn_servers (t_net (enable_all b es st)) = rn_servers (t_net st)"
  "rn_connections (t_net (enable_all b es st)) = rn_connections (t_net st)"
  by (induction es arbitrary: st; simp add: enable_all_def enable_end_def Enable_def)+

lemma end_names_nth: "(!) (end_names (sg_srvs sg ! i)) = grp_end sg i"
  by (simp add: grp_end_def fun_eq_iff)

lemma fold_enable_filter:
  "fold (\<lambda>j st. if P j then enable_end (f j) b st else st) js st = enable_all b (map f (filter P js)) st"
  by (induction js arbitrary: st) (auto simp: enable_all_def)

lemma grp_connect_eq:
  assumes wf: "wf_group n (sg, st)" and i: "i < n" and to: "set to \<subseteq> {..<n}"
  shows "grp_connect i to (sg, st) = (let c = (sg_connected sg)[i := True] in
    Ret (sg\<lparr>sg_connected := c\<rparr>, enable_all True (map (\<lambda>j. grp_end sg j i) (filter (nth c) to))
      (enable_all True (map (grp_end sg i) (filter (nth c) to)) st)))"
proof -
  let ?c = "(sg_connected sg)[i := True]"
  have out: "srv_connect ?c (sg_srvs sg ! i) to st = Ret (enable_all True (map (grp_end sg i) (filter (nth ?c) to)) st)" for st
    unfolding srv_connect_def
    by (subst fold_go_total[where h = "\<lambda>j st. if ?c ! j then enable_end (grp_end sg i j) True st else st"])
      (use wf_groupD[OF wf] i to in \<open>auto simp: fold_enable_filter end_names_nth subset_iff\<close>)
  have inc: "fold_go (\<lambda>j st. go_bind (IsConnected (sg\<lparr>sg_connected := ?c\<rparr>) j) (\<lambda>c.
         if c then go_bind (go_nth (sg_srvs (sg\<lparr>sg_connected := ?c\<rparr>)) j) (\<lambda>sj.
           go_bind (go_nth (end_names sj) i) (\<lambda>e. Ret (enable_end e True st)))
         else Ret st)) to st = Ret (enable_all True (map (\<lambda>j. grp_end sg j i) (filter (nth ?c) to)) st)" for st
    by (subst fold_go_total[where h = "\<lambda>j st. if ?c ! j then enable_end (grp_end sg j i) True st else st"])
      (use wf_groupD[OF wf] i to in \<open>auto simp: IsConnected_def fold_enable_filter end_names_nth subset_iff\<close>)
  show ?thesis
    using i wf_groupD(1,2)[OF wf] by (simp add: grp_connect_def set_connected_def out inc Let_def)
qed

lemma grp_disconnect_eq:
  assumes wf: "wf_group n (sg, st)" and i: "i < n" and fr: "set from \<subseteq> {..<n}"
  shows "grp_disconnect i from (sg, st) = Ret (sg\<lparr>sg_connected := (sg_connected sg)[i := False]\<rparr>,
      enable_all False (map (\<lambda>j. grp_end sg j i) from) (enable_all False (map (grp_end sg i) from) st))"
proof -
  have out: "srv_disconnect (sg_srvs sg ! i) from st = Ret (enable_all False (map (grp_end sg i) from) st)" for st
    unfolding srv_disconnect_def wf_groupD(3)[OF wf i] option.case
    by (subst fold_go_total[where h = "\<lambda>j st. enable_end (grp_end sg i j) False st"])
      (use wf_groupD[OF wf] i fr in \<open>auto simp: enable_all_def fold_map comp_def end_names_nth subset_iff\<close>)
  have inc: "fold_go (\<lambda>j st. go_bind (go_nth (sg_srvs sg) j) (\<lambda>sj.
         case sr_endNames sj of None \<Rightarrow> Ret st
         | Some ns \<Rightarrow> go_bind (go_nth ns i) (\<lambda>e. Ret (enable_end e False st)))) from st
      = Ret (enable_all False (map (\<lambda>j. grp_end sg j i) from) st)" for st
    by (subst fold_go_total[where h = "\<lambda>j st. enable_end (grp_end sg j i) False st"])
      (use wf_groupD[OF wf] i fr in \<open>auto simp: enable_all_def fold_map comp_def end_names_nth subset_iff\<close>)
  show ?thesis
    using i wf_groupD(1,2)[OF wf] by (simp add: grp_disconnect_def set_connected_def out inc)
qed

lemma wf_group_cong:
  "wf_group n (sg, st) \<Longrightarrow> length c = n \<Longrightarrow> wf_group n (sg\<lparr>sg_connected := c\<rparr>, st')"
  by (simp add: wf_group_def)

interpretation grp: link_net grp_connect grp_disconnect wf_group grp_conn grp_link
proof
  show "a < n \<and> b < n" if "wf_group n g" "grp_link g a b" for n a b and g :: "('s, 'v) gs"
    using that by (cases g) (simp add: grp_link_def wf_group_def)
next
  fix n i to and g :: "('s, 'v) gs"
  assume wf: "wf_group n g" and i: "i < n" and to: "set to \<subseteq> {..<n}"
  obtain sg st where g: "g = (sg, st)" by fastforce
  note wf = wf[unfolded g]
  let ?c = "(sg_connected sg)[i := True]"
  let ?g = "(sg\<lparr>sg_connected := ?c\<rparr>, enable_all True (map (\<lambda>j. grp_end sg j i) (filter (nth ?c) to))
      (enable_all True (map (grp_end sg i) (filter (nth ?c) to)) st))"
  have "wf_group n ?g" using wf wf_groupD(2)[OF wf] by (intro wf_group_cong) auto
  moreover have conn: "grp_conn ?g = (grp_conn g)(i := True)"
    using i wf_groupD(2)[OF wf] g by (auto simp: grp_conn_def fun_eq_iff nth_list_update)
  moreover have "grp_link ?g a b = (grp_link g a b \<or> (a = i \<and> b \<in> set to \<and> grp_conn ?g b)
      \<or> (b = i \<and> a \<in> set to \<and> grp_conn ?g a))" for a b
    using i to wf_groupD(1,2)[OF wf] g grp_end_inj[OF wf]
    by (auto simp: grp_link_def is_enabled_enable_all grp_conn_def grp_end_def[of "_\<lparr>sg_connected := _\<rparr>"] grp_end_def[of sg, symmetric] subset_iff)
  ultimately show "\<exists>g'. grp_connect i to g = Ret g' \<and> wf_group n g' \<and> grp_conn g' = (grp_conn g)(i := True)
      \<and> grp_link g' = (\<lambda>a b. grp_link g a b \<or> (a = i \<and> b \<in> set to \<and> grp_conn g' b) \<or> (b = i \<and> a \<in> set to \<and> grp_conn g' a))"
    using grp_connect_eq[OF wf i to] g by (intro exI[of _ ?g]) (auto simp: Let_def fun_eq_iff)
next
  fix n i to and g :: "('s, 'v) gs"
  assume wf: "wf_group n g" and i: "i < n" and to: "set to \<subseteq> {..<n}"
  obtain sg st where g: "g = (sg, st)" by fastforce
  note wf = wf[unfolded g]
  let ?g = "(sg\<lparr>sg_connected := (sg_connected sg)[i := False]\<rparr>,
      enable_all False (map (\<lambda>j. grp_end sg j i) to) (enable_all False (map (grp_end sg i) to) st))"
  have "wf_group n ?g" using wf wf_groupD(2)[OF wf] by (intro wf_group_cong) auto
  moreover have conn: "grp_conn ?g = (grp_conn g)(i := False)"
    using i wf_groupD(2)[OF wf] g by (auto simp: grp_conn_def fun_eq_iff nth_list_update)
  moreover have "grp_link ?g a b = (grp_link g a b \<and> \<not> (a = i \<and> b \<in> set to) \<and> \<not> (b = i \<and> a \<in> set to))" for a b
    using i to wf_groupD(1,2)[OF wf] g grp_end_inj[OF wf]
    by (auto simp: grp_link_def is_enabled_enable_all grp_end_def[of "_\<lparr>sg_connected := _\<rparr>"] grp_end_def[of sg, symmetric] subset_iff)
  ultimately show "\<exists>g'. grp_disconnect i to g = Ret g' \<and> wf_group n g' \<and> grp_conn g' = (grp_conn g)(i := False)
      \<and> grp_link g' = (\<lambda>a b. grp_link g a b \<and> \<not> (a = i \<and> b \<in> set to) \<and> \<not> (b = i \<and> a \<in> set to))"
    using grp_disconnect_eq[OF wf i to] g by (intro exI[of _ ?g]) (auto simp: fun_eq_iff)
qed

subsection \<open>The invariant of a group\<close>

text \<open>
  The names that \<^verbatim>\<open>Randstring\<close> draws: no two draws agree, and none is the name of an existing end
  (the code draws 20 characters out of 64 at random and stops the process otherwise).
\<close>

definition fresh_names :: "(nat \<Rightarrow> string) \<Rightarrow> ('s, 'v) tstate \<Rightarrow> bool" where
  "fresh_names rand st \<longleftrightarrow> inj rand \<and> (\<forall>k\<ge>t_draws st. rn_ends (t_net st) (rand k) = None)"

definition grp_ok :: "(nat \<Rightarrow> string) \<Rightarrow> nat \<Rightarrow> ('s, 'v) gs \<Rightarrow> bool" where
  "grp_ok rand n g \<longleftrightarrow> wf_group n g \<and> fresh_names rand (snd g)
     \<and> (\<forall>s\<in>set (sg_srvs (fst g)). set (end_names s) \<subseteq> rand ` {..<t_draws (snd g)})
     \<and> (\<forall>s\<in>set (sg_srvs (fst g)). \<forall>a. sr_saved s = Some a \<longrightarrow> a < t_fresh (snd g) \<and> t_pers (snd g) a \<noteq> None)
     \<and> (\<forall>a<n. \<forall>b<n. rn_connections (t_net (snd g)) (grp_end (fst g) a b) = Some (Some (ServerName (sg_gid (fst g)) (int b))))"

lemma grp_ok_wf: "grp_ok rand n g \<Longrightarrow> wf_group n g"
  by (simp add: grp_ok_def)

lemma grp_end_connected [simp]: "grp_end (sg\<lparr>sg_connected := c\<rparr>) = grp_end sg"
  by (simp add: grp_end_def fun_eq_iff)

lemma grp_ok_links:
  "grp_ok rand n (sg, st) \<Longrightarrow> length c = n \<Longrightarrow>
   grp_ok rand n (sg\<lparr>sg_connected := c\<rparr>, enable_all b es (enable_all b es' st))"
  using wf_group_cong[of n sg st c] by (simp add: grp_ok_def fresh_names_def)

lemma grp_connect_ok:
  assumes "grp_ok rand n g" "i < n" "set to \<subseteq> {..<n}" "grp_connect i to g = Ret g'"
  shows "grp_ok rand n g'"
proof (cases g)
  case (Pair sg st)
  then show ?thesis
    using assms grp_connect_eq[of n sg st i to] grp_ok_links[of rand n sg st] wf_groupD(2)[of n sg st]
    by (auto simp: Let_def grp_ok_wf)
qed

lemma grp_disconnect_ok:
  assumes "grp_ok rand n g" "i < n" "set to \<subseteq> {..<n}" "grp_disconnect i to g = Ret g'"
  shows "grp_ok rand n g'"
proof (cases g)
  case (Pair sg st)
  then show ?thesis
    using assms grp_disconnect_eq[of n sg st i to] grp_ok_links[of rand n sg st] wf_groupD(2)[of n sg st]
    by (auto simp: grp_ok_wf)
qed

interpretation grpi: link_net grp_connect grp_disconnect "grp_ok rand" grp_conn grp_link for rand
  proof
  show "a < n \<and> b < n" if "grp_ok rand n g" "grp_link g a b" for n a b and g :: "('a, 'b) gs"
    using that grp.link_range grp_ok_wf by blast
next
  fix n i to and g :: "('a, 'b) gs"
  assume "grp_ok rand n g" "i < n" "set to \<subseteq> {..<n}"
  note * = this grp_ok_wf[OF this(1)]
  from grp.connect_law[OF *(4,2,3)] grp_connect_ok[OF *(1-3)]
  show "\<exists>g'. grp_connect i to g = Ret g' \<and> grp_ok rand n g' \<and> grp_conn g' = (grp_conn g)(i := True)
      \<and> grp_link g' = (\<lambda>a b. grp_link g a b \<or> (a = i \<and> b \<in> set to \<and> grp_conn g' b) \<or> (b = i \<and> a \<in> set to \<and> grp_conn g' a))"
    by blast
  from grp.disconnect_law[OF *(4,2,3)] grp_disconnect_ok[OF *(1-3)]
  show "\<exists>g'. grp_disconnect i to g = Ret g' \<and> grp_ok rand n g' \<and> grp_conn g' = (grp_conn g)(i := False)
      \<and> grp_link g' = (\<lambda>a b. grp_link g a b \<and> \<not> (a = i \<and> b \<in> set to) \<and> \<not> (b = i \<and> a \<in> set to))"
    by blast
qed

text \<open>What making the ends of one server does.\<close>

definition new_ends :: "(nat \<Rightarrow> string) \<Rightarrow> tgid \<Rightarrow> nat \<Rightarrow> nat \<Rightarrow> ('s, 'v) tstate \<Rightarrow> ('s, 'v) tstate \<Rightarrow> bool" where
  "new_ends rand gid j k st st' \<longleftrightarrow> fresh_names rand st' \<and> t_draws st' = t_draws st + k
     \<and> t_heap st' = t_heap st \<and> t_pers st' = t_pers st \<and> t_fresh st' = t_fresh st \<and> t_killed st' = t_killed st
     \<and> rn_servers (t_net st') = rn_servers (t_net st)
     \<and> (\<forall>e. e \<notin> rand ` {t_draws st..<t_draws st + k} \<longrightarrow> is_enabled (t_net st') e = is_enabled (t_net st) e
          \<and> rn_connections (t_net st') e = rn_connections (t_net st) e)
     \<and> (\<forall>x<k. \<not> is_enabled (t_net st') (rand (t_draws st + x))
          \<and> rn_connections (t_net st') (rand (t_draws st + x)) = Some (Some (ServerName gid (int (j + x)))))"

lemma make_ends_spec:
  assumes "fresh_names rand st"
  shows "\<exists>st'. make_ends rand gid j k st = Ret (map rand [t_draws st..<t_draws st + k], st') \<and> new_ends rand gid j k st st'"
  using assms
proof (induction k arbitrary: j st)
  case 0
  then show ?case by (simp add: new_ends_def)
next
  case (Suc k)
  let ?d = "t_draws st"
  obtain net where net: "MakeEnd (rand ?d) (t_net st) = Ret (rand ?d, net)"
      "rn_ends net = (rn_ends (t_net st))(rand ?d \<mapsto> rand ?d)" "rn_servers net = rn_servers (t_net st)"
      "rn_enabled net = (rn_enabled (t_net st))(rand ?d \<mapsto> False)"
      "rn_connections net = (rn_connections (t_net st))(rand ?d \<mapsto> None)"
    using Suc.prems by (simp add: MakeEnd_def fresh_names_def)
  let ?s = "st\<lparr>t_net := Connect (rand ?d) (ServerName gid (int j)) net, t_draws := Suc ?d\<rparr>"
  have inj: "rand a = rand b \<longleftrightarrow> a = b" for a b using Suc.prems by (auto simp: fresh_names_def inj_eq)
  have "fresh_names rand ?s" using Suc.prems net by (auto simp: fresh_names_def Connect_def inj_eq)
  from Suc.IH[OF this, of "Suc j"] obtain st' where
    st': "make_ends rand gid (Suc j) k ?s = Ret (map rand [Suc ?d..<Suc ?d + k], st')" "new_ends rand gid (Suc j) k ?s st'"
    by auto
  have "make_ends rand gid j (Suc k) st = Ret (map rand [?d..<?d + Suc k], st')"
    using net(1) st'(1) by (simp add: upt_conv_Cons Let_def del: upt_Suc)
  moreover have "new_ends rand gid j (Suc k) st st'"
    unfolding new_ends_def
  proof (intro conjI allI impI; (elim conjE)?)
    fix e assume e: "e \<notin> rand ` {?d..<?d + Suc k}"
    then have "e \<noteq> rand ?d" "e \<notin> rand ` {Suc ?d..<Suc ?d + k}" by auto
    then show "is_enabled (t_net st') e = is_enabled (t_net st) e"
      "rn_connections (t_net st') e = rn_connections (t_net st) e"
      using st'(2) net by (auto simp: new_ends_def is_enabled_def Connect_def)
  next
    fix x assume x: "x < Suc k"
    have out: "rand ?d \<notin> rand ` {Suc ?d..<Suc ?d + k}" by (auto simp: inj)
    show "\<not> is_enabled (t_net st') (rand (?d + x))"
      "rn_connections (t_net st') (rand (?d + x)) = Some (Some (ServerName gid (int (j + x))))"
      using st'(2) net x out by (cases x; auto simp: new_ends_def is_enabled_def Connect_def)+
  qed (use st'(2) net in \<open>simp_all add: new_ends_def Connect_def\<close>)
  ultimately show ?case by blast
qed

text \<open>Replacing one server of a group by one with new ends keeps the invariant.\<close>

lemma concat_update_distinct:
  assumes "distinct (concat xss)" "i < length xss" "distinct ys" "\<forall>xs\<in>set xss. set xs \<inter> set ys = {}"
  shows "distinct (concat (xss[i := ys]))"
  using assms
proof (induction xss arbitrary: i)
  case (Cons xs xss)
  then show ?case
    by (cases i) (auto simp: disjoint_iff dest!: set_update_subset_insert[THEN subsetD])
qed simp

lemma grp_ok_replace:
  assumes ok: "grp_ok rand n (sg, st)" and i: "i < n"
    and srv: "sr_endNames srv = Some (map rand [t_draws st..<t_draws st + n])"
      "sr_saved srv = Some p" "p < t_fresh st2" "t_pers st2 p \<noteq> None"
    and new: "new_ends rand (sg_gid sg) 0 n st st1"
    and frame: "t_draws st2 = t_draws st1" "rn_ends (t_net st2) = rn_ends (t_net st1)"
      "rn_connections (t_net st2) = rn_connections (t_net st1)" "t_fresh st \<le> t_fresh st2"
      "\<And>a. a < t_fresh st \<Longrightarrow> t_pers st a \<noteq> None \<Longrightarrow> t_pers st2 a \<noteq> None"
  shows "grp_ok rand n (sg\<lparr>sg_srvs := (sg_srvs sg)[i := srv]\<rparr>, st2)"
proof -
  have wf: "wf_group n (sg, st)" using ok by (rule grp_ok_wf)
  have inj: "inj rand" using new by (simp add: new_ends_def fresh_names_def)
  have names: "end_names srv = map rand [t_draws st..<t_draws st + n]" using srv(1) by (simp add: end_names_def)
  have old: "set (end_names s) \<subseteq> rand ` {..<t_draws st}" if "s \<in> set (sg_srvs sg)" for s
    using ok that by (simp add: grp_ok_def)
  have sep: "set (end_names s) \<inter> set (end_names srv) = {}" if "s \<in> set (sg_srvs sg)" for s
  proof -
    have "rand ` {..<t_draws st} \<inter> rand ` {t_draws st..<t_draws st + n} = {}" using inj by (auto simp: inj_eq)
    then show ?thesis using old[OF that] names by auto
  qed
  have mem: "s \<in> set (sg_srvs sg) \<or> s = srv" if "s \<in> set ((sg_srvs sg)[i := srv])" for s
    using set_update_subset_insert[of "sg_srvs sg" i srv] that by auto
  have "distinct (concat ((map end_names (sg_srvs sg))[i := end_names srv]))"
  proof (rule concat_update_distinct)
    show "distinct (end_names srv)" unfolding names distinct_map using inj by (auto intro: inj_on_subset)
    show "\<forall>xs\<in>set (map end_names (sg_srvs sg)). set xs \<inter> set (end_names srv) = {}" using sep by simp
  qed (use wf i in \<open>simp_all add: wf_group_def\<close>)
  then have "wf_group n (sg\<lparr>sg_srvs := (sg_srvs sg)[i := srv]\<rparr>, st2)"
    using wf srv(1) names by (auto simp: wf_group_def map_update dest: mem)
  moreover have "fresh_names rand st2" using new frame(1,2) by (simp add: new_ends_def fresh_names_def)
  moreover have "set (end_names s) \<subseteq> rand ` {..<t_draws st2}" if "s \<in> set ((sg_srvs sg)[i := srv])" for s
  proof -
    have "rand ` {..<t_draws st} \<subseteq> rand ` {..<t_draws st2}" "rand ` {t_draws st..<t_draws st + n} \<subseteq> rand ` {..<t_draws st2}"
      using new frame(1) by (auto simp: new_ends_def)
    then show ?thesis using mem[OF that] old[of s] names by auto
  qed
  moreover have "a < t_fresh st2 \<and> t_pers st2 a \<noteq> None" if "s \<in> set ((sg_srvs sg)[i := srv])" "sr_saved s = Some a" for s a
    using mem[OF that(1)] that(2) srv(2-4) ok frame(4) frame(5)[of a] by (auto simp: grp_ok_def)
  moreover have "rn_connections (t_net st2) (grp_end (sg\<lparr>sg_srvs := (sg_srvs sg)[i := srv]\<rparr>) a b)
      = Some (Some (ServerName (sg_gid sg) (int b)))" if ab: "a < n" "b < n" for a b
  proof (cases "a = i")
    case True
    then have "grp_end (sg\<lparr>sg_srvs := (sg_srvs sg)[i := srv]\<rparr>) a b = rand (t_draws st + b)"
      using ab names wf_groupD(1)[OF wf] by (simp add: grp_end_def)
    then show ?thesis using new ab(2) frame(3) by (auto simp: new_ends_def)
  next
    case False
    then have eq: "grp_end (sg\<lparr>sg_srvs := (sg_srvs sg)[i := srv]\<rparr>) a b = grp_end sg a b" by (simp add: grp_end_def)
    have "grp_end sg a b \<in> set (end_names (sg_srvs sg ! a))"
      using ab wf_groupD[OF wf] by (simp add: grp_end_def)
    then have "grp_end sg a b \<in> rand ` {..<t_draws st}"
      using old[of "sg_srvs sg ! a"] ab wf_groupD(1)[OF wf] by auto
    then have "grp_end sg a b \<notin> rand ` {t_draws st..<t_draws st + n}" using inj by (auto simp: inj_eq)
    then show ?thesis using ok ab new frame(3) eq by (auto simp: grp_ok_def new_ends_def)
  qed
  ultimately show ?thesis by (simp add: grp_ok_def)
qed

text \<open>Starting a server: the start function runs on a copy of what was saved.\<close>

definition saved_state :: "('s, 'v) gs \<Rightarrow> nat \<Rightarrow> persister" where
  "saved_state g i = (case sr_saved (sg_srvs (fst g) ! i) of None \<Rightarrow> MakePersister | Some a \<Rightarrow> the (t_pers (snd g) a))"

lemma Persister_Copy_id [simp]: "Persister_Copy ps = ps"
  by (simp add: Persister_Copy_def MakePersister_def)

lemma startServer_eq:
  assumes ok: "grp_ok rand n (sg, st)" and i: "i < n"
  shows "\<exists>st1. new_ends rand (sg_gid sg) 0 n st st1 \<and> t_fresh st1 = t_fresh st \<and> startServer rand (sg_gid sg) (sg_srvs sg ! i) st =
    Ret (\<lparr>sr_saved = Some (t_fresh st), sr_svcs = None, sr_endNames = Some (map rand [t_draws st..<t_draws st + n]),
        sr_clntEnds = map rand [t_draws st..<t_draws st + n]\<rparr>,
      st1\<lparr>t_pers := (t_pers st)(t_fresh st \<mapsto> saved_state (sg, st) i), t_fresh := Suc (t_fresh st)\<rparr>)"
proof -
  have wf: "wf_group n (sg, st)" using ok by (rule grp_ok_wf)
  obtain st1 where st1: "make_ends rand (sg_gid sg) 0 n st = Ret (map rand [t_draws st..<t_draws st + n], st1)"
    "new_ends rand (sg_gid sg) 0 n st st1"
    using make_ends_spec[of rand st "sg_gid sg" 0 n] ok by (auto simp: grp_ok_def)
  have fr: "t_fresh st1 = t_fresh st" "t_pers st1 = t_pers st" using st1(2) by (simp_all add: new_ends_def)
  have saved: "t_pers st a \<noteq> None" if "sr_saved (sg_srvs sg ! i) = Some a" for a
    using ok that i nth_mem[of i "sg_srvs sg"] wf_groupD(1)[OF wf] by (auto simp: grp_ok_def)
  show ?thesis
    using wf_groupD(3,4)[OF wf i] st1 saved fr
    by (auto simp: startServer_def makeServer_def copy_persister_def new_persister_def saved_state_def
        split: option.splits)
qed

lemma StartServer_spec:
  assumes ok: "grp_ok rand n (sg, st)" and i: "i < n"
    and mks: "sg_mks sg (map rand [t_draws st..<t_draws st + n]) (sg_gid sg) i (t_fresh st) (saved_state (sg, st) i) = (svcs, state, ps)"
  shows "\<exists>sg' st'. StartServer rand i (sg, st) = Ret (sg', st') \<and> grp_ok rand n (sg', st')
    \<and> sg_gid sg' = sg_gid sg \<and> sg_mks sg' = sg_mks sg \<and> sg_connected sg' = sg_connected sg
    \<and> sr_svcs (sg_srvs sg' ! i) = Some svcs \<and> sr_saved (sg_srvs sg' ! i) = Some (t_fresh st)
    \<and> t_pers st' = (t_pers st)(t_fresh st \<mapsto> ps)
    \<and> lookup_server (t_net st') (ServerName (sg_gid sg) (int i)) = Some (Suc (t_fresh st))
    \<and> t_heap st' (Suc (t_fresh st)) = Some (add_services svcs (MakeServer state))"
proof -
  have wf: "wf_group n (sg, st)" using ok by (rule grp_ok_wf)
  let ?names = "map rand [t_draws st..<t_draws st + n]"
  let ?srv = "\<lparr>sr_saved = Some (t_fresh st), sr_svcs = Some svcs, sr_endNames = Some ?names, sr_clntEnds = ?names\<rparr>"
  obtain st1 where st1: "new_ends rand (sg_gid sg) 0 n st st1" "startServer rand (sg_gid sg) (sg_srvs sg ! i) st =
      Ret (?srv\<lparr>sr_svcs := None\<rparr>, st1\<lparr>t_pers := (t_pers st)(t_fresh st \<mapsto> saved_state (sg, st) i), t_fresh := Suc (t_fresh st)\<rparr>)"
    using startServer_eq[OF ok i] by auto
  let ?st2 = "st1\<lparr>t_pers := (t_pers st)(t_fresh st \<mapsto> ps), t_heap := (t_heap st1)(Suc (t_fresh st) \<mapsto> add_services svcs (MakeServer state)),
      t_fresh := Suc (Suc (t_fresh st)), t_net := AddServer (ServerName (sg_gid sg) (int i)) (Suc (t_fresh st)) (t_net st1)\<rparr>"
  have "StartServer rand i (sg, st) = Ret (sg\<lparr>sg_srvs := (sg_srvs sg)[i := ?srv]\<rparr>, ?st2)"
    using st1(2) mks i wf_groupD(1)[OF wf] by (simp add: StartServer_def Let_def)
  moreover have "grp_ok rand n (sg\<lparr>sg_srvs := (sg_srvs sg)[i := ?srv]\<rparr>, ?st2)"
    by (rule grp_ok_replace[where p = "t_fresh st", OF ok i _ _ _ _ st1(1)]) (simp_all add: AddServer_def)
  moreover have "lookup_server (t_net ?st2) (ServerName (sg_gid sg) (int i)) = Some (Suc (t_fresh st))"
    by (simp add: AddServer_def lookup_server_def)
  ultimately show ?thesis
    using i wf_groupD(1)[OF wf] by (intro exI conjI) (assumption, assumption, simp_all)
qed

text \<open>Shutting a server down: it leaves the net, and a copy of its persister takes the old one's place.\<close>

lemma grp_ok_same_ends:
  assumes ok: "grp_ok rand n (sg, st)" and i: "i < n"
    and srv: "sr_endNames srv = sr_endNames (sg_srvs sg ! i)"
      "\<And>a. sr_saved srv = Some a \<Longrightarrow> a < t_fresh st2 \<and> t_pers st2 a \<noteq> None"
    and frame: "t_draws st2 = t_draws st" "rn_ends (t_net st2) = rn_ends (t_net st)"
      "rn_connections (t_net st2) = rn_connections (t_net st)" "t_fresh st \<le> t_fresh st2"
      "\<And>a. t_pers st a \<noteq> None \<Longrightarrow> t_pers st2 a \<noteq> None"
  shows "grp_ok rand n (sg\<lparr>sg_srvs := (sg_srvs sg)[i := srv]\<rparr>, st2)"
proof -
  have wf: "wf_group n (sg, st)" using ok by (rule grp_ok_wf)
  have same: "end_names srv = end_names (sg_srvs sg ! i)" using srv(1) by (simp add: end_names_def)
  have ends: "map end_names ((sg_srvs sg)[i := srv]) = map end_names (sg_srvs sg)"
    using same i wf_groupD(1)[OF wf] by (metis length_map list_update_id map_update nth_map)
  have mem: "s \<in> set (sg_srvs sg) \<or> s = srv" if "s \<in> set ((sg_srvs sg)[i := srv])" for s
    using set_update_subset_insert[of "sg_srvs sg" i srv] that by auto
  have si: "sg_srvs sg ! i \<in> set (sg_srvs sg)" using i wf_groupD(1)[OF wf] by simp
  have "grp_end (sg\<lparr>sg_srvs := (sg_srvs sg)[i := srv]\<rparr>) a b = grp_end sg a b" for a b
    using same i wf_groupD(1)[OF wf] by (cases "a = i") (simp_all add: grp_end_def)
  moreover have "wf_group n (sg\<lparr>sg_srvs := (sg_srvs sg)[i := srv]\<rparr>, st2)"
    using wf ends srv(1) same si by (auto simp: wf_group_def dest: mem)
  moreover have "a < t_fresh st2 \<and> t_pers st2 a \<noteq> None" if "s \<in> set ((sg_srvs sg)[i := srv])" "sr_saved s = Some a" for s a
    using mem[OF that(1)] that(2) srv(2) ok frame(4) frame(5)[of a] by (auto simp: grp_ok_def)
  moreover have "set (end_names s) \<subseteq> rand ` {..<t_draws st2}" if "s \<in> set ((sg_srvs sg)[i := srv])" for s
    using mem[OF that] ok frame(1) same si by (force simp: grp_ok_def)
  ultimately show ?thesis using ok frame(1-3) by (simp add: grp_ok_def fresh_names_def)
qed

lemma shutdownServer_eq:
  "shutdownServer s st = (s\<lparr>sr_saved := map_option (\<lambda>a. t_fresh st) (sr_saved s), sr_svcs := None\<rparr>,
     st\<lparr>t_pers := (case sr_saved s of None \<Rightarrow> t_pers st
            | Some a \<Rightarrow> (t_pers st)(t_fresh st \<mapsto> (case t_pers st a of None \<Rightarrow> MakePersister | Some ps \<Rightarrow> ps))),
        t_fresh := (if sr_saved s = None then t_fresh st else Suc (t_fresh st)),
        t_killed := t_killed st @ (case sr_svcs s of None \<Rightarrow> [] | Some svcs \<Rightarrow> map is_obj svcs)\<rparr>)"
  by (cases s; cases st) (simp add: shutdownServer_def copy_persister_def new_persister_def kill_all_def split: option.split)

lemma ShutdownServer_spec:
  assumes ok: "grp_ok rand n (sg, st)" and i: "i < n"
  shows "\<exists>sg' st'. ShutdownServer i (sg, st) = Ret (sg', st') \<and> grp_ok rand n (sg', st')
    \<and> grp_conn (sg', st') = (grp_conn (sg, st))(i := False)
    \<and> (\<forall>a b. grp_link (sg', st') a b \<longleftrightarrow> grp_link (sg, st) a b \<and> a \<noteq> i \<and> b \<noteq> i)
    \<and> lookup_server (t_net st') (ServerName (sg_gid sg) (int i)) = None
    \<and> sg_gid sg' = sg_gid sg \<and> sg_mks sg' = sg_mks sg \<and> sr_svcs (sg_srvs sg' ! i) = None
    \<and> (\<forall>svcs. sr_svcs (sg_srvs sg ! i) = Some svcs \<longrightarrow> is_obj ` set svcs \<subseteq> set (t_killed st'))
    \<and> saved_state (sg', st') i = saved_state (sg, st) i
    \<and> (\<forall>a. sr_saved (sg_srvs sg ! i) = Some a \<longrightarrow> a < t_fresh st \<and> sr_saved (sg_srvs sg' ! i) = Some (t_fresh st))
    \<and> t_fresh st' \<ge> t_fresh st \<and> t_draws st' = t_draws st"
proof -
  note wf = grp_ok_wf[OF ok]
  have len: "length (sg_srvs sg) = n" using wf_groupD(1)[OF wf] .
  let ?st1 = "enable_all False (map (\<lambda>j. grp_end sg j i) [0..<n]) (enable_all False (map (grp_end sg i) [0..<n]) st)"
  let ?sg1 = "sg\<lparr>sg_connected := (sg_connected sg)[i := False]\<rparr>"
  let ?s = "sg_srvs sg ! i"
  let ?st2 = "?st1\<lparr>t_net := DeleteServer (ServerName (sg_gid sg) (int i)) (t_net ?st1)\<rparr>"
  obtain s' st' where sd: "shutdownServer ?s ?st2 = (s', st')" by fastforce
  have dis: "grp_disconnect i [0..<n] (sg, st) = Ret (?sg1, ?st1)"
    using grp_disconnect_eq[OF wf i, of "[0..<n]"] by (simp add: atLeast0LessThan)
  let ?sg' = "?sg1\<lparr>sg_srvs := (sg_srvs sg)[i := s']\<rparr>"
  have run: "ShutdownServer i (sg, st) = Ret (?sg', st')"
    using dis sd i len by (simp add: ShutdownServer_def grp_all_def)
  have saved: "a < t_fresh st \<and> t_pers st a \<noteq> None" if "sr_saved ?s = Some a" for a
    using ok that i nth_mem[of i "sg_srvs sg"] len by (auto simp: grp_ok_def)
  have ok1: "grp_ok rand n (?sg1, ?st1)" using grp_ok_links[OF ok] wf_groupD(2)[OF wf] by simp
  have "grp_ok rand n (?sg1\<lparr>sg_srvs := (sg_srvs ?sg1)[i := s']\<rparr>, st')"
    using sd[unfolded shutdownServer_eq, symmetric] saved
    by (intro grp_ok_same_ends[OF ok1 i]) (auto simp: DeleteServer_def split: option.splits)
  then have ok': "grp_ok rand n (?sg', st')" by simp
  have conn: "grp_conn (?sg', st') = grp_conn (?sg1, ?st1)" by (simp add: grp_conn_def fun_eq_iff)
  have "grp_end ?sg' a b = grp_end ?sg1 a b" for a b
    using sd[unfolded shutdownServer_eq, symmetric] i len by (cases "a = i") (simp_all add: grp_end_def end_names_def)
  then have link: "grp_link (?sg', st') = grp_link (?sg1, ?st1)"
    using sd[unfolded shutdownServer_eq, symmetric] by (simp add: grp_link_def fun_eq_iff is_enabled_def DeleteServer_def)
  obtain g1 where g1: "grp_disconnect i [0..<n] (sg, st) = Ret g1" "grp_conn g1 = (grp_conn (sg, st))(i := False)"
      "grp_link g1 = (\<lambda>a b. grp_link (sg, st) a b \<and> a \<noteq> i \<and> b \<noteq> i)"
    using grp.disconnect_all[OF wf i] by blast
  have links: "grp_link (?sg', st') a b \<longleftrightarrow> grp_link (sg, st) a b \<and> a \<noteq> i \<and> b \<noteq> i" for a b
    using g1(1,3) dis link by simp
  have conn': "grp_conn (?sg', st') = (grp_conn (sg, st))(i := False)" using g1(1,2) dis conn by simp
  have kill: "is_obj ` set svcs \<subseteq> set (t_killed st')" if "sr_svcs ?s = Some svcs" for svcs
    using sd[unfolded shutdownServer_eq, symmetric] that by simp
  have st: "saved_state (?sg', st') i = saved_state (sg, st) i"
    using sd[unfolded shutdownServer_eq, symmetric] i len saved by (auto simp: saved_state_def split: option.splits)
  have new: "a < t_fresh st \<and> sr_saved (sg_srvs ?sg' ! i) = Some (t_fresh st)" if "sr_saved ?s = Some a" for a
    using sd[unfolded shutdownServer_eq, symmetric] i len that saved[OF that] by simp
  have rest: "lookup_server (t_net st') (ServerName (sg_gid sg) (int i)) = None" "sr_svcs (sg_srvs ?sg' ! i) = None"
    "t_fresh st' \<ge> t_fresh st" "t_draws st' = t_draws st"
    using sd[unfolded shutdownServer_eq, symmetric] i len by (simp_all add: DeleteServer_def lookup_server_def)
  show ?thesis
    using run ok' conn' links kill st new rest by (intro exI[of _ ?sg'] exI[of _ st']) simp
qed

subsection \<open>Making a group\<close>

lemma ConnectAll_spec:
  assumes "grp_ok rand n g"
  shows "\<exists>g'. ConnectAll g = Ret g' \<and> grp_ok rand n g' \<and> (\<forall>a<n. grp_conn g' a) \<and> (\<forall>a<n. \<forall>b<n. grp_link g' a b)"
proof -
  have len: "length (sg_srvs (fst g)) = n" if "grp_ok rand n g" for g :: "('s, 'v) gs"
    using grp_ok_wf[OF that] by (simp add: wf_group_def split: prod.splits)
  let ?f = "\<lambda>i g. grp_connect i [0..<n] g"
  have eq: "\<exists>g'. fold_go ConnectOne xs g = Ret g' \<and> fold_go ?f xs g = Ret g'"
    if "set xs \<subseteq> {..<n}" "grp_ok rand n g" for xs and g :: "('s, 'v) gs"
    using that
  proof (induction xs arbitrary: g)
    case (Cons x xs)
    obtain g' where g': "grp_connect x [0..<n] g = Ret g'" "grp_ok rand n g'"
      using grpi.connect_law[OF Cons.prems(2), of x "[0..<n]"] Cons.prems(1) by (auto simp: atLeast0LessThan)
    then show ?case using Cons.IH[OF _ g'(2)] Cons.prems len[OF Cons.prems(2)] by (simp add: ConnectOne_def grp_all_def)
  qed simp
  have "\<exists>g'. fold_go ConnectOne [0..<n] g = Ret g' \<and> fold_go ?f [0..<n] g = Ret g'"
    by (rule eq[OF _ assms]) auto
  then obtain g' where g': "fold_go ConnectOne [0..<n] g = Ret g'" "fold_go ?f [0..<n] g = Ret g'" by blast
  have "ConnectAll g = Ret g'" using g'(1) len[OF assms] by (simp add: ConnectAll_def)
  with grpi.connect_all[OF assms refl] g'(2) show ?thesis by auto
qed

definition part_ok :: "(nat \<Rightarrow> string) \<Rightarrow> tgid \<Rightarrow> nat \<Rightarrow> ('s, 'v) tsrv list \<Rightarrow> ('s, 'v) tstate \<Rightarrow> bool" where
  "part_ok rand gid n ss st \<longleftrightarrow> fresh_names rand st \<and> distinct (concat (map end_names ss))
     \<and> (\<forall>s\<in>set ss. sr_saved s = None \<and> sr_endNames s \<noteq> None \<and> length (end_names s) = n
         \<and> set (end_names s) \<subseteq> rand ` {..<t_draws st}
         \<and> (\<forall>b<n. rn_connections (t_net st) (end_names s ! b) = Some (Some (ServerName gid (int b)))))"

lemma end_names_Some [simp]:
  "end_names \<lparr>sr_saved = a, sr_svcs = b, sr_endNames = Some ns, sr_clntEnds = c\<rparr> = ns"
  by (simp add: end_names_def)

lemma make_servers_spec:
  assumes "part_ok rand gid n ss0 st"
  shows "\<exists>ss st'. make_servers rand gid n k st = Ret (ss, st') \<and> length ss = k \<and> part_ok rand gid n (ss0 @ ss) st'"
  using assms
proof (induction k arbitrary: ss0 st)
  case (Suc k)
  let ?names = "map rand [t_draws st..<t_draws st + n]"
  let ?s = "\<lparr>sr_saved = None, sr_svcs = None, sr_endNames = Some ?names, sr_clntEnds = ?names\<rparr>"
  obtain st1 where st1: "make_ends rand gid 0 n st = Ret (?names, st1)" "new_ends rand gid 0 n st st1"
    using make_ends_spec[of rand st gid 0 n] Suc.prems by (auto simp: part_ok_def)
  have inj: "inj rand" using Suc.prems by (simp add: part_ok_def fresh_names_def)
  have sep: "rand ` {..<t_draws st} \<inter> rand ` {t_draws st..<t_draws st + n} = {}" using inj by (auto simp: inj_eq)
  have grow: "rand ` {..<t_draws st} \<subseteq> rand ` {..<t_draws st1}" using st1(2) by (auto simp: new_ends_def)
  have "set ?names \<subseteq> rand ` {..<t_draws st1}" using st1(2) by (auto simp: new_ends_def)
  moreover have "distinct ?names" unfolding distinct_map using inj by (auto intro: inj_on_subset)
  moreover have "rn_connections (t_net st1) (end_names s ! b) = Some (Some (ServerName gid (int b)))"
    if s: "s \<in> set ss0" "b < n" for s b
  proof -
    have "end_names s ! b \<in> set (end_names s)" using Suc.prems s by (auto simp: part_ok_def)
    moreover have "set (end_names s) \<subseteq> rand ` {..<t_draws st}" using Suc.prems s by (simp add: part_ok_def)
    ultimately have "end_names s ! b \<in> rand ` {..<t_draws st}" by blast
    then have "end_names s ! b \<notin> rand ` {t_draws st..<t_draws st + n}" using sep by blast
    then show ?thesis using st1(2) Suc.prems s by (simp add: new_ends_def part_ok_def)
  qed
  moreover have old: "set (end_names s) \<subseteq> rand ` {..<t_draws st}" if "s \<in> set ss0" for s
    using Suc.prems that by (simp add: part_ok_def)
  moreover have "set (end_names s) \<subseteq> rand ` {..<t_draws st1}" if "s \<in> set ss0" for s
    using old[OF that] grow by simp
  moreover have "(\<Union>s\<in>set ss0. set (end_names s)) \<inter> set ?names = {}"
    using old sep by auto
  ultimately have "part_ok rand gid n (ss0 @ [?s]) st1"
    using Suc.prems st1(2) by (auto simp: part_ok_def new_ends_def)
  from Suc.IH[OF this] obtain ss st' where "make_servers rand gid n k st1 = Ret (ss, st')" "length ss = k"
    "part_ok rand gid n ((ss0 @ [?s]) @ ss) st'" by blast
  then show ?case using st1(1) by (auto simp: makeServer_def)
qed simp

lemma makeSrvGrp_ok:
  assumes "fresh_names rand st"
  shows "\<exists>g. makeSrvGrp rand gid n mks st = Ret g \<and> grp_ok rand n g"
proof -
  have "part_ok rand gid n [] st" using assms by (simp add: part_ok_def)
  from make_servers_spec[OF this, of n] obtain ss st' where ss: "make_servers rand gid n n st = Ret (ss, st')"
    "length ss = n" "part_ok rand gid n ss st'" by auto
  let ?g = "(\<lparr>sg_srvs = ss, sg_servernames = map (\<lambda>i. ServerName gid (int i)) [0..<n], sg_gid = gid,
       sg_connected = replicate n False, sg_mks = mks\<rparr>, st')"
  have "grp_ok rand n ?g"
    using ss(2,3) nth_mem[of _ ss] by (auto simp: grp_ok_def wf_group_def part_ok_def grp_end_def)
  then show ?thesis using ss(1) by (simp add: makeSrvGrp_def)
qed

text \<open>What a test does to a group, and the invariant along any sequence of it.\<close>

datatype gop = GStart nat | GShutdown nat | GConnectOne nat | GDisconnectAll nat | GConnectAll
  | GPartition "nat list" "nat list"

fun run_gop :: "(nat \<Rightarrow> string) \<Rightarrow> gop \<Rightarrow> ('s, 'v) gs \<Rightarrow> ('s, 'v) gs go" where
  "run_gop rand (GStart i) g = StartServer rand i g"
| "run_gop rand (GShutdown i) g = ShutdownServer i g"
| "run_gop rand (GConnectOne i) g = ConnectOne i g"
| "run_gop rand (GDisconnectAll i) g = DisconnectAll i g"
| "run_gop rand GConnectAll g = ConnectAll g"
| "run_gop rand (GPartition p1 p2) g = grp_Partition p1 p2 g"

fun gop_in_range :: "nat \<Rightarrow> gop \<Rightarrow> bool" where
  "gop_in_range n (GPartition p1 p2) \<longleftrightarrow> list_all (\<lambda>i. i < n) p1 \<and> list_all (\<lambda>i. i < n) p2 \<and> list_all (\<lambda>i. i \<notin> set p2) p1"
| "gop_in_range n GConnectAll \<longleftrightarrow> True"
| "gop_in_range n (GStart i) \<longleftrightarrow> i < n"
| "gop_in_range n (GShutdown i) \<longleftrightarrow> i < n"
| "gop_in_range n (GConnectOne i) \<longleftrightarrow> i < n"
| "gop_in_range n (GDisconnectAll i) \<longleftrightarrow> i < n"

lemma set_upt0: "set [0..<n] \<subseteq> {..<n}"
  by auto

lemma run_gop_ok:
  assumes ok: "grp_ok rand n g" and r: "gop_in_range n op"
  shows "\<exists>g'. run_gop rand op g = Ret g' \<and> grp_ok rand n g'"
proof -
  obtain sg st where g: "g = (sg, st)" by fastforce
  have len: "length (sg_srvs (fst g)) = n" using grp_ok_wf[OF ok] by (simp add: wf_group_def split: prod.splits)
  show ?thesis
  proof (cases op)
    case (GStart i)
    then show ?thesis using StartServer_spec[OF ok[unfolded g]] r g by (metis gop_in_range.simps(3) prod_cases3 run_gop.simps(1))
  next
    case (GShutdown i)
    then show ?thesis using ShutdownServer_spec[OF ok[unfolded g], of i] r g by auto
  next
    case (GConnectOne i)
    then show ?thesis using grpi.connect_law[OF ok _ set_upt0, of i] r len by (auto simp: ConnectOne_def grp_all_def)
  next
    case (GDisconnectAll i)
    then show ?thesis using grpi.disconnect_law[OF ok _ set_upt0, of i] r len by (auto simp: DisconnectAll_def grp_all_def)
  next
    case GConnectAll
    then show ?thesis using ConnectAll_spec[OF ok] by auto
  next
    case (GPartition p1 p2)
    then have "set p1 \<subseteq> {..<n}" "set p2 \<subseteq> {..<n}" "set p1 \<inter> set p2 = {}" using r by (auto simp: list_all_iff)
    from grpi.partition[OF ok this] show ?thesis using GPartition by (auto simp: grp_Partition_def)
  qed
qed

lemma run_gops_ok:
  assumes "grp_ok rand n g" "list_all (gop_in_range n) ops"
  shows "\<exists>g'. fold_go (run_gop rand) ops g = Ret g' \<and> grp_ok rand n g'"
proof (rule fold_go_rule[where P = "\<lambda>xs g. grp_ok rand n g"])
  show "\<exists>s'. run_gop rand x s = Ret s' \<and> grp_ok rand n s'" if "grp_ok rand n s" "x \<in> set ops" for x s
    using assms(2) that by (intro run_gop_ok) (simp_all add: list_all_iff)
qed (rule assms(1))

subsection \<open>Choosing a partition\<close>

text \<open>The loop of \<^verbatim>\<open>MakePartition\<close> fills the slots of the two slices in order.\<close>

lemma make_partition_loop_fill:
  assumes "j + length (filter (\<lambda>i. i \<noteq> l) is) \<le> length p1 + length p2"
  shows "\<exists>q1 q2. make_partition_loop l is j p1 p2 = Ret (q1, q2) \<and> length q1 = length p1 \<and> length q2 = length p2
    \<and> q1 @ q2 = take j (p1 @ p2) @ filter (\<lambda>i. i \<noteq> l) is @ drop (j + length (filter (\<lambda>i. i \<noteq> l) is)) (p1 @ p2)"
  using assms
proof (induction "is" arbitrary: j p1 p2)
  case (Cons i "is")
  have upd: "take (Suc j) (xs[j := i]) @ ys = take j xs @ i # ys" "drop (Suc (j + k)) (xs[j := i]) = drop (Suc (j + k)) xs"
    if "j < length xs" for xs ys k using that by (simp_all add: take_Suc_conv_app_nth)
  show ?case
  proof (cases "i = l")
    case True then show ?thesis using Cons by simp
  next
    case False
    show ?thesis
    proof (cases "j < length p1")
      case True
      then have "(p1 @ p2)[j := i] = p1[j := i] @ p2" by (simp add: list_update_append)
      with True False Cons.prems Cons.IH[of "Suc j" "p1[j := i]" p2] upd[of "p1 @ p2"]
      show ?thesis by (auto simp del: take_append drop_append)
    next
      case F: False
      then have "(p1 @ p2)[j := i] = p1 @ p2[j - length p1 := i]" by (simp add: list_update_append)
      with F False Cons.prems Cons.IH[of "Suc j" p1 "p2[j - length p1 := i]"] upd[of "p1 @ p2"]
      show ?thesis by (auto simp del: take_append drop_append)
    qed
  qed
qed (simp del: take_append drop_append)

lemma length_filter_neq_upt: "l < n \<Longrightarrow> length (filter (\<lambda>i. i \<noteq> l) [0..<n]) = n - 1"
  using distinct_remove1_removeAll[of "[0..<n]" l] length_remove1[of l "[0..<n]"]
  by (simp add: removeAll_filter_not_eq eq_commute[of l])

lemma MakePartition_fill:
  assumes "2 \<le> length (sg_srvs sg)" "l < length (sg_srvs sg)"
  shows "\<exists>p1 p2. MakePartition l sg = Ret (p1, p2) \<and> length p1 = length (sg_srvs sg) div 2 + 1
    \<and> length p2 = length (sg_srvs sg) div 2
    \<and> p1 @ p2 = filter (\<lambda>i. i \<noteq> l) [0..<length (sg_srvs sg)] @ (if even (length (sg_srvs sg)) then [0, l] else [l])"
proof -
  let ?n = "length (sg_srvs sg)"
  let ?a = "replicate (?n div 2 + 1) (0::nat) @ replicate (?n div 2) 0"
  have len: "length (filter (\<lambda>i. i \<noteq> l) [0..<?n]) = ?n - 1" using assms by (intro length_filter_neq_upt)
  obtain q1 q2 where q: "make_partition_loop l [0..<?n] 0 (replicate (?n div 2 + 1) 0) (replicate (?n div 2) 0) = Ret (q1, q2)"
      "length q1 = ?n div 2 + 1" "length q2 = ?n div 2" "q1 @ q2 = filter (\<lambda>i. i \<noteq> l) [0..<?n] @ drop (?n - 1) ?a"
  proof -
    have "0 + length (filter (\<lambda>i. i \<noteq> l) [0..<?n]) \<le> length (replicate (?n div 2 + 1) (0::nat)) + length (replicate (?n div 2) (0::nat))"
      unfolding len length_replicate by presburger
    from make_partition_loop_fill[OF this] that show ?thesis
      by (auto simp: len simp del: replicate.simps take_append drop_append replicate_Suc)
  qed
  have "drop (?n - 1) ?a = replicate (?n div 2 + 1 + ?n div 2 - (?n - 1)) 0"
    unfolding replicate_add[symmetric] drop_replicate ..
  also have "?n div 2 + 1 + ?n div 2 - (?n - 1) = (if even ?n then 2 else 1)" using assms by presburger
  finally have "drop (?n - 1) ?a = (if even ?n then [0, 0] else [0])" by (simp add: numeral_2_eq_2)
  then have "q1 @ butlast q2 @ [last q2] = filter (\<lambda>i. i \<noteq> l) [0..<?n] @ (if even ?n then [0, 0] else [0])"
    using q(3,4) assms by (subst append_butlast_last_id) auto
  then have "q1 @ butlast q2 = filter (\<lambda>i. i \<noteq> l) [0..<?n] @ (if even ?n then [0] else [])"
    by (auto split: if_splits dest: arg_cong[of _ _ butlast] simp: butlast_append)
  moreover have "q2[length q2 - 1 := l] = butlast q2 @ [l]"
    using q(3) assms by (metis append_butlast_last_id length_0_conv list_update_length length_butlast div_eq_0_iff leD zero_neq_numeral)
  ultimately have "q1 @ q2[length q2 - 1 := l] = filter (\<lambda>i. i \<noteq> l) [0..<?n] @ (if even ?n then [0, l] else [l])" by auto
  moreover have "q2 \<noteq> []" using q(3) assms by auto
  ultimately show ?thesis using q(1-3) by (simp add: MakePartition_def Let_def)
qed

subsection \<open>Properties\<close>

text \<open>A group of three servers whose start function serves the persisted bytes, for the examples.\<close>

definition ex_rand :: "nat \<Rightarrow> string" where
  "ex_rand k = itoa (int k)"

definition ex_mks :: "(persister, byte list) fstart" where
  "ex_mks ends gid i a ps = ([\<lparr>is_obj = a, is_type = ''Srv'', is_methods = []\<rparr>], ps, ps)"

definition ex_tstate :: "(persister, byte list) tstate" where
  "ex_tstate = \<lparr>t_net = MakeNetwork, t_heap = Map.empty, t_pers = Map.empty, t_fresh = 0, t_draws = 0, t_killed = []\<rparr>"

definition ex_grp :: "(persister, byte list) gs" where
  "ex_grp = (case makeSrvGrp ex_rand 0 3 ex_mks ex_tstate of Ret g \<Rightarrow> g)"

lemma ex_fresh: "fresh_names ex_rand ex_tstate"
  by (auto simp: fresh_names_def ex_rand_def ex_tstate_def MakeNetwork_def inj_def dest: itoa_inj)

lemma ex_grp_run: "makeSrvGrp ex_rand 0 3 ex_mks ex_tstate = Ret ex_grp"
  using makeSrvGrp_ok[OF ex_fresh, of 0 3 ex_mks] by (auto simp: ex_grp_def)

lemma ex_grp_ok: "grp_ok ex_rand 3 ex_grp"
  using makeSrvGrp_ok[OF ex_fresh, of 0 3 ex_mks] by (auto simp: ex_grp_def)

text \<open>
  Property C8: \<^verbatim>\<open>Partition\<close> splits the servers of a group. Given two disjoint lists of servers of a
  well-formed group it returns; afterwards every two servers of the same list are linked in both
  directions, no server of one list is linked to one of the other, every listed server counts as
  connected, and no other link has changed.
\<close>

theorem Partition_splits_the_group:
  assumes "wf_group n g" "set p1 \<subseteq> {..<n}" "set p2 \<subseteq> {..<n}" "set p1 \<inter> set p2 = {}"
  shows "\<exists>g'. grp_Partition p1 p2 g = Ret g' \<and> wf_group n g'
    \<and> grp_conn g' = (\<lambda>a. grp_conn g a \<or> a \<in> set p1 \<union> set p2)
    \<and> grp_link g' = (\<lambda>a b.
        if a \<in> set p1 \<and> b \<in> set p1 \<or> a \<in> set p2 \<and> b \<in> set p2 then True
        else if a \<in> set p1 \<and> b \<in> set p2 \<or> a \<in> set p2 \<and> b \<in> set p1 then False
        else grp_link g a b)"
  unfolding grp_Partition_def using assms by (rule grp.partition)

theorem Partition_splits_the_group_witness:
  "\<exists>g'. grp_Partition [0, 2] [1] ex_grp = Ret g' \<and> grp_link g' 0 2 \<and> grp_link g' 2 0 \<and> grp_link g' 1 1
     \<and> \<not> grp_link g' 0 1 \<and> \<not> grp_link g' 1 2"
  using Partition_splits_the_group[OF grp_ok_wf[OF ex_grp_ok], of "[0, 2]" "[1]"] by auto

text \<open>
  Property C31: \<^verbatim>\<open>MakePartition\<close> followed by \<^verbatim>\<open>Partition\<close> puts the leader into a minority: for a group
  with an odd number of at least three servers both return, the first list is a majority of the
  servers without the leader and fully linked, and no link joins the leader with it.
\<close>

theorem partition_isolates_leader:
  assumes "wf_group n g" "odd n" "3 \<le> n" "l < n"
  shows "\<exists>p1 p2 g'. MakePartition l (fst g) = Ret (p1, p2) \<and> grp_Partition p1 p2 g = Ret g'
    \<and> distinct p1 \<and> n < 2 * length p1 \<and> l \<notin> set p1
    \<and> (\<forall>a\<in>set p1. \<not> grp_link g' a l \<and> \<not> grp_link g' l a \<and> (\<forall>b\<in>set p1. grp_link g' a b))"
proof -
  have n: "length (sg_srvs (fst g)) = n" using assms(1) by (simp add: wf_group_def split: prod.splits)
  obtain p1 p2 where p: "MakePartition l (fst g) = Ret (p1, p2)" "length p1 = n div 2 + 1"
      "length p2 = n div 2" "p1 @ p2 = filter (\<lambda>i. i \<noteq> l) [0..<n] @ [l]"
    using MakePartition_fill[of "fst g" l] assms(2-4) n by auto
  have "p2 \<noteq> []" using p(3) assms(3) by auto
  then have l: "l = last p2" using p(4) by (metis last_append last_snoc)
  have dist: "distinct (p1 @ p2)" and sub: "set (p1 @ p2) \<subseteq> {..<n}" unfolding p(4) using assms(4) by auto
  then have "set p1 \<subseteq> {..<n}" "set p2 \<subseteq> {..<n}" "set p1 \<inter> set p2 = {}" by auto
  from grp.partition[OF assms(1) this] obtain g' where g': "grp_Partition p1 p2 g = Ret g'"
    "grp_link g' = (\<lambda>a b.
        if a \<in> set p1 \<and> b \<in> set p1 \<or> a \<in> set p2 \<and> b \<in> set p2 then True
        else if a \<in> set p1 \<and> b \<in> set p2 \<or> a \<in> set p2 \<and> b \<in> set p1 then False
        else grp_link g a b)"
    by (auto simp: grp_Partition_def)
  have "l \<in> set p2" "l \<notin> set p1" using l \<open>p2 \<noteq> []\<close> dist by auto
  moreover have "n < 2 * length p1" using p(2) by presburger
  ultimately show ?thesis using p(1) g' dist by (intro exI[of _ p1] exI[of _ p2] exI[of _ g']) auto
qed

theorem partition_isolates_leader_witness:
  "MakePartition 1 (fst ex_grp) = Ret ([0, 2], [1])
   \<and> (\<exists>g'. grp_Partition [0, 2] [1] ex_grp = Ret g' \<and> \<not> grp_link g' 0 1 \<and> \<not> grp_link g' 1 2 \<and> grp_link g' 0 2)"
proof -
  have "length (sg_srvs (fst ex_grp)) = 3"
    using wf_groupD(1)[of 3 "fst ex_grp" "snd ex_grp"] grp_ok_wf[OF ex_grp_ok] by simp
  then have "MakePartition 1 (fst ex_grp) = Ret ([0, 2], [1])"
    by (simp add: MakePartition_def upt_conv_Cons)
  with partition_isolates_leader[OF grp_ok_wf[OF ex_grp_ok], of 1] show ?thesis by auto
qed

text \<open>
  what \<^verbatim>\<open>MakePartition\<close> computes for every group. With fewer than two servers it panics.
  Otherwise the two lists hold one more than half and half of the servers, rounded down, and read
  one after the other all servers but the leader in order, then, for an even number of servers,
  server 0 a second time, then the leader: only for an odd number are the lists a partition.
\<close>

lemma MakePartition_layout:
  assumes "l < length (sg_srvs sg)"
  shows "if length (sg_srvs sg) < 2 then MakePartition l sg = Panic ''index out of range''
    else \<exists>p1 p2. MakePartition l sg = Ret (p1, p2) \<and> length p1 = length (sg_srvs sg) div 2 + 1
      \<and> length p2 = length (sg_srvs sg) div 2
      \<and> p1 @ p2 = filter (\<lambda>i. i \<noteq> l) [0..<length (sg_srvs sg)] @ (if even (length (sg_srvs sg)) then [0, l] else [l])"
proof (cases "length (sg_srvs sg) < 2")
  case True
  then have "length (sg_srvs sg) = 1" "l = 0" using assms by auto
  then show ?thesis by (simp add: MakePartition_def)
qed (use MakePartition_fill[of sg l] assms in auto)

text \<open>
  Property C9: a restarted server gets what was last persisted. Shut server \<open>i\<close> down, let its old
  instance go on and save anything to its old persister, then start it again: both operations
  return and keep the invariant, and the start function runs on a new persister that holds what the
  old one held when the server was shut down.
\<close>

theorem restart_passes_persisted_state:
  assumes ok: "grp_ok rand n (sg, st)" and i: "i < n"
    and saved: "sr_saved (sg_srvs sg ! i) = Some a" "t_pers st a = Some ps"
  shows "\<exists>sg1 st1 sg2 st2 ends p svcs state ps'. ShutdownServer i (sg, st) = Ret (sg1, st1)
    \<and> StartServer rand i (sg1, st1\<lparr>t_pers := (t_pers st1)(a \<mapsto> Save b c (the (t_pers st1 a)))\<rparr>) = Ret (sg2, st2)
    \<and> grp_ok rand n (sg2, st2) \<and> p \<noteq> a \<and> sr_saved (sg_srvs sg2 ! i) = Some p
    \<and> sg_mks sg ends (sg_gid sg) i p ps = (svcs, state, ps')
    \<and> sr_svcs (sg_srvs sg2 ! i) = Some svcs \<and> t_pers st2 p = Some ps'"
proof -
  obtain sg1 st1 where s1: "ShutdownServer i (sg, st) = Ret (sg1, st1)" "grp_ok rand n (sg1, st1)"
      "sg_gid sg1 = sg_gid sg" "sg_mks sg1 = sg_mks sg" "saved_state (sg1, st1) i = saved_state (sg, st) i"
      "a < t_fresh st" "sr_saved (sg_srvs sg1 ! i) = Some (t_fresh st)" "t_fresh st \<le> t_fresh st1"
    using ShutdownServer_spec[OF ok i] saved(1) by blast
  let ?st = "st1\<lparr>t_pers := (t_pers st1)(a \<mapsto> Save b c (the (t_pers st1 a)))\<rparr>"
  have ok1: "grp_ok rand n (sg1, ?st)" using s1(2,6,8) by (auto simp: grp_ok_def wf_group_def fresh_names_def)
  have ps: "saved_state (sg1, ?st) i = ps" using s1(5,6,7) saved by (simp add: saved_state_def)
  obtain svcs state ps' where mks: "sg_mks sg1 (map rand [t_draws ?st..<t_draws ?st + n]) (sg_gid sg1) i (t_fresh ?st)
      (saved_state (sg1, ?st) i) = (svcs, state, ps')" by (metis prod_cases3)
  from StartServer_spec[OF ok1 i mks] obtain sg2 st2 where s2: "StartServer rand i (sg1, ?st) = Ret (sg2, st2)"
      "grp_ok rand n (sg2, st2)" "sr_svcs (sg_srvs sg2 ! i) = Some svcs" "sr_saved (sg_srvs sg2 ! i) = Some (t_fresh ?st)"
      "t_pers st2 = (t_pers ?st)(t_fresh ?st \<mapsto> ps')" by blast
  have "t_fresh ?st \<noteq> a" "sg_mks sg (map rand [t_draws ?st..<t_draws ?st + n]) (sg_gid sg) i (t_fresh ?st) ps = (svcs, state, ps')"
    using s1(3,4,6,8) mks ps by simp_all
  then show ?thesis using s1(1) s2 by fastforce
qed

text \<open>A group of one running server that has persisted some bytes.\<close>

definition ex_sg :: "(persister, byte list) server_grp" where
  "ex_sg = \<lparr>sg_srvs = [\<lparr>sr_saved = Some 0, sr_svcs = Some [\<lparr>is_obj = 5, is_type = ''Srv'', is_methods = []\<rparr>],
       sr_endNames = Some [ex_rand 0], sr_clntEnds = [ex_rand 0]\<rparr>],
     sg_servernames = [ServerName 0 0], sg_gid = 0, sg_connected = [True], sg_mks = ex_mks\<rparr>"

definition ex_st :: "(persister, byte list) tstate" where
  "ex_st = ex_tstate\<lparr>t_net := Enable (ex_rand 0) True (AddServer (ServerName 0 0) 1
       (Connect (ex_rand 0) (ServerName 0 0) (MakeNetwork\<lparr>rn_ends := [ex_rand 0 \<mapsto> ex_rand 0]\<rparr>))),
     t_heap := [1 \<mapsto> MakeServer MakePersister], t_pers := [0 \<mapsto> Save (Some [1]) (Some [2]) MakePersister],
     t_fresh := 2, t_draws := 1\<rparr>"

lemma ex_sg_ok: "grp_ok ex_rand 1 (ex_sg, ex_st)"
proof -
  have inj: "inj ex_rand" using ex_fresh by (simp add: fresh_names_def)
  have "fresh_names ex_rand ex_st"
    using inj by (auto simp: fresh_names_def ex_st_def ex_tstate_def Enable_def AddServer_def Connect_def MakeNetwork_def inj_eq)
  then show ?thesis
    by (simp add: grp_ok_def wf_group_def ex_sg_def grp_end_def)
      (simp add: ex_st_def ex_tstate_def Enable_def AddServer_def Connect_def MakeNetwork_def)
qed

theorem restart_passes_persisted_state_witness:
  "\<exists>sg1 st1 sg2 st2 p svcs state ps'. ShutdownServer 0 (ex_sg, ex_st) = Ret (sg1, st1)
    \<and> StartServer ex_rand 0 (sg1, st1\<lparr>t_pers := (t_pers st1)(0 \<mapsto> Save (Some [7]) None (the (t_pers st1 0)))\<rparr>) = Ret (sg2, st2)
    \<and> p \<noteq> 0 \<and> sr_saved (sg_srvs sg2 ! 0) = Some p
    \<and> t_pers st2 p = Some \<lparr>ps_raftstate = Some [1], ps_snapshot = Some [2]\<rparr>"
proof -
  have "sr_saved (sg_srvs ex_sg ! 0) = Some 0" "t_pers ex_st 0 = Some \<lparr>ps_raftstate = Some [1], ps_snapshot = Some [2]\<rparr>"
    by (simp_all add: ex_sg_def ex_st_def Save_def clone_def bytes_of_def MakePersister_def)
  from restart_passes_persisted_state[OF ex_sg_ok _ this, of "Some [7]" None] show ?thesis
    by (auto simp: ex_sg_def ex_mks_def)
qed

text \<open>
  Property C32: \<^verbatim>\<open>ShutdownServer\<close> isolates a server. It returns and keeps the invariant; the server has
  no link to or from any server, its name leads to no server object (so that, by the network's
  semantics, no call reaches it), all its services have been told to stop, and the links between
  the other servers are as before.
\<close>

theorem shutdown_isolates_server:
  assumes "grp_ok rand n (sg, st)" "i < n"
  shows "\<exists>sg' st'. ShutdownServer i (sg, st) = Ret (sg', st') \<and> grp_ok rand n (sg', st')
    \<and> (\<forall>a b. grp_link (sg', st') a b \<longleftrightarrow> grp_link (sg, st) a b \<and> a \<noteq> i \<and> b \<noteq> i)
    \<and> lookup_server (t_net st') (ServerName (sg_gid sg) (int i)) = None
    \<and> sr_svcs (sg_srvs sg' ! i) = None
    \<and> (case sr_svcs (sg_srvs sg ! i) of None \<Rightarrow> True | Some svcs \<Rightarrow> is_obj ` set svcs \<subseteq> set (t_killed st'))"
  using ShutdownServer_spec[OF assms] by (cases "sr_svcs (sg_srvs sg ! i)") auto

theorem shutdown_isolates_server_witness:
  "\<exists>sg' st'. ShutdownServer 0 (ex_sg, ex_st) = Ret (sg', st') \<and> lookup_server (t_net st') (ServerName 0 0) = None
     \<and> 5 \<in> set (t_killed st')"
  using shutdown_isolates_server[OF ex_sg_ok, of 0] by (auto simp: ex_sg_def)

text \<open>
  Property C30: the invariant of groups. From any network whose names are not used up, making a group
  returns, any sequence of starts, shutdowns, connections, disconnections and partitions of its
  servers returns and keeps the invariant (every server has an end of its own name to each server
  of the group, connected to that server's name), and \<^verbatim>\<open>ConnectAll\<close> then links all servers.
\<close>

theorem group_runs_keep_invariant:
  assumes "fresh_names rand st" "list_all (gop_in_range n) ops"
  shows "\<exists>g g' g''. makeSrvGrp rand gid n mks st = Ret g \<and> fold_go (run_gop rand) ops g = Ret g' \<and> grp_ok rand n g'
    \<and> ConnectAll g' = Ret g'' \<and> (\<forall>a<n. \<forall>b<n. grp_link g'' a b)"
proof -
  obtain g where g: "makeSrvGrp rand gid n mks st = Ret g" "grp_ok rand n g" using makeSrvGrp_ok[OF assms(1)] by blast
  from run_gops_ok[OF g(2) assms(2)] obtain g' where g': "fold_go (run_gop rand) ops g = Ret g'" "grp_ok rand n g'" by blast
  with ConnectAll_spec[OF g'(2)] g(1) show ?thesis by blast
qed

theorem group_runs_keep_invariant_witness:
  "\<exists>g' g''. fold_go (run_gop ex_rand) [GStart 0, GStart 1, GStart 2, GConnectAll, GPartition [0] [1, 2], GShutdown 1, GStart 1] ex_grp = Ret g'
     \<and> ConnectAll g' = Ret g'' \<and> grp_link g'' 0 1 \<and> grp_link g'' 2 1"
  using group_runs_keep_invariant[OF ex_fresh, of 3 "[GStart 0, GStart 1, GStart 2, GConnectAll, GPartition [0] [1, 2], GShutdown 1, GStart 1]" 0 ex_mks]
    ex_grp_run by auto

end
