(* ===== verification/Tester_Clnts.thy ===== *)
theory Tester_Clnts
  imports Tester_Group
begin

text \<open>
  The client side of the test framework (\<^verbatim>\<open>tester1/clnts.go\<close>). A client lazily makes one end per
  server it calls; \<^verbatim>\<open>srvs\<close> says which servers it may reach (nil: all). Clients are shared through
  pointers and live in a heap. The lemmas show that a client that has been disconnected reaches no
  server whatever it calls, and that removing clients deletes exactly their ends.
\<close>

subsection \<open>One client\<close>

record clnt =
  cl_ends :: "(string, string) gomap"
  cl_srvs :: "string list option"

definition makeClntTo :: "string list option \<Rightarrow> clnt" where
  "makeClntTo srvs = \<lparr>cl_ends = [], cl_srvs = srvs\<rparr>"

definition allowedL :: "clnt \<Rightarrow> string \<Rightarrow> bool" where
  "allowedL c server = (case cl_srvs c of None \<Rightarrow> True | Some srvs \<Rightarrow> list_ex (\<lambda>n. n = server) srvs)"

definition clnt_makeEnd :: "(nat \<Rightarrow> string) \<Rightarrow> string \<Rightarrow> clnt \<times> ('s, 'v) tstate \<Rightarrow> (string \<times> clnt \<times> ('s, 'v) tstate) go" where
  "clnt_makeEnd rand server cs = (case cs of (c, st) \<Rightarrow>
     (case map_of (cl_ends c) server of
        Some e \<Rightarrow> Ret (e, c, st)
      | None \<Rightarrow> (let name = rand (t_draws st) in
          go_bind (MakeEnd name (t_net st)) (\<lambda>(e, net).
            Ret (e, c\<lparr>cl_ends := AList.update server e (cl_ends c)\<rparr>,
              st\<lparr>t_net := Enable name (allowedL c server) (Connect name server net), t_draws := Suc (t_draws st)\<rparr>)))))"

definition Clnt_Call :: "'v codec \<Rightarrow> nat \<times> nat \<times> nat \<Rightarrow> (nat \<Rightarrow> string) \<Rightarrow> string \<Rightarrow> string \<Rightarrow> 'v \<Rightarrow> 'v \<Rightarrow> clnt \<times> ('s, 'v) tstate \<Rightarrow>
    (bool \<times> 'v \<times> clnt \<times> ('s, 'v) tstate) go" where
  "Clnt_Call cd draws rand server meth args reply cs = go_bind (clnt_makeEnd rand server cs) (\<lambda>(e, c, st).
     go_bind (Call_alone cd draws e meth args reply (t_net st, t_heap st)) (\<lambda>(ok, v, net, heap).
       Ret (ok, v, c, st\<lparr>t_net := net, t_heap := heap\<rparr>)))"

definition clnt_ConnectAll :: "clnt \<times> ('s, 'v) tstate \<Rightarrow> clnt \<times> ('s, 'v) tstate" where
  "clnt_ConnectAll cs = (case cs of (c, st) \<Rightarrow>
     (c\<lparr>cl_srvs := None\<rparr>, fold (\<lambda>(srv, e). enable_end e True) (cl_ends c) st))"

definition clnt_ConnectTo :: "string list option \<Rightarrow> clnt \<times> ('s, 'v) tstate \<Rightarrow> clnt \<times> ('s, 'v) tstate" where
  "clnt_ConnectTo srvs cs = (case cs of (c0, st) \<Rightarrow> let c = c0\<lparr>cl_srvs := srvs\<rparr> in
     (c, fold (\<lambda>(srv, e) st. if allowedL c srv then enable_end e True st else st) (cl_ends c) st))"

definition clnt_Disconnect :: "string \<Rightarrow> clnt \<times> ('s, 'v) tstate \<Rightarrow> clnt \<times> ('s, 'v) tstate" where
  "clnt_Disconnect srv cs = (case cs of (c, st) \<Rightarrow>
     (c, fold (\<lambda>(s, e) st. if s = srv then enable_end e False st else st) (cl_ends c) st))"

definition clnt_DisconnectAll :: "clnt \<times> ('s, 'v) tstate \<Rightarrow> clnt \<times> ('s, 'v) tstate" where
  "clnt_DisconnectAll cs = (case cs of (c, st) \<Rightarrow>
     (c\<lparr>cl_srvs := Some []\<rparr>, fold (\<lambda>(srv, e). enable_end e False) (cl_ends c) st))"

definition clnt_remove :: "clnt \<Rightarrow> ('s, 'v) tstate \<Rightarrow> ('s, 'v) tstate go" where
  "clnt_remove c = fold_go (\<lambda>(srv, e) st. go_bind (DeleteEnd e (t_net st)) (\<lambda>net. Ret (st\<lparr>t_net := net\<rparr>))) (cl_ends c)"

subsection \<open>All clients of a test\<close>

text \<open>The set of clerks is nil once the test has been cleaned up.\<close>

record clnts =
  ks_objs :: "nat \<rightharpoonup> clnt"
  ks_next :: nat
  ks_clerks :: "nat list option"

definition makeClnts :: clnts where
  "makeClnts = \<lparr>ks_objs = Map.empty, ks_next = 0, ks_clerks = Some []\<rparr>"

definition clnts_makeEnd :: "(nat \<Rightarrow> string) \<Rightarrow> string \<Rightarrow> ('s, 'v) tstate \<Rightarrow> (string \<times> ('s, 'v) tstate) go" where
  "clnts_makeEnd rand servername st = (let name = rand (t_draws st) in
     go_bind (MakeEnd name (t_net st)) (\<lambda>(e, net).
       Ret (e, st\<lparr>t_net := Enable name True (Connect name servername net), t_draws := Suc (t_draws st)\<rparr>)))"

definition MakeClientTo :: "string list option \<Rightarrow> clnts \<Rightarrow> (nat \<times> clnts) go" where
  "MakeClientTo srvs ks = (case ks_clerks ks of
     None \<Rightarrow> Panic ''assignment to entry in nil map''
   | Some clerks \<Rightarrow> Ret (ks_next ks, ks\<lparr>ks_objs := (ks_objs ks)(ks_next ks \<mapsto> makeClntTo srvs),
       ks_next := Suc (ks_next ks), ks_clerks := Some (clerks @ [ks_next ks])\<rparr>))"

definition MakeClient :: "clnts \<Rightarrow> (nat \<times> clnts) go" where
  "MakeClient = MakeClientTo None"

definition remove_clerk :: "clnts \<Rightarrow> nat \<Rightarrow> ('s, 'v) tstate \<Rightarrow> ('s, 'v) tstate go" where
  "remove_clerk ks a st = (case ks_objs ks a of None \<Rightarrow> Panic ''nil pointer dereference'' | Some c \<Rightarrow> clnt_remove c st)"

definition clnts_cleanup :: "clnts \<times> ('s, 'v) tstate \<Rightarrow> (clnts \<times> ('s, 'v) tstate) go" where
  "clnts_cleanup kst = (case kst of (ks, st) \<Rightarrow>
     go_bind (fold_go (remove_clerk ks) (case ks_clerks ks of None \<Rightarrow> [] | Some clerks \<Rightarrow> clerks) st) (\<lambda>st'.
       Ret (ks\<lparr>ks_clerks := None\<rparr>, st')))"

definition DeleteClient :: "nat \<Rightarrow> clnts \<times> ('s, 'v) tstate \<Rightarrow> (clnts \<times> ('s, 'v) tstate) go" where
  "DeleteClient a kst = (case kst of (ks, st) \<Rightarrow>
     if (case ks_clerks ks of None \<Rightarrow> False | Some clerks \<Rightarrow> a \<in> set clerks) then
       go_bind (remove_clerk ks a st) (\<lambda>st'. Ret (ks\<lparr>ks_clerks := map_option (filter (\<lambda>b. b \<noteq> a)) (ks_clerks ks)\<rparr>, st'))
     else Ret (ks, st))"

text \<open>A client operation on the client at an address.\<close>

definition on_clnt :: "nat \<Rightarrow> (clnt \<times> ('s, 'v) tstate \<Rightarrow> clnt \<times> ('s, 'v) tstate) \<Rightarrow> clnts \<times> ('s, 'v) tstate \<Rightarrow> (clnts \<times> ('s, 'v) tstate) go" where
  "on_clnt a f kst = (case kst of (ks, st) \<Rightarrow> (case ks_objs ks a of
     None \<Rightarrow> Panic ''nil pointer dereference''
   | Some c \<Rightarrow> (case f (c, st) of (c', st') \<Rightarrow> Ret (ks\<lparr>ks_objs := (ks_objs ks)(a \<mapsto> c')\<rparr>, st'))))"

subsection \<open>A disconnected client\<close>

definition cut_off :: "clnt \<Rightarrow> ('s, 'v) tstate \<Rightarrow> bool" where
  "cut_off c st \<longleftrightarrow> cl_srvs c = Some [] \<and> (\<forall>(srv, e)\<in>set (cl_ends c). \<not> is_enabled (t_net st) e)"

lemma fold_enable_snd: "fold (\<lambda>(srv, e). enable_end e b) es st = enable_all b (map snd es) st"
  by (induction es arbitrary: st) (auto simp: enable_all_def)

lemma clnt_DisconnectAll_eq:
  "clnt_DisconnectAll (c, st) = (c\<lparr>cl_srvs := Some []\<rparr>, enable_all False (map snd (cl_ends c)) st)"
  by (simp add: clnt_DisconnectAll_def fold_enable_snd)

lemma clnt_ConnectAll_eq:
  "clnt_ConnectAll (c, st) = (c\<lparr>cl_srvs := None\<rparr>, enable_all True (map snd (cl_ends c)) st)"
  by (simp add: clnt_ConnectAll_def fold_enable_snd)

lemma DisconnectAll_cut_off: "clnt_DisconnectAll (c, st) = (c', st') \<Longrightarrow> cut_off c' st'"
  by (force simp: clnt_DisconnectAll_eq cut_off_def is_enabled_enable_all split: if_split_asm)

lemma fresh_names_enable_all [simp]: "fresh_names rand (enable_all b es st) = fresh_names rand st"
  by (simp add: fresh_names_def)

lemma rn_done_enable_all [simp]: "rn_done (t_net (enable_all b es st)) = rn_done (t_net st)"
  by (induction es arbitrary: st) (simp_all add: enable_all_def enable_end_def Enable_def)

text \<open>What making an end does: nothing when there is one, else a new end of a new name.\<close>

lemma clnt_makeEnd_cases:
  assumes "fresh_names rand st"
  shows "(\<exists>e. map_of (cl_ends c) server = Some e \<and> clnt_makeEnd rand server (c, st) = Ret (e, c, st))
    \<or> (map_of (cl_ends c) server = None \<and> (\<exists>st'. clnt_makeEnd rand server (c, st) =
         Ret (rand (t_draws st), c\<lparr>cl_ends := cl_ends c @ [(server, rand (t_draws st))]\<rparr>, st')
       \<and> fresh_names rand st' \<and> t_draws st' = Suc (t_draws st) \<and> t_heap st' = t_heap st
       \<and> rn_done (t_net st') = rn_done (t_net st)
       \<and> rn_ends (t_net st') = (rn_ends (t_net st))(rand (t_draws st) \<mapsto> rand (t_draws st))
       \<and> (\<forall>e. is_enabled (t_net st') e = (if e = rand (t_draws st) then allowedL c server else is_enabled (t_net st) e))))"
proof (cases "map_of (cl_ends c) server")
  case None
  then have "AList.update server (rand (t_draws st)) (cl_ends c) = cl_ends c @ [(server, rand (t_draws st))]"
    by (intro alist_update_fresh) (simp add: map_of_eq_None_iff)
  then show ?thesis
    using None assms by (auto simp: clnt_makeEnd_def MakeEnd_def Enable_def Connect_def fresh_names_def is_enabled_def inj_eq Let_def)
qed (simp add: clnt_makeEnd_def)

lemma cut_off_call:
  assumes "cut_off c st" "fresh_names rand st" "\<not> rn_done (t_net st)" "cd_enc cd args = Some b"
  shows "\<exists>c' st'. Clnt_Call cd draws rand server meth args reply (c, st) = Ret (False, reply, c', st')
    \<and> t_heap st' = t_heap st \<and> cut_off c' st' \<and> fresh_names rand st' \<and> \<not> rn_done (t_net st')"
proof -
  have "\<exists>e c' st'. clnt_makeEnd rand server (c, st) = Ret (e, c', st') \<and> \<not> is_enabled (t_net st') e
    \<and> t_heap st' = t_heap st \<and> cut_off c' st' \<and> fresh_names rand st' \<and> \<not> rn_done (t_net st')"
    using clnt_makeEnd_cases[OF assms(2), of c server]
  proof (elim disjE exE conjE)
    fix e assume "map_of (cl_ends c) server = Some e" "clnt_makeEnd rand server (c, st) = Ret (e, c, st)"
    moreover from this(1) have "\<not> is_enabled (t_net st) e" using assms(1) by (auto simp: cut_off_def dest: map_of_SomeD)
    ultimately show ?thesis using assms by blast
  next
    fix st' assume st': "clnt_makeEnd rand server (c, st) = Ret (rand (t_draws st), c\<lparr>cl_ends := cl_ends c @ [(server, rand (t_draws st))]\<rparr>, st')"
      "fresh_names rand st'" "t_heap st' = t_heap st" "rn_done (t_net st') = rn_done (t_net st)"
      "\<forall>e. is_enabled (t_net st') e = (if e = rand (t_draws st) then allowedL c server else is_enabled (t_net st) e)"
    have "\<not> allowedL c server" using assms(1) by (simp add: cut_off_def allowedL_def)
    then have "cut_off (c\<lparr>cl_ends := cl_ends c @ [(server, rand (t_draws st))]\<rparr>) st'" "\<not> is_enabled (t_net st') (rand (t_draws st))"
      using assms(1) st'(5) by (auto simp: cut_off_def)
    then show ?thesis using st' assms(3) by auto
  qed
  then obtain e c' st' where m: "clnt_makeEnd rand server (c, st) = Ret (e, c', st')" "\<not> is_enabled (t_net st') e"
    "t_heap st' = t_heap st" "cut_off c' st'" "fresh_names rand st'" "\<not> rn_done (t_net st')" by blast
  let ?req = "\<lparr>rq_endname = e, rq_svcMeth = meth, rq_args = b\<rparr>"
  let ?st = "st'\<lparr>t_net := accept_call ?req (t_net st'), t_heap := t_heap st'\<rparr>"
  have "Call_alone cd draws e meth args reply (t_net st', t_heap st') = Ret (False, reply, accept_call ?req (t_net st'), t_heap st')"
    using m assms(4) by (intro Call_alone_unreachable) auto
  then have "Clnt_Call cd draws rand server meth args reply (c, st) = Ret (False, reply, c', ?st)"
    using m(1) by (simp add: Clnt_Call_def)
  moreover have "cut_off c' ?st \<and> fresh_names rand ?st \<and> \<not> rn_done (t_net ?st)"
    using m by (simp add: cut_off_def fresh_names_def accept_call_def is_enabled_def)
  ultimately show ?thesis using m(3) by auto
qed

text \<open>A sequence of calls: the results are collected.\<close>

definition run_calls :: "'v codec \<Rightarrow> (nat \<Rightarrow> string) \<Rightarrow> 'v \<Rightarrow> ((nat \<times> nat \<times> nat) \<times> string \<times> string \<times> 'v) list \<Rightarrow>
    (bool \<times> 'v) list \<times> clnt \<times> ('s, 'v) tstate \<Rightarrow> ((bool \<times> 'v) list \<times> clnt \<times> ('s, 'v) tstate) go" where
  "run_calls cd rand reply = fold_go (\<lambda>(draws, server, meth, args) (rs, cs).
     go_bind (Clnt_Call cd draws rand server meth args reply cs) (\<lambda>(ok, v, cs'). Ret (rs @ [(ok, v)], cs')))"

lemma cut_off_calls:
  assumes "cut_off c st" "fresh_names rand st" "\<not> rn_done (t_net st)" "list_all (\<lambda>(d, s, m, args). cd_enc cd args \<noteq> None) calls"
  shows "\<exists>c' st'. run_calls cd rand reply calls ([], c, st) = Ret (replicate (length calls) (False, reply), c', st')
    \<and> t_heap st' = t_heap st"
proof -
  let ?P = "\<lambda>xs (rs, c', st'). rs = replicate (length xs) (False, reply) \<and> t_heap st' = t_heap st \<and> cut_off c' st'
    \<and> fresh_names rand st' \<and> \<not> rn_done (t_net st')"
  have "\<exists>r. run_calls cd rand reply calls ([], c, st) = Ret r \<and> ?P calls r"
    unfolding run_calls_def
  proof (rule fold_go_rule)
    show "?P [] ([], c, st)" using assms(1-3) by simp
  next
    fix xs :: "((nat \<times> nat \<times> nat) \<times> string \<times> string \<times> 'b) list" and x s
    assume P: "?P xs s" and x: "x \<in> set calls"
    obtain rs c1 st1 where s: "s = (rs, c1, st1)" by (cases s)
    obtain d sv m args where xe: "x = (d, sv, m, args)" by (cases x)
    obtain b where "cd_enc cd args = Some b" using assms(4) x xe by (auto simp: list_all_iff)
    then obtain c2 st2 where "Clnt_Call cd d rand sv m args reply (c1, st1) = Ret (False, reply, c2, st2)"
      "t_heap st2 = t_heap st1" "cut_off c2 st2" "fresh_names rand st2" "\<not> rn_done (t_net st2)"
      using cut_off_call[of c1 st1 rand cd args b d sv m reply] P s by auto
    then show "\<exists>s'. (case x of (draws, server, meth, args) \<Rightarrow> \<lambda>(rs, cs).
        go_bind (Clnt_Call cd draws rand server meth args reply cs) (\<lambda>(ok, v, cs'). Ret (rs @ [(ok, v)], cs'))) s = Ret s' \<and> ?P (xs @ [x]) s'"
      using P s xe by (simp add: replicate_append_same)
  qed
  then show ?thesis by auto
qed

subsection \<open>Removing clients\<close>

definition ends_of :: "clnts \<Rightarrow> nat \<Rightarrow> string list" where
  "ends_of ks a = (case ks_objs ks a of None \<Rightarrow> [] | Some c \<Rightarrow> map snd (cl_ends c))"

definition clerks_of :: "clnts \<Rightarrow> nat list" where
  "clerks_of ks = (case ks_clerks ks of None \<Rightarrow> [] | Some clerks \<Rightarrow> clerks)"

text \<open>The ends of the clients in the test exist and no two of them share a name.\<close>

definition clnts_ok :: "(nat \<Rightarrow> string) \<Rightarrow> clnts \<times> ('s, 'v) tstate \<Rightarrow> bool" where
  "clnts_ok rand kst \<longleftrightarrow> (case kst of (ks, st) \<Rightarrow> fresh_names rand st \<and> distinct (clerks_of ks)
     \<and> (\<forall>a\<in>set (clerks_of ks). a < ks_next ks \<and> ks_objs ks a \<noteq> None \<and> distinct (ends_of ks a)
          \<and> (\<forall>e\<in>set (ends_of ks a). rn_ends (t_net st) e \<noteq> None \<and> e \<in> rand ` {..<t_draws st})
          \<and> (\<forall>b\<in>set (clerks_of ks). a \<noteq> b \<longrightarrow> set (ends_of ks a) \<inter> set (ends_of ks b) = {})))"

lemma clnt_remove_ends:
  assumes "distinct (map snd (cl_ends c))" "\<forall>e\<in>set (map snd (cl_ends c)). rn_ends (t_net st) e \<noteq> None"
  shows "\<exists>st'. clnt_remove c st = Ret st' \<and> rn_ends (t_net st') = rn_ends (t_net st) |` (- set (map snd (cl_ends c)))
    \<and> t_draws st' = t_draws st"
  using assms unfolding clnt_remove_def
proof (induction "cl_ends c" arbitrary: c st)
  case (Cons x es)
  obtain srv e where x: "x = (srv, e)" by fastforce
  note ends = Cons.hyps(2)[symmetric, unfolded x]
  let ?net = "(t_net st)\<lparr>rn_ends := (rn_ends (t_net st))(e := None), rn_enabled := (rn_enabled (t_net st))(e := None),
      rn_connections := (rn_connections (t_net st))(e := None)\<rparr>"
  have d: "DeleteEnd e (t_net st) = Ret ?net" using Cons.prems(2) ends by (simp add: DeleteEnd_def)
  have "distinct (map snd es)" "\<forall>e'\<in>set (map snd es). rn_ends ?net e' \<noteq> None"
    using Cons.prems ends by auto
  with Cons.hyps(1)[of "c\<lparr>cl_ends := es\<rparr>" "st\<lparr>t_net := ?net\<rparr>"] obtain st' where
    "fold_go (\<lambda>(srv, e) st. go_bind (DeleteEnd e (t_net st)) (\<lambda>net. Ret (st\<lparr>t_net := net\<rparr>))) es (st\<lparr>t_net := ?net\<rparr>) = Ret st'"
    "rn_ends (t_net st') = rn_ends ?net |` (- set (map snd es))" "t_draws st' = t_draws st" by auto
  then show ?case using d ends by (auto simp: restrict_map_def fun_eq_iff)
qed (simp add: restrict_map_def)

lemma remove_clerks_ends:
  assumes "distinct as" "\<forall>a\<in>set as. ks_objs ks a \<noteq> None \<and> distinct (ends_of ks a)
      \<and> (\<forall>e\<in>set (ends_of ks a). rn_ends (t_net st) e \<noteq> None) \<and> (\<forall>b\<in>set as. a \<noteq> b \<longrightarrow> set (ends_of ks a) \<inter> set (ends_of ks b) = {})"
  shows "\<exists>st'. fold_go (remove_clerk ks) as st = Ret st' \<and> t_draws st' = t_draws st
    \<and> rn_ends (t_net st') = rn_ends (t_net st) |` (- (\<Union>a\<in>set as. set (ends_of ks a)))"
  using assms
proof (induction as arbitrary: st)
  case (Cons a as)
  obtain c where c: "ks_objs ks a = Some c" using Cons.prems(2) by auto
  have e: "ends_of ks a = map snd (cl_ends c)" using c by (simp add: ends_of_def)
  obtain st1 where st1: "clnt_remove c st = Ret st1" "rn_ends (t_net st1) = rn_ends (t_net st) |` (- set (ends_of ks a))"
    "t_draws st1 = t_draws st"
    using clnt_remove_ends[of c st] Cons.prems(2) e by auto
  have "\<forall>b\<in>set as. \<forall>e\<in>set (ends_of ks b). rn_ends (t_net st1) e \<noteq> None"
    using Cons.prems unfolding st1(2) by (fastforce simp: restrict_map_def)
  then have "\<exists>st'. fold_go (remove_clerk ks) as st1 = Ret st' \<and> t_draws st' = t_draws st1
    \<and> rn_ends (t_net st') = rn_ends (t_net st1) |` (- (\<Union>a\<in>set as. set (ends_of ks a)))"
    using Cons.prems by (intro Cons.IH) auto
  then obtain st' where "fold_go (remove_clerk ks) as st1 = Ret st'" "t_draws st' = t_draws st1"
    "rn_ends (t_net st') = rn_ends (t_net st1) |` (- (\<Union>a\<in>set as. set (ends_of ks a)))" by blast
  moreover have "remove_clerk ks a st = Ret st1" using st1(1) c by (simp add: remove_clerk_def)
  ultimately show ?case using st1 by (simp add: Compl_Un)
qed (simp add: restrict_map_def)

text \<open>What a test does with its clients; an address stands for the client it names.\<close>

datatype kop = KMake "string list option" | KEnd nat string | KConnectAll nat | KConnectTo nat "string list option"
  | KDisconnect nat string | KDisconnectAll nat | KDelete nat

fun run_kop :: "(nat \<Rightarrow> string) \<Rightarrow> kop \<Rightarrow> clnts \<times> ('s, 'v) tstate \<Rightarrow> (clnts \<times> ('s, 'v) tstate) go" where
  "run_kop rand (KMake srvs) (ks, st) = go_bind (MakeClientTo srvs ks) (\<lambda>(a, ks'). Ret (ks', st))"
| "run_kop rand (KEnd a server) (ks, st) = (case ks_objs ks a of
     None \<Rightarrow> Panic ''nil pointer dereference''
   | Some c \<Rightarrow> go_bind (clnt_makeEnd rand server (c, st)) (\<lambda>(e, c', st'). Ret (ks\<lparr>ks_objs := (ks_objs ks)(a \<mapsto> c')\<rparr>, st')))"
| "run_kop rand (KConnectAll a) kst = on_clnt a clnt_ConnectAll kst"
| "run_kop rand (KConnectTo a srvs) kst = on_clnt a (clnt_ConnectTo srvs) kst"
| "run_kop rand (KDisconnect a srv) kst = on_clnt a (clnt_Disconnect srv) kst"
| "run_kop rand (KDisconnectAll a) kst = on_clnt a clnt_DisconnectAll kst"
| "run_kop rand (KDelete a) kst = DeleteClient a kst"

fun kop_client :: "kop \<Rightarrow> nat option" where
  "kop_client (KMake srvs) = None"
| "kop_client (KEnd a s) = Some a"
| "kop_client (KConnectAll a) = Some a"
| "kop_client (KConnectTo a s) = Some a"
| "kop_client (KDisconnect a s) = Some a"
| "kop_client (KDisconnectAll a) = Some a"
| "kop_client (KDelete a) = None"

definition clnts_run_ok :: "(nat \<Rightarrow> string) \<Rightarrow> clnts \<times> ('s, 'v) tstate \<Rightarrow> bool" where
  "clnts_run_ok rand kst \<longleftrightarrow> clnts_ok rand kst \<and> ks_clerks (fst kst) \<noteq> None
     \<and> (\<forall>a<ks_next (fst kst). ks_objs (fst kst) a \<noteq> None)"

text \<open>The operations that only enable and disable ends.\<close>

lemma fold_enable_if:
  "\<exists>es'. fold (\<lambda>(s, e) st. if P s then enable_end e b st else st) es st = enable_all b es' st"
proof (induction es arbitrary: st)
  case Nil then show ?case by (auto simp: enable_all_def intro: exI[of _ "[]"])
next
  case (Cons x es)
  obtain s e where x: "x = (s, e)" by fastforce
  from Cons[of "if P s then enable_end e b st else st"] obtain es' where
    "fold (\<lambda>(s, e) st. if P s then enable_end e b st else st) (x # es) st = enable_all b es' (if P s then enable_end e b st else st)"
    by (auto simp: x)
  then show ?case by (cases "P s") (auto simp: enable_all_def intro: exI[of _ "e # es'"] exI[of _ es'])
qed

lemma clnt_link_ops:
  assumes "f \<in> {clnt_ConnectAll, clnt_ConnectTo srvs, clnt_Disconnect srv, clnt_DisconnectAll}"
  shows "\<exists>c' b es. f (c, st) = (c', enable_all b es st) \<and> cl_ends c' = cl_ends c"
proof -
  obtain es1 where "fold (\<lambda>(s, e) st. if allowedL (c\<lparr>cl_srvs := srvs\<rparr>) s then enable_end e True st else st) (cl_ends c) st = enable_all True es1 st"
    using fold_enable_if by blast
  then have "clnt_ConnectTo srvs (c, st) = (c\<lparr>cl_srvs := srvs\<rparr>, enable_all True es1 st)" by (simp add: clnt_ConnectTo_def)
  moreover obtain es2 where "fold (\<lambda>(s, e) st. if s = srv then enable_end e False st else st) (cl_ends c) st = enable_all False es2 st"
    using fold_enable_if[of "\<lambda>s. s = srv"] by blast
  then have "clnt_Disconnect srv (c, st) = (c, enable_all False es2 st)" by (simp add: clnt_Disconnect_def)
  ultimately show ?thesis using assms clnt_ConnectAll_eq[of c st] clnt_DisconnectAll_eq[of c st] by fastforce
qed

lemma clnts_ok_same_ends:
  assumes "clnts_run_ok rand (ks, st)" "ks_objs ks a = Some c" "cl_ends c' = cl_ends c"
  shows "clnts_run_ok rand (ks\<lparr>ks_objs := (ks_objs ks)(a \<mapsto> c')\<rparr>, enable_all b es st)"
proof -
  have "ends_of (ks\<lparr>ks_objs := (ks_objs ks)(a \<mapsto> c')\<rparr>) = ends_of ks"
    using assms(2,3) by (simp add: ends_of_def fun_eq_iff)
  then show ?thesis using assms(1) by (auto simp: clnts_run_ok_def clnts_ok_def clerks_of_def)
qed

lemma on_clnt_ok:
  assumes ok: "clnts_run_ok rand (ks, st)" and a: "a < ks_next ks"
    and f: "f \<in> {clnt_ConnectAll, clnt_ConnectTo srvs, clnt_Disconnect srv, clnt_DisconnectAll}"
  shows "\<exists>kst'. on_clnt a f (ks, st) = Ret kst' \<and> clnts_run_ok rand kst' \<and> ks_next (fst kst') = ks_next ks"
proof -
  obtain c where c: "ks_objs ks a = Some c" using ok a by (auto simp: clnts_run_ok_def)
  from clnt_link_ops[OF f, of c st] obtain c' b es where "f (c, st) = (c', enable_all b es st)" "cl_ends c' = cl_ends c" by blast
  then show ?thesis using c clnts_ok_same_ends[OF ok c] by (simp add: on_clnt_def)
qed

lemma clnts_disjoint:
  assumes "clnts_run_ok rand (ks, st)" "x \<in> set (ends_of ks a)" "x \<in> set (ends_of ks b)" "a \<noteq> b"
    "a \<in> set (clerks_of ks)" "b \<in> set (clerks_of ks)"
  shows False
  using assms unfolding clnts_run_ok_def clnts_ok_def prod.case by (metis disjoint_iff)

lemma clnt_end_ok:
  assumes ok: "clnts_run_ok rand (ks, st)" and a: "a < ks_next ks"
  shows "\<exists>kst'. run_kop rand (KEnd a server) (ks, st) = Ret kst' \<and> clnts_run_ok rand kst' \<and> ks_next (fst kst') = ks_next ks"
proof -
  obtain c where c: "ks_objs ks a = Some c" using ok a by (auto simp: clnts_run_ok_def)
  have fr: "fresh_names rand st" using ok by (simp add: clnts_run_ok_def clnts_ok_def)
  then have inj: "inj rand" by (simp add: fresh_names_def)
  from clnt_makeEnd_cases[OF fr, of c server] show ?thesis
  proof (elim disjE exE conjE)
    fix e assume "clnt_makeEnd rand server (c, st) = Ret (e, c, st)"
    moreover have "ks\<lparr>ks_objs := (ks_objs ks)(a \<mapsto> c)\<rparr> = ks" using c by (cases ks) (auto simp: fun_upd_idem)
    ultimately show ?thesis using c ok by simp
  next
    let ?n = "rand (t_draws st)"
    let ?c = "c\<lparr>cl_ends := cl_ends c @ [(server, ?n)]\<rparr>"
    let ?ks = "ks\<lparr>ks_objs := (ks_objs ks)(a \<mapsto> ?c)\<rparr>"
    fix st' assume st': "clnt_makeEnd rand server (c, st) = Ret (?n, ?c, st')" "fresh_names rand st'"
      "t_draws st' = Suc (t_draws st)" "rn_ends (t_net st') = (rn_ends (t_net st))(?n \<mapsto> ?n)"
    have ends: "ends_of ?ks b = ends_of ks b @ (if b = a then [?n] else [])" for b
      using c by (simp add: ends_of_def)
    have new: "?n \<notin> set (ends_of ks b)" if "b \<in> set (clerks_of ks)" for b
      using ok that inj by (fastforce simp: clnts_run_ok_def clnts_ok_def inj_eq)
    have "clerks_of ?ks = clerks_of ks" by (simp add: clerks_of_def)
    then have "clnts_ok rand (?ks, st')"
      using ok st'(2-4) new unfolding clnts_run_ok_def clnts_ok_def by (auto simp: ends lessThan_Suc dest: clnts_disjoint[OF ok])
    then have "clnts_run_ok rand (?ks, st')" using ok by (simp add: clnts_run_ok_def)
    then show ?thesis using c st'(1) by simp
  qed
qed

lemma clnt_make_ok:
  assumes ok: "clnts_run_ok rand (ks, st)"
  shows "\<exists>kst'. run_kop rand (KMake srvs) (ks, st) = Ret kst' \<and> clnts_run_ok rand kst' \<and> ks_next ks \<le> ks_next (fst kst')"
proof -
  obtain clerks where cl: "ks_clerks ks = Some clerks" using ok by (auto simp: clnts_run_ok_def)
  let ?ks = "ks\<lparr>ks_objs := (ks_objs ks)(ks_next ks \<mapsto> makeClntTo srvs), ks_next := Suc (ks_next ks), ks_clerks := Some (clerks @ [ks_next ks])\<rparr>"
  have lt: "a < ks_next ks" if "a \<in> set clerks" for a using ok that cl by (auto simp: clnts_run_ok_def clnts_ok_def clerks_of_def)
  have ends: "ends_of ?ks a = ends_of ks a" "a \<noteq> ks_next ks" if "a \<in> set clerks" for a
    using lt[OF that] by (simp_all add: ends_of_def)
  have new: "ends_of ?ks (ks_next ks) = []" by (simp add: ends_of_def makeClntTo_def)
  have c: "clerks_of ?ks = clerks @ [ks_next ks]" "clerks_of ks = clerks" using cl by (simp_all add: clerks_of_def)
  have "clnts_ok rand (?ks, st)"
    using ok unfolding clnts_run_ok_def clnts_ok_def c prod.case fst_conv
    by (auto simp: new ends less_Suc_eq dest: lt)
  then have "clnts_run_ok rand (?ks, st)" using ok by (simp add: clnts_run_ok_def less_Suc_eq)
  then show ?thesis using cl by (simp add: MakeClientTo_def)
qed

lemma clnt_delete_ok:
  assumes ok: "clnts_run_ok rand (ks, st)"
  shows "\<exists>kst'. run_kop rand (KDelete a) (ks, st) = Ret kst' \<and> clnts_run_ok rand kst' \<and> ks_next (fst kst') = ks_next ks"
proof (cases "a \<in> set (clerks_of ks)")
  case True
  obtain clerks where cl: "ks_clerks ks = Some clerks" using ok by (auto simp: clnts_run_ok_def)
  obtain st' where st': "fold_go (remove_clerk ks) [a] st = Ret st'" "t_draws st' = t_draws st"
      "rn_ends (t_net st') = rn_ends (t_net st) |` (- set (ends_of ks a))"
    using remove_clerks_ends[of "[a]" ks st] ok True by (auto simp: clnts_run_ok_def clnts_ok_def)
  let ?ks = "ks\<lparr>ks_clerks := Some (filter (\<lambda>b. b \<noteq> a) clerks)\<rparr>"
  have e: "ends_of ?ks = ends_of ks" by (simp add: ends_of_def fun_eq_iff)
  have c: "clerks_of ?ks = filter (\<lambda>b. b \<noteq> a) (clerks_of ks)" using cl by (simp add: clerks_of_def)
  have rm: "rn_ends (t_net st') x \<noteq> None" if "b \<in> set (clerks_of ks)" "b \<noteq> a" "x \<in> set (ends_of ks b)" for b x
    using ok True that unfolding st'(3) by (fastforce simp: clnts_run_ok_def clnts_ok_def restrict_map_def)
  have "fresh_names rand st'" using ok st'(2,3) by (auto simp: clnts_run_ok_def clnts_ok_def fresh_names_def restrict_map_def)
  then have "clnts_run_ok rand (?ks, st')"
    using ok st'(2) rm cl unfolding clnts_run_ok_def clnts_ok_def prod.case fst_conv e c
    by (auto dest: clnts_disjoint[OF ok])
  then show ?thesis using st'(1) True cl by (auto simp: DeleteClient_def clerks_of_def go_simps)
next
  case False
  then show ?thesis using ok by (auto simp: DeleteClient_def clerks_of_def clnts_run_ok_def split: option.splits)
qed

text \<open>Addresses of clients that exist when an operation runs; making one adds the next address.\<close>

fun kops_ok :: "nat \<Rightarrow> kop list \<Rightarrow> bool" where
  "kops_ok n [] \<longleftrightarrow> True"
| "kops_ok n (op # ops) \<longleftrightarrow> (case kop_client op of None \<Rightarrow> True | Some a \<Rightarrow> a < n)
     \<and> kops_ok (case op of KMake _ \<Rightarrow> Suc n | _ \<Rightarrow> n) ops"

lemma run_kops_ok:
  assumes "clnts_run_ok rand kst" "kops_ok (ks_next (fst kst)) ops"
  shows "\<exists>kst'. fold_go (run_kop rand) ops kst = Ret kst' \<and> clnts_run_ok rand kst'"
  using assms
proof (induction ops arbitrary: kst)
  case (Cons op ops)
  obtain ks st where k: "kst = (ks, st)" by fastforce
  have "\<exists>kst'. run_kop rand op kst = Ret kst' \<and> clnts_run_ok rand kst'
      \<and> ks_next (fst kst') = (case op of KMake _ \<Rightarrow> Suc (ks_next ks) | _ \<Rightarrow> ks_next ks)"
  proof (cases op)
    case (KMake srvs)
    with clnt_make_ok[of rand ks st srvs] Cons.prems(1) k show ?thesis
      by (auto simp: MakeClientTo_def split: option.splits)
  next
    case (KConnectTo a srvs)
    then show ?thesis using Cons.prems k on_clnt_ok[of rand ks st a "clnt_ConnectTo srvs" srvs] by simp
  next
    case (KDisconnect a srv)
    then show ?thesis using Cons.prems k on_clnt_ok[of rand ks st a "clnt_Disconnect srv" _ srv] by simp
  qed (use Cons.prems k on_clnt_ok[of rand ks st] clnt_end_ok[of rand ks st] clnt_delete_ok[of rand ks st] in \<open>auto simp del: run_kop.simps(2)\<close>)
  then obtain kst' where kst': "run_kop rand op kst = Ret kst'" "clnts_run_ok rand kst'"
    "ks_next (fst kst') = (case op of KMake _ \<Rightarrow> Suc (ks_next ks) | _ \<Rightarrow> ks_next ks)" by blast
  have "\<exists>kst2. fold_go (run_kop rand) ops kst' = Ret kst2 \<and> clnts_run_ok rand kst2"
    using Cons.prems(2) k kst'(3) by (intro Cons.IH[OF kst'(2)]) simp
  with kst'(1) show ?case by simp
qed simp

subsection \<open>Properties\<close>

text \<open>
  Property C34: a client that has been disconnected from all servers reaches none of them, old ends or
  new: after \<^verbatim>\<open>DisconnectAll\<close>, whatever sequence of calls it makes to whichever servers, every call
  returns false and leaves the caller's variable alone, and no server changes its state.
\<close>

theorem disconnected_client_reaches_nothing:
  assumes "fresh_names rand st" "\<not> rn_done (t_net st)" "list_all (\<lambda>(d, s, m, args). cd_enc cd args \<noteq> None) calls"
  shows "\<exists>c' st'. run_calls cd rand reply calls ([], clnt_DisconnectAll (c, st)) =
      Ret (replicate (length calls) (False, reply), c', st') \<and> t_heap st' = t_heap st"
proof -
  obtain c1 st1 where d: "clnt_DisconnectAll (c, st) = (c1, st1)" by fastforce
  have "fresh_names rand st1" "\<not> rn_done (t_net st1)" "t_heap st1 = t_heap st"
    using assms(1,2) d[unfolded clnt_DisconnectAll_eq, symmetric] by simp_all
  with cut_off_calls[OF DisconnectAll_cut_off[OF d] _ _ assms(3)] d show ?thesis by metis
qed

theorem disconnected_client_reaches_nothing_witness:
  "\<exists>c' st'. run_calls ex_codec ex_rand [] [((0, 0, 0), ''server-0-0'', ''Srv.Get'', [1]), ((0, 0, 0), ''server-0-1'', ''Srv.Get'', [2])]
      ([], clnt_DisconnectAll (makeClntTo None, ex_tstate)) = Ret ([(False, []), (False, [])], c', st')"
  using disconnected_client_reaches_nothing[OF ex_fresh, of ex_codec
      "[((0, 0, 0), ''server-0-0'', ''Srv.Get'', [1]), ((0, 0, 0), ''server-0-1'', ''Srv.Get'', [2])]" "[]" "makeClntTo None"]
  by (auto simp: ex_codec_def ex_tstate_def MakeNetwork_def)

text \<open>
  Property C35: cleaning up the clients of a test never stops the process and leaves none of their
  ends in the network. After any sequence of making and deleting clients, letting them make ends
  (by calls) and connecting or disconnecting them, the cleanup returns, the ends of every client
  still in the test are gone, and every other end is where it was.
\<close>

theorem client_cleanup_deletes_their_ends:
  assumes "fresh_names rand st" "kops_ok 0 ops"
  shows "\<exists>ks st1 ks' st2. fold_go (run_kop rand) ops (makeClnts, st) = Ret (ks, st1)
    \<and> clnts_cleanup (ks, st1) = Ret (ks', st2) \<and> ks_clerks ks' = None
    \<and> rn_ends (t_net st2) = rn_ends (t_net st1) |` (- (\<Union>a\<in>set (clerks_of ks). set (ends_of ks a)))"
proof -
  have "clnts_run_ok rand (makeClnts, st)"
    using assms(1) by (simp add: clnts_run_ok_def clnts_ok_def makeClnts_def clerks_of_def)
  from run_kops_ok[OF this, of ops] assms(2) obtain ks st1 where
    r: "fold_go (run_kop rand) ops (makeClnts, st) = Ret (ks, st1)" "clnts_run_ok rand (ks, st1)"
    by (auto simp: makeClnts_def)
  obtain st2 where "fold_go (remove_clerk ks) (clerks_of ks) st1 = Ret st2"
    "rn_ends (t_net st2) = rn_ends (t_net st1) |` (- (\<Union>a\<in>set (clerks_of ks). set (ends_of ks a)))"
    using remove_clerks_ends[of "clerks_of ks" ks st1] r(2) by (auto simp: clnts_run_ok_def clnts_ok_def)
  then show ?thesis using r(1) by (auto simp: clnts_cleanup_def clerks_of_def)
qed

theorem client_cleanup_deletes_their_ends_witness:
  "\<exists>ks st1 ks' st2. fold_go (run_kop ex_rand) [KMake None, KEnd 0 ''server-0-0'', KMake (Some []), KEnd 1 ''server-0-0'', KDisconnectAll 0, KDelete 0, KDelete 0]
      (makeClnts, ex_tstate) = Ret (ks, st1) \<and> clnts_cleanup (ks, st1) = Ret (ks', st2) \<and> ks_clerks ks' = None"
  using client_cleanup_deletes_their_ends[OF ex_fresh, of "[KMake None, KEnd 0 ''server-0-0'', KMake (Some []), KEnd 1 ''server-0-0'', KDisconnectAll 0, KDelete 0, KDelete 0]"]
  by auto

text \<open>
  \<^verbatim>\<open>ConnectTo\<close> opens the ends to the servers it lists but closes none: an end to a server that is
  no longer allowed stays enabled.
\<close>

lemma ConnectTo_keeps_old_ends:
  assumes "is_enabled (t_net st) e" "clnt_ConnectTo srvs (c, st) = (c', st')"
  shows "is_enabled (t_net st') e"
proof -
  obtain es where "fold (\<lambda>(s, e) st. if allowedL (c\<lparr>cl_srvs := srvs\<rparr>) s then enable_end e True st else st) (cl_ends c) st = enable_all True es st"
    using fold_enable_if by blast
  then have "st' = enable_all True es st" using assms(2) by (auto simp: clnt_ConnectTo_def)
  then show ?thesis using assms(1) by (simp add: is_enabled_enable_all)
qed

end
