(* ===== verification/Tester_Annotation.thy ===== *)
theory Tester_Annotation
  imports Go_Stdlib
begin

text \<open>
  The annotations a test leaves for the visualisation (\<^verbatim>\<open>tester1/annotation.go\<close>). The two global
  objects, the annotation store and the framework's view of the servers, are one state; the latter
  is nil until a test has begun. Every function that reads the clock takes the time it reads (in
  nanoseconds) as an argument. The lemmas show which annotation of faults is open at any
  moment: the servers that are cut off or crashed then, or a partition in two that was annotated since.
\<close>

subsection \<open>State\<close>

text \<open>The fields of \<^verbatim>\<open>porcupine.Annotation\<close> that the code fills; the others keep their zero value.\<close>

record pannot =
  pa_Tag :: string
  pa_Start :: int
  pa_End :: int
  pa_Description :: string
  pa_Details :: string
  pa_BackgroundColor :: string

record continuous =
  co_start :: int
  co_desp :: string
  co_details :: string
  co_bgcolor :: string

definition zero_continuous :: continuous where
  "zero_continuous = \<lparr>co_start = 0, co_desp = [], co_details = [], co_bgcolor = []\<rparr>"

record annotation =
  an_annotations :: "pannot list"
  an_continuous :: "(string, continuous) gomap"
  an_finalized :: bool

record checker_begin =
  cb_ts :: int
  cb_details :: string

record framework_info =
  fi_nservers :: nat
  fi_connected :: "bool list"
  fi_crashed :: "bool list"
  fi_ckbegin :: checker_begin

type_synonym ann = "annotation \<times> framework_info option"

definition COLOR_INFO :: string where "COLOR_INFO = ''#FAFAFA''"
definition COLOR_NEUTRAL :: string where "COLOR_NEUTRAL = ''#FFECB3''"
definition COLOR_SUCCESS :: string where "COLOR_SUCCESS = ''#C8E6C9''"
definition COLOR_FAILURE :: string where "COLOR_FAILURE = ''#FFCDD2''"
definition COLOR_FAULT :: string where "COLOR_FAULT = ''#B3E5FC''"
definition COLOR_USER :: string where "COLOR_USER = ''#FFF176''"
definition TAG_CHECKER :: string where "TAG_CHECKER = ''$ Checker''"
definition TAG_PARTITION :: string where "TAG_PARTITION = ''$ Failure''"
definition TAG_INFO :: string where "TAG_INFO = ''$ Test Info''"

definition mkAnnotation :: annotation where
  "mkAnnotation = \<lparr>an_annotations = [], an_continuous = [], an_finalized = False\<rparr>"

definition mkFrameworkInfo :: "nat \<Rightarrow> framework_info" where
  "mkFrameworkInfo nservers = \<lparr>fi_nservers = nservers, fi_connected = replicate nservers True,
     fi_crashed = replicate nservers False, fi_ckbegin = \<lparr>cb_ts = 0, cb_details = []\<rparr>\<rparr>"

subsection \<open>The annotation store\<close>

definition concretize :: "string \<Rightarrow> continuous \<Rightarrow> int \<Rightarrow> pannot" where
  "concretize tag cont t = \<lparr>pa_Tag = tag, pa_Start = co_start cont, pa_End = t, pa_Description = co_desp cont,
     pa_Details = co_details cont, pa_BackgroundColor = co_bgcolor cont\<rparr>"

definition an_finalize :: "int \<Rightarrow> annotation \<Rightarrow> pannot list \<times> annotation" where
  "an_finalize t an = (an_annotations an @ map (\<lambda>(tag, cont). concretize tag cont t) (an_continuous an),
     an\<lparr>an_finalized := True\<rparr>)"

definition an_clear :: "annotation \<Rightarrow> annotation" where
  "an_clear an = an\<lparr>an_annotations := [], an_continuous := [], an_finalized := False\<rparr>"

definition annotatePointColor :: "int \<Rightarrow> string \<Rightarrow> string \<Rightarrow> string \<Rightarrow> string \<Rightarrow> annotation \<Rightarrow> annotation" where
  "annotatePointColor t tag desp details bgcolor an = an\<lparr>an_annotations := an_annotations an @
     [\<lparr>pa_Tag = tag, pa_Start = t, pa_End = 0, pa_Description = desp, pa_Details = details, pa_BackgroundColor = bgcolor\<rparr>]\<rparr>"

definition annotateIntervalColor :: "int \<Rightarrow> string \<Rightarrow> int \<Rightarrow> string \<Rightarrow> string \<Rightarrow> string \<Rightarrow> annotation \<Rightarrow> annotation" where
  "annotateIntervalColor t tag start desp details bgcolor an = an\<lparr>an_annotations := an_annotations an @
     [\<lparr>pa_Tag = tag, pa_Start = start, pa_End = t, pa_Description = desp, pa_Details = details, pa_BackgroundColor = bgcolor\<rparr>]\<rparr>"

definition annotateContinuousColor :: "int \<Rightarrow> string \<Rightarrow> string \<Rightarrow> string \<Rightarrow> string \<Rightarrow> annotation \<Rightarrow> annotation" where
  "annotateContinuousColor t tag desp details bgcolor an = (case map_of (an_continuous an) tag of
     None \<Rightarrow> an\<lparr>an_continuous := AList.update tag
       \<lparr>co_start = t, co_desp = desp, co_details = details, co_bgcolor = bgcolor\<rparr> (an_continuous an)\<rparr>
   | Some cont \<Rightarrow> an\<lparr>an_annotations := an_annotations an @ [concretize tag cont t],
       an_continuous := AList.update tag
         \<lparr>co_start = t + 1000, co_desp = desp, co_details = details, co_bgcolor = bgcolor\<rparr> (an_continuous an)\<rparr>)"

definition annotateContinuousEnd :: "int \<Rightarrow> string \<Rightarrow> annotation \<Rightarrow> annotation" where
  \<comment> \<open>The branch for a missing entry is empty, so the zero value of the map is annotated.\<close>
  "annotateContinuousEnd t tag an = an\<lparr>
     an_annotations := an_annotations an @ [concretize tag (gm_get zero_continuous (an_continuous an) tag) t],
     an_continuous := AList.delete tag (an_continuous an)\<rparr>"

definition end_annotation :: "int \<Rightarrow> string \<Rightarrow> pannot" where
  "end_annotation t fin = \<lparr>pa_Tag = TAG_INFO, pa_Start = t, pa_End = t + 1000, pa_Description = fin,
     pa_Details = fin, pa_BackgroundColor = COLOR_INFO\<rparr>"

text \<open>
  Cleaning up at the end of a test: \<open>vis\<close> is the value of \<^verbatim>\<open>VIS_ENABLE\<close>, \<open>opened\<close> whether the file
  for the visualisation could be opened; the result is what is written to it, if anything.
\<close>

definition an_cleanup :: "string \<Rightarrow> bool \<Rightarrow> int \<Rightarrow> int \<Rightarrow> bool \<Rightarrow> string \<Rightarrow> annotation \<Rightarrow> pannot list option \<times> annotation" where
  "an_cleanup vis opened t1 t2 failed fin an =
     (if vis = ''never'' \<or> (\<not> failed \<and> vis \<noteq> ''always'') \<or> an_finalized an then (None, an_clear an)
      else case an_finalize t1 an of (annotations, an') \<Rightarrow>
        if length annotations = 0 then (None, an')
        else if \<not> opened then (None, an')
        else (Some (annotations @ [end_annotation t2 fin]), an'))"

subsection \<open>The public interface\<close>

definition FinalizeAnnotations :: "int \<Rightarrow> int \<Rightarrow> string \<Rightarrow> ann \<Rightarrow> pannot list \<times> ann" where
  "FinalizeAnnotations t1 t2 fin s = (case an_finalize t1 (fst s) of (annotations, an) \<Rightarrow>
     (annotations @ [end_annotation t2 fin], (an, snd s)))"

definition AnnotatePointColor :: "int \<Rightarrow> string \<Rightarrow> string \<Rightarrow> string \<Rightarrow> string \<Rightarrow> ann \<Rightarrow> ann" where
  "AnnotatePointColor t tag desp details bgcolor s = (annotatePointColor t tag desp details bgcolor (fst s), snd s)"

definition AnnotateIntervalColor :: "int \<Rightarrow> string \<Rightarrow> int \<Rightarrow> string \<Rightarrow> string \<Rightarrow> string \<Rightarrow> ann \<Rightarrow> ann" where
  "AnnotateIntervalColor t tag start desp details bgcolor s =
     (annotateIntervalColor t tag start desp details bgcolor (fst s), snd s)"

definition AnnotateContinuousColor :: "int \<Rightarrow> string \<Rightarrow> string \<Rightarrow> string \<Rightarrow> string \<Rightarrow> ann \<Rightarrow> ann" where
  "AnnotateContinuousColor t tag desp details bgcolor s = (annotateContinuousColor t tag desp details bgcolor (fst s), snd s)"

definition AnnotateContinuousEnd :: "int \<Rightarrow> string \<Rightarrow> ann \<Rightarrow> ann" where
  "AnnotateContinuousEnd t tag s = (annotateContinuousEnd t tag (fst s), snd s)"

definition Annotate :: "int \<Rightarrow> string \<Rightarrow> string \<Rightarrow> string \<Rightarrow> ann \<Rightarrow> ann" where
  "Annotate t tag desp details = AnnotatePointColor t tag desp details COLOR_USER"

definition AnnotateInterval :: "int \<Rightarrow> string \<Rightarrow> int \<Rightarrow> string \<Rightarrow> string \<Rightarrow> ann \<Rightarrow> ann" where
  "AnnotateInterval t tag start desp details = AnnotateIntervalColor t tag start desp details COLOR_USER"

definition AnnotateContinuous :: "int \<Rightarrow> string \<Rightarrow> string \<Rightarrow> string \<Rightarrow> ann \<Rightarrow> ann" where
  "AnnotateContinuous t tag desp details = AnnotateContinuousColor t tag desp details COLOR_USER"

definition AnnotateInfo :: "int \<Rightarrow> string \<Rightarrow> string \<Rightarrow> ann \<Rightarrow> ann" where
  "AnnotateInfo t desp details = AnnotatePointColor t TAG_INFO desp details COLOR_INFO"

definition AnnotateInfoInterval :: "int \<Rightarrow> int \<Rightarrow> string \<Rightarrow> string \<Rightarrow> ann \<Rightarrow> ann" where
  "AnnotateInfoInterval t start desp details = AnnotateIntervalColor t TAG_INFO start desp details COLOR_INFO"

definition AnnotateTest :: "int \<Rightarrow> string \<Rightarrow> nat \<Rightarrow> ann \<Rightarrow> ann" where
  "AnnotateTest t desp nservers s =
     (let details = desp @ '' ('' @ itoa (int nservers) @ '' servers)''
      in AnnotateInfo t details details (an_clear (fst s), Some (mkFrameworkInfo nservers)))"

definition with_finfo :: "(framework_info \<Rightarrow> annotation \<Rightarrow> ann go) \<Rightarrow> ann \<Rightarrow> ann go" where
  "with_finfo f s = (case snd s of None \<Rightarrow> Panic ''nil pointer dereference'' | Some fi \<Rightarrow> f fi (fst s))"

definition AnnotateCheckerBegin :: "int \<Rightarrow> string \<Rightarrow> ann \<Rightarrow> ann go" where
  "AnnotateCheckerBegin t details = with_finfo (\<lambda>fi an. Ret (an, Some (fi\<lparr>fi_ckbegin := \<lparr>cb_ts = t, cb_details = details\<rparr>\<rparr>)))"

definition AnnotateCheckerEnd :: "int \<Rightarrow> string \<Rightarrow> string \<Rightarrow> string \<Rightarrow> ann \<Rightarrow> ann go" where
  \<comment> \<open>The reset at the end of the function assigns to a local copy.\<close>
  "AnnotateCheckerEnd t desp details color = with_finfo (\<lambda>fi an. let ckbegin = fi_ckbegin fi in
     if cb_ts ckbegin = 0 then Ret (AnnotatePointColor t TAG_CHECKER desp details color (an, Some fi))
     else Ret (AnnotateIntervalColor t TAG_CHECKER (cb_ts ckbegin) desp (cb_details ckbegin @ '': '' @ details) color (an, Some fi)))"

definition AnnotateCheckerSuccess :: "int \<Rightarrow> string \<Rightarrow> string \<Rightarrow> ann \<Rightarrow> ann go" where
  "AnnotateCheckerSuccess t desp details = AnnotateCheckerEnd t desp details COLOR_SUCCESS"

definition AnnotateCheckerFailure :: "int \<Rightarrow> string \<Rightarrow> string \<Rightarrow> ann \<Rightarrow> ann go" where
  "AnnotateCheckerFailure t desp details = AnnotateCheckerEnd t desp details COLOR_FAILURE"

definition AnnotateCheckerNeutral :: "int \<Rightarrow> string \<Rightarrow> string \<Rightarrow> ann \<Rightarrow> ann go" where
  "AnnotateCheckerNeutral t desp details = AnnotateCheckerEnd t desp details COLOR_NEUTRAL"

definition SetAnnotationFinalized :: "ann \<Rightarrow> ann" where
  "SetAnnotationFinalized s = ((fst s)\<lparr>an_finalized := True\<rparr>, snd s)"

definition GetAnnotationFinalized :: "ann \<Rightarrow> bool" where
  "GetAnnotationFinalized s = an_finalized (fst s)"

definition AnnotateCheckerFailureBeforeExit :: "string \<Rightarrow> bool \<Rightarrow> int \<Rightarrow> int \<Rightarrow> int \<Rightarrow> string \<Rightarrow> string \<Rightarrow> ann \<Rightarrow>
    (pannot list option \<times> ann) go" where
  "AnnotateCheckerFailureBeforeExit vis opened t t1 t2 desp details s =
     go_bind (AnnotateCheckerFailure t desp details s) (\<lambda>s'.
       case an_cleanup vis opened t1 t2 True ''test failed'' (fst s') of (out, an) \<Rightarrow> Ret (out, (an, snd s')))"

subsection \<open>Faults\<close>

fun fault_loop :: "bool list \<Rightarrow> nat \<Rightarrow> bool list \<Rightarrow> int list \<Rightarrow> int list \<Rightarrow> string \<Rightarrow> (int list \<times> int list \<times> string) go" where
  "fault_loop crashed i [] conn crashes text = Ret (conn, crashes, text)"
| "fault_loop crashed i (connected # cs) conn crashes text = go_bind (go_nth crashed i) (\<lambda>c.
     if c then fault_loop crashed (Suc i) cs conn (crashes @ [int i]) text
     else if connected then fault_loop crashed (Suc i) cs (conn @ [int i]) crashes text
     else fault_loop crashed (Suc i) cs conn crashes (text @ ''['' @ itoa (int i) @ ''] ''))"

definition annotateFault :: "int \<Rightarrow> framework_info \<Rightarrow> annotation \<Rightarrow> ann go" where
  "annotateFault t fi an =
     (if replicate (fi_nservers fi) True = fi_connected fi \<and> replicate (fi_nservers fi) False = fi_crashed fi
      then Ret (AnnotateContinuousEnd t TAG_PARTITION (an, Some fi))
      else go_bind (fault_loop (fi_crashed fi) 0 (fi_connected fi) [] [] ''partition = '') (\<lambda>(conn, crashes, b).
        let text = b @ (if length conn > 0 then show_ints conn else [])
                     @ (if length crashes > 0 then '' / crash = '' @ show_ints crashes else [])
        in Ret (AnnotateContinuousColor t TAG_PARTITION text text COLOR_FAULT (an, Some fi))))"

definition copy_into :: "'a list \<Rightarrow> 'a list \<Rightarrow> 'a list" where
  "copy_into dst src = take (length dst) src @ drop (length src) dst"

definition AnnotateConnection :: "int \<Rightarrow> bool list \<Rightarrow> ann \<Rightarrow> ann go" where
  "AnnotateConnection t connection = with_finfo (\<lambda>fi an.
     if fi_connected fi = connection then Ret (an, Some fi)
     else annotateFault t (fi\<lparr>fi_connected := copy_into (fi_connected fi) connection\<rparr>) an)"

definition AnnotateTwoPartitions :: "int \<Rightarrow> int list \<Rightarrow> int list \<Rightarrow> ann \<Rightarrow> ann" where
  "AnnotateTwoPartitions t p1 p2 = (let text = ''partition = '' @ show_ints p1 @ '' '' @ show_ints p2
     in AnnotateContinuousColor t TAG_PARTITION text text COLOR_FAULT)"

definition AnnotateClearFailure :: "int \<Rightarrow> ann \<Rightarrow> ann go" where
  "AnnotateClearFailure t = with_finfo (\<lambda>fi an. Ret (AnnotateContinuousEnd t TAG_PARTITION
     (an, Some (fi\<lparr>fi_crashed := map (\<lambda>_. False) (fi_crashed fi), fi_connected := map (\<lambda>_. True) (fi_connected fi)\<rparr>))))"

text \<open>Marks servers as crashed (or running again); says whether any mark changed.\<close>

definition mark_crashed :: "bool \<Rightarrow> nat list \<Rightarrow> bool \<times> bool list \<Rightarrow> (bool \<times> bool list) go" where
  "mark_crashed b = fold_go (\<lambda>i (changed, crashed). go_bind (go_nth crashed i) (\<lambda>c.
     Ret (changed \<or> c \<noteq> b, crashed[i := b])))"

definition annotate_crashed :: "bool \<Rightarrow> int \<Rightarrow> nat list \<Rightarrow> ann \<Rightarrow> ann go" where
  "annotate_crashed b t servers = with_finfo (\<lambda>fi an.
     go_bind (mark_crashed b servers (False, fi_crashed fi)) (\<lambda>(changed, crashed).
       if \<not> changed then Ret (an, Some (fi\<lparr>fi_crashed := crashed\<rparr>))
       else annotateFault t (fi\<lparr>fi_crashed := crashed\<rparr>) an))"

definition AnnotateShutdown :: "int \<Rightarrow> nat list \<Rightarrow> ann \<Rightarrow> ann go" where
  "AnnotateShutdown = annotate_crashed True"

definition AnnotateRestart :: "int \<Rightarrow> nat list \<Rightarrow> ann \<Rightarrow> ann go" where
  "AnnotateRestart = annotate_crashed False"

definition AnnotateShutdownAll :: "int \<Rightarrow> ann \<Rightarrow> ann go" where
  "AnnotateShutdownAll t s = with_finfo (\<lambda>fi an. AnnotateShutdown t [0..<fi_nservers fi] s) s"

definition AnnotateRestartAll :: "int \<Rightarrow> ann \<Rightarrow> ann go" where
  "AnnotateRestartAll t s = with_finfo (\<lambda>fi an. AnnotateRestart t [0..<fi_nservers fi] s) s"

subsection \<open>The open annotation of faults\<close>

text \<open>What the annotation says of the servers: the isolated ones, the connected ones, the crashed ones.\<close>

definition fault_text :: "bool list \<Rightarrow> bool list \<Rightarrow> string" where
  "fault_text connected crashed =
     (let ids = [0..<length connected];
          cut = filter (\<lambda>i. \<not> crashed ! i \<and> \<not> connected ! i) ids;
          conn = map int (filter (\<lambda>i. \<not> crashed ! i \<and> connected ! i) ids);
          crashes = map int (filter (\<lambda>i. crashed ! i) ids)
      in ''partition = '' @ concat (map (\<lambda>i. ''['' @ itoa (int i) @ ''] '') cut)
         @ (if conn \<noteq> [] then show_ints conn else [])
         @ (if crashes \<noteq> [] then '' / crash = '' @ show_ints crashes else []))"

lemma fault_loop_spec:
  assumes "i + length cs \<le> length crashed"
  shows "fault_loop crashed i cs conn crashes tx =
    (let ids = [i..<i + length cs] in
     Ret (conn @ map int (filter (\<lambda>j. \<not> crashed ! j \<and> cs ! (j - i)) ids),
          crashes @ map int (filter (\<lambda>j. crashed ! j) ids),
          tx @ concat (map (\<lambda>j. ''['' @ itoa (int j) @ ''] '') (filter (\<lambda>j. \<not> crashed ! j \<and> \<not> cs ! (j - i)) ids))))"
  using assms
proof (induction cs arbitrary: i conn crashes tx)
  case (Cons c cs)
  have ids: "[i..<i + length (c # cs)] = i # [Suc i..<Suc i + length cs]" by (simp add: upt_conv_Cons del: upt_Suc)
  have sh: "filter (\<lambda>j. P j ((x # cs) ! (j - i))) [Suc i..<Suc (i + length cs)]
      = filter (\<lambda>j. P j (cs ! (j - Suc i))) [Suc i..<Suc (i + length cs)]" for P x
  proof (rule filter_cong)
    fix j assume "j \<in> set [Suc i..<Suc (i + length cs)]"
    then have "j - i = Suc (j - Suc i)" by auto
    then show "P j ((x # cs) ! (j - i)) = P j (cs ! (j - Suc i))" by simp
  qed simp
  note IH = Cons.IH[of "Suc i", unfolded Let_def]
  show ?case
    using Cons.prems unfolding ids Let_def
    by (simp add: IH sh[of "\<lambda>j b. \<not> crashed ! j \<and> b"] sh[of "\<lambda>j b. \<not> crashed ! j \<and> \<not> b"] del: upt_Suc)
qed simp

definition finfo_ok :: "framework_info \<Rightarrow> bool" where
  "finfo_ok fi \<longleftrightarrow> length (fi_connected fi) = fi_nservers fi \<and> length (fi_crashed fi) = fi_nservers fi"

definition no_faults :: "framework_info \<Rightarrow> bool" where
  "no_faults fi \<longleftrightarrow> list_all (\<lambda>c. c) (fi_connected fi) \<and> list_all (\<lambda>c. \<not> c) (fi_crashed fi)"

lemma replicate_eq_iff: "replicate n x = xs \<longleftrightarrow> length xs = n \<and> (\<forall>y\<in>set xs. y = x)"
  by (metis in_set_replicate length_replicate replicate_eqI)

lemma no_faults_iff:
  "finfo_ok fi \<Longrightarrow> replicate (fi_nservers fi) True = fi_connected fi \<and> replicate (fi_nservers fi) False = fi_crashed fi \<longleftrightarrow> no_faults fi"
  by (simp add: finfo_ok_def no_faults_def list_all_iff replicate_eq_iff)

text \<open>What the annotation has to say of the present faults: nothing if all servers are connected and running.\<close>

definition fault_now :: "bool list \<Rightarrow> bool list \<Rightarrow> string option" where
  "fault_now connected crashed = (if list_all (\<lambda>c. c) connected \<and> list_all (\<lambda>c. \<not> c) crashed then None else Some (fault_text connected crashed))"

text \<open>The annotation that is open under the tag of faults has the text, or there is none.\<close>

definition open_shows :: "annotation \<Rightarrow> string option \<Rightarrow> bool" where
  "open_shows an x \<longleftrightarrow> map_option (\<lambda>c. (co_desp c, co_details c, co_bgcolor c)) (map_of (an_continuous an) TAG_PARTITION) =
     map_option (\<lambda>txt. (txt, txt, COLOR_FAULT)) x"

lemma open_shows_cong:
  "map_of (an_continuous an) TAG_PARTITION = map_of (an_continuous an') TAG_PARTITION \<Longrightarrow> open_shows an x = open_shows an' x"
  by (simp add: open_shows_def)

lemma annotateContinuousColor_map_of:
  "map_of (an_continuous (annotateContinuousColor t tag desp details bgcolor an)) =
   (map_of (an_continuous an))(tag \<mapsto> \<lparr>co_start = (if map_of (an_continuous an) tag = None then t else t + 1000),
     co_desp = desp, co_details = details, co_bgcolor = bgcolor\<rparr>)"
  by (simp add: annotateContinuousColor_def update_conv' split: option.splits)

lemma annotateContinuousEnd_map_of:
  "map_of (an_continuous (annotateContinuousEnd t tag an)) = (map_of (an_continuous an))(tag := None)"
  by (simp add: annotateContinuousEnd_def delete_conv')

lemma annotateFault_ok:
  assumes "finfo_ok fi"
  shows "\<exists>an'. annotateFault t fi an = Ret (an', Some fi) \<and> open_shows an' (fault_now (fi_connected fi) (fi_crashed fi))"
proof (cases "no_faults fi")
  case True
  then show ?thesis
    using no_faults_iff[OF assms]
    by (simp add: annotateFault_def AnnotateContinuousEnd_def open_shows_def fault_now_def no_faults_def annotateContinuousEnd_map_of)
next
  case False
  let ?text = "fault_text (fi_connected fi) (fi_crashed fi)"
  have "annotateFault t fi an = Ret (annotateContinuousColor t TAG_PARTITION ?text ?text COLOR_FAULT an, Some fi)"
    using False no_faults_iff[OF assms] assms
    by (auto simp: annotateFault_def fault_loop_spec finfo_ok_def AnnotateContinuousColor_def fault_text_def Let_def
      filter_empty_conv)
  then show ?thesis using False by (simp add: open_shows_def fault_now_def no_faults_def annotateContinuousColor_map_of)
qed

text \<open>Marking servers: the listed ones get the mark, and whether any mark changed is reported.\<close>

definition marks :: "bool \<Rightarrow> nat list \<Rightarrow> bool list \<Rightarrow> bool list" where
  "marks b servers crashed = map (\<lambda>i. if i \<in> set servers then b else crashed ! i) [0..<length crashed]"

lemma marks_simps [simp]: "length (marks b is crashed) = length crashed" "marks b [] crashed = crashed"
  by (simp_all add: marks_def map_nth)

lemma marks_Cons: "marks b (i # is) crashed = marks b is (crashed[i := b])"
  by (intro nth_equalityI) (auto simp: marks_def nth_list_update)

lemma mark_crashed_eq:
  assumes "list_all (\<lambda>i. i < length crashed) servers"
  shows "mark_crashed b servers (changed, crashed) = Ret (changed \<or> marks b servers crashed \<noteq> crashed, marks b servers crashed)"
  using assms
proof (induction servers arbitrary: changed crashed)
  case (Cons i servers)
  have "mark_crashed b (i # servers) (changed, crashed) = mark_crashed b servers (changed \<or> crashed ! i \<noteq> b, crashed[i := b])"
    using Cons.prems by (simp add: mark_crashed_def)
  also have "\<dots> = Ret ((changed \<or> crashed ! i \<noteq> b) \<or> marks b (i # servers) crashed \<noteq> crashed[i := b], marks b (i # servers) crashed)"
    using Cons by (simp add: marks_Cons)
  also have "(crashed ! i \<noteq> b \<or> marks b (i # servers) crashed \<noteq> crashed[i := b]) = (marks b (i # servers) crashed \<noteq> crashed)"
  proof (cases "crashed ! i = b")
    case True
    have "crashed[i := b] = crashed" using list_update_id[of crashed i] unfolding True .
    with True show ?thesis by simp
  next
    case False
    have "marks b (i # servers) crashed ! i = b" using Cons.prems by (simp add: marks_def)
    then show ?thesis using False by auto
  qed
  then have "((changed \<or> crashed ! i \<noteq> b) \<or> marks b (i # servers) crashed \<noteq> crashed[i := b]) = (changed \<or> marks b (i # servers) crashed \<noteq> crashed)"
    by blast
  finally show ?case .
qed (simp add: mark_crashed_def)

text \<open>The calls of a test.\<close>

datatype ann_op =
    OpConnection "bool list" | OpShutdown "nat list" | OpRestart "nat list" | OpShutdownAll | OpRestartAll | OpClearFailure
  | OpTwoPartitions "int list" "int list"
  | OpPoint string string string string | OpInterval string int string string string
  | OpContinuous string string string string | OpContinuousEnd string
  | OpCheckerBegin string | OpCheckerEnd string string string

fun run_ann :: "int \<times> ann_op \<Rightarrow> ann \<Rightarrow> ann go" where
  "run_ann (t, OpConnection c) s = AnnotateConnection t c s"
| "run_ann (t, OpShutdown is) s = AnnotateShutdown t is s"
| "run_ann (t, OpRestart is) s = AnnotateRestart t is s"
| "run_ann (t, OpShutdownAll) s = AnnotateShutdownAll t s"
| "run_ann (t, OpRestartAll) s = AnnotateRestartAll t s"
| "run_ann (t, OpClearFailure) s = AnnotateClearFailure t s"
| "run_ann (t, OpTwoPartitions p1 p2) s = Ret (AnnotateTwoPartitions t p1 p2 s)"
| "run_ann (t, OpPoint tag d e c) s = Ret (AnnotatePointColor t tag d e c s)"
| "run_ann (t, OpInterval tag start d e c) s = Ret (AnnotateIntervalColor t tag start d e c s)"
| "run_ann (t, OpContinuous tag d e c) s = Ret (AnnotateContinuousColor t tag d e c s)"
| "run_ann (t, OpContinuousEnd tag) s = Ret (AnnotateContinuousEnd t tag s)"
| "run_ann (t, OpCheckerBegin d) s = AnnotateCheckerBegin t d s"
| "run_ann (t, OpCheckerEnd d e c) s = AnnotateCheckerEnd t d e c s"

fun ann_op_ok :: "nat \<Rightarrow> ann_op \<Rightarrow> bool" where
  "ann_op_ok n (OpConnection c) \<longleftrightarrow> length c = n"
| "ann_op_ok n (OpShutdown is) \<longleftrightarrow> list_all (\<lambda>i. i < n) is"
| "ann_op_ok n (OpRestart is) \<longleftrightarrow> list_all (\<lambda>i. i < n) is"
| "ann_op_ok n (OpContinuous tag _ _ _) \<longleftrightarrow> tag \<noteq> TAG_PARTITION"
| "ann_op_ok n (OpContinuousEnd tag) \<longleftrightarrow> tag \<noteq> TAG_PARTITION"
| "ann_op_ok n _ \<longleftrightarrow> True"

text \<open>
  What a reader of the calls expects: which servers are connected and crashed, and the text that is open. Calls that change nothing leave
  the text; \<^verbatim>\<open>AnnotateTwoPartitions\<close> shows its own text until the next change.
\<close>

record fault_view =
  fv_connected :: "bool list"
  fv_crashed :: "bool list"
  fv_text :: "string option"

definition view_start :: "nat \<Rightarrow> fault_view" where
  "view_start n = \<lparr>fv_connected = replicate n True, fv_crashed = replicate n False, fv_text = None\<rparr>"

definition view_change :: "bool list \<Rightarrow> bool list \<Rightarrow> fault_view \<Rightarrow> fault_view" where
  "view_change connected crashed v = (if connected = fv_connected v \<and> crashed = fv_crashed v then v
     else \<lparr>fv_connected = connected, fv_crashed = crashed, fv_text = fault_now connected crashed\<rparr>)"

fun view_op :: "ann_op \<Rightarrow> fault_view \<Rightarrow> fault_view" where
  "view_op (OpConnection c) v = view_change c (fv_crashed v) v"
| "view_op (OpShutdown is) v = view_change (fv_connected v) (marks True is (fv_crashed v)) v"
| "view_op (OpRestart is) v = view_change (fv_connected v) (marks False is (fv_crashed v)) v"
| "view_op OpShutdownAll v = view_change (fv_connected v) (map (\<lambda>_. True) (fv_crashed v)) v"
| "view_op OpRestartAll v = view_change (fv_connected v) (map (\<lambda>_. False) (fv_crashed v)) v"
| "view_op OpClearFailure v = view_start (length (fv_connected v))"
| "view_op (OpTwoPartitions p1 p2) v = v\<lparr>fv_text := Some (''partition = '' @ show_ints p1 @ '' '' @ show_ints p2)\<rparr>"
| "view_op _ v = v"

definition fault_view_after :: "nat \<Rightarrow> (int \<times> ann_op) list \<Rightarrow> fault_view" where
  "fault_view_after n ops = fold (\<lambda>(_, op). view_op op) ops (view_start n)"

text \<open>The state of the annotations agrees with the view.\<close>

definition shown :: "nat \<Rightarrow> fault_view \<Rightarrow> ann \<Rightarrow> bool" where
  "shown n v s \<longleftrightarrow> (\<exists>an fi. s = (an, Some fi) \<and> fi_nservers fi = n \<and> length (fv_connected v) = n \<and> length (fv_crashed v) = n \<and>
     fi_connected fi = fv_connected v \<and> fi_crashed fi = fv_crashed v \<and> open_shows an (fv_text v))"

lemma annotate_crashed_ok:
  assumes "shown n v s" "list_all (\<lambda>i. i < n) servers"
  shows "\<exists>s'. annotate_crashed b t servers s = Ret s' \<and> shown n (view_change (fv_connected v) (marks b servers (fv_crashed v)) v) s'"
proof -
  obtain an fi where s: "s = (an, Some fi)" "fi_nservers fi = n" "length (fv_connected v) = n" "length (fv_crashed v) = n"
    "fi_connected fi = fv_connected v" "fi_crashed fi = fv_crashed v" "open_shows an (fv_text v)" using assms(1) by (auto simp: shown_def)
  let ?cr = "marks b servers (fv_crashed v)"
  have m: "mark_crashed b servers (False, fi_crashed fi) = Ret (?cr \<noteq> fv_crashed v, ?cr)"
    using mark_crashed_eq[of "fi_crashed fi" servers b False] assms(2) s(4,6) by simp
  show ?thesis
  proof (cases "?cr = fv_crashed v")
    case True
    then show ?thesis using s m by (simp add: annotate_crashed_def with_finfo_def view_change_def shown_def)
  next
    case False
    have "finfo_ok (fi\<lparr>fi_crashed := ?cr\<rparr>)" using s by (simp add: finfo_ok_def)
    from annotateFault_ok[OF this, of t an] show ?thesis
      using s m False by (auto simp: annotate_crashed_def with_finfo_def view_change_def shown_def)
  qed
qed

lemma marks_all: "marks b [0..<length crashed] crashed = map (\<lambda>_. b) crashed"
  by (intro nth_equalityI) (auto simp: marks_def)

lemma all_in_range: "list_all (\<lambda>i. i < n) [0..<n]"
  by (simp add: list_all_iff)

lemma run_ann_ok:
  assumes "shown n v s" "ann_op_ok n op"
  shows "\<exists>s'. run_ann (t, op) s = Ret s' \<and> shown n (view_op op v) s'"
proof -
  obtain an fi where s: "s = (an, Some fi)" "fi_nservers fi = n" "length (fv_connected v) = n" "length (fv_crashed v) = n"
    "fi_connected fi = fv_connected v" "fi_crashed fi = fv_crashed v" "open_shows an (fv_text v)" using assms(1) by (auto simp: shown_def)
  show ?thesis
  proof (cases op)
    case (OpConnection c)
    have "finfo_ok (fi\<lparr>fi_connected := c\<rparr>)" using s(2,4,6) assms(2) OpConnection by (simp add: finfo_ok_def)
    moreover have "copy_into (fi_connected fi) c = c" using s(3,5) assms(2) OpConnection by (simp add: copy_into_def)
    ultimately show ?thesis using annotateFault_ok[of "fi\<lparr>fi_connected := c\<rparr>" t an] s assms(2) OpConnection
      by (auto simp: AnnotateConnection_def with_finfo_def view_change_def shown_def)
  next
    case (OpShutdown "is")
    then show ?thesis using annotate_crashed_ok[OF assms(1), of "is" True t] assms(2) by (simp add: AnnotateShutdown_def)
  next
    case (OpRestart "is")
    then show ?thesis using annotate_crashed_ok[OF assms(1), of "is" False t] assms(2) by (simp add: AnnotateRestart_def)
  next
    case OpShutdownAll
    then show ?thesis using annotate_crashed_ok[OF assms(1) all_in_range, of True t] s(1,2,4) marks_all[of True "fv_crashed v"]
      by (simp add: AnnotateShutdownAll_def with_finfo_def AnnotateShutdown_def)
  next
    case OpRestartAll
    then show ?thesis using annotate_crashed_ok[OF assms(1) all_in_range, of False t] s(1,2,4) marks_all[of False "fv_crashed v"]
      by (simp add: AnnotateRestartAll_def with_finfo_def AnnotateRestart_def)
  next
    case OpClearFailure
    then show ?thesis using s
      by (simp add: AnnotateClearFailure_def with_finfo_def AnnotateContinuousEnd_def shown_def view_start_def open_shows_def
          annotateContinuousEnd_map_of map_replicate_const)
  next
    case (OpTwoPartitions p1 p2)
    then show ?thesis using s
      by (simp add: AnnotateTwoPartitions_def AnnotateContinuousColor_def Let_def shown_def open_shows_def annotateContinuousColor_map_of)
  qed (use s assms(2) in \<open>auto simp: shown_def AnnotatePointColor_def annotatePointColor_def AnnotateIntervalColor_def
      annotateIntervalColor_def AnnotateContinuousColor_def annotateContinuousColor_map_of AnnotateContinuousEnd_def
      annotateContinuousEnd_map_of AnnotateCheckerBegin_def AnnotateCheckerEnd_def with_finfo_def Let_def
      intro: open_shows_cong[THEN iffD2]\<close>)
qed

lemma run_anns_ok:
  assumes "shown n v s" "list_all (\<lambda>(t, op). ann_op_ok n op) ops"
  shows "\<exists>s'. fold_go run_ann ops s = Ret s' \<and> shown n (fold (\<lambda>(_, op). view_op op) ops v) s'"
  using assms
proof (induction ops arbitrary: v s)
  case (Cons x ops)
  obtain t op where x: "x = (t, op)" by fastforce
  from run_ann_ok[OF Cons.prems(1), of op t] Cons.prems(2) x obtain s1 where s1: "run_ann (t, op) s = Ret s1" "shown n (view_op op v) s1" by auto
  then show ?case using Cons.IH[OF s1(2)] Cons.prems(2) x by simp
qed simp

text \<open>Without a call of \<^verbatim>\<open>AnnotateTwoPartitions\<close> the text is always that of the present faults.\<close>

fun two_partitions :: "ann_op \<Rightarrow> bool" where
  "two_partitions (OpTwoPartitions p1 p2) \<longleftrightarrow> True"
| "two_partitions _ \<longleftrightarrow> False"

lemma view_text_current:
  assumes "fv_text v = fault_now (fv_connected v) (fv_crashed v)" "list_all (\<lambda>(_, op). \<not> two_partitions op) ops"
  shows "fv_text (fold (\<lambda>(_, op). view_op op) ops v) =
    fault_now (fv_connected (fold (\<lambda>(_, op). view_op op) ops v)) (fv_crashed (fold (\<lambda>(_, op). view_op op) ops v))"
  using assms
proof (induction ops arbitrary: v)
  case (Cons x ops)
  obtain t op where x: "x = (t, op)" by fastforce
  have "fv_text (view_op op v) = fault_now (fv_connected (view_op op v)) (fv_crashed (view_op op v))"
    using Cons.prems x by (cases op) (auto simp: view_change_def view_start_def fault_now_def list_all_iff)
  then show ?case using Cons.IH[of "view_op op v"] Cons.prems(2) x by simp
qed simp

subsection \<open>Intervals of one tag\<close>

text \<open>
  The continuous annotations of one tag: \<open>(t, Some d)\<close> annotates \<open>d\<close> from time \<open>t\<close> on, \<open>(t, None)\<close>
  ends the open annotation. \<open>cont_times o t ops\<close> says that events are at least 1000 ns apart,
  the first after \<open>t\<close>, and that only an open annotation is ended.
\<close>

fun run_cont :: "string \<Rightarrow> string \<Rightarrow> (int \<times> string option) list \<Rightarrow> annotation \<Rightarrow> annotation" where
  "run_cont tag c [] an = an"
| "run_cont tag c ((t, Some d) # ops) an = run_cont tag c ops (annotateContinuousColor t tag d d c an)"
| "run_cont tag c ((t, None) # ops) an = run_cont tag c ops (annotateContinuousEnd t tag an)"

fun cont_times :: "bool \<Rightarrow> int \<Rightarrow> (int \<times> string option) list \<Rightarrow> bool" where
  "cont_times b t [] \<longleftrightarrow> True"
| "cont_times b t ((t', Some d) # ops) \<longleftrightarrow> t + 1000 \<le> t' \<and> cont_times True t' ops"
| "cont_times b t ((t', None) # ops) \<longleftrightarrow> t + 1000 \<le> t' \<and> b \<and> cont_times False t' ops"

definition disjoint_intervals :: "pannot list \<Rightarrow> bool" where
  "disjoint_intervals as \<longleftrightarrow> list_all (\<lambda>a. pa_Start a \<le> pa_End a) as \<and> sorted_wrt (\<lambda>a b. pa_End a < pa_Start b) as"

definition cont_inv :: "string \<Rightarrow> int \<Rightarrow> annotation \<Rightarrow> bool" where
  "cont_inv tag t an \<longleftrightarrow> disjoint_intervals (an_annotations an) \<and> (\<forall>a\<in>set (an_annotations an). pa_End a \<le> t)
     \<and> (case map_of (an_continuous an) tag of None \<Rightarrow> True
        | Some c \<Rightarrow> co_start c \<le> t + 1000 \<and> (\<forall>a\<in>set (an_annotations an). pa_End a < co_start c))"

lemma disjoint_intervals_snoc:
  "disjoint_intervals (as @ [a]) \<longleftrightarrow> disjoint_intervals as \<and> pa_Start a \<le> pa_End a \<and> (\<forall>b\<in>set as. pa_End b < pa_Start a)"
  by (auto simp: disjoint_intervals_def sorted_wrt_append)

lemma cont_inv_color:
  assumes "cont_inv tag t an" "t + 1000 \<le> t'"
  shows "cont_inv tag t' (annotateContinuousColor t' tag d d' c an)"
  using assms unfolding cont_inv_def annotateContinuousColor_map_of
  by (fastforce simp: annotateContinuousColor_def concretize_def disjoint_intervals_snoc split: option.splits)

lemma cont_inv_end:
  assumes "cont_inv tag t an" "t + 1000 \<le> t'" "map_of (an_continuous an) tag \<noteq> None"
  shows "cont_inv tag t' (annotateContinuousEnd t' tag an)"
  using assms unfolding cont_inv_def annotateContinuousEnd_map_of
  by (fastforce simp: annotateContinuousEnd_def concretize_def gm_get_def disjoint_intervals_snoc split: option.splits)

lemma run_cont_inv:
  assumes "cont_inv tag t an" "cont_times (map_of (an_continuous an) tag \<noteq> None) t ops"
  shows "\<exists>t'. cont_inv tag t' (run_cont tag c ops an)"
  using assms
proof (induction tag c ops an arbitrary: t rule: run_cont.induct)
  case (2 tag c t' d ops an)
  then show ?case using cont_inv_color[OF 2(2), of t'] 2(1)[of t'] by (simp add: annotateContinuousColor_map_of)
next
  case (3 tag c t' ops an)
  then show ?case using cont_inv_end[OF 3(2), of t'] 3(1)[of t'] by (simp add: annotateContinuousEnd_map_of)
qed auto

subsection \<open>Properties\<close>

text \<open>
  Property C33: the visualisation shows the faults as they are. Once a test of \<open>n\<close> servers has begun, any sequence of
  connection changes, shutdowns, restarts, partitions in two, clearings, checks and annotations under other tags (with in-range
  arguments) returns. Afterwards the framework has exactly the connected and crashed servers that these calls say, and the annotation open under the
  tag of faults has exactly the text the calls call for: that of the last \<^verbatim>\<open>AnnotateTwoPartitions\<close>, if nothing changed since; otherwise
  that of the present faults, which lists the isolated, the connected and the crashed servers, and none when all servers are connected and running. Without
  a partition in two it is always that of the present faults.
\<close>

theorem open_fault_annotation_is_current:
  assumes "list_all (\<lambda>(t, op). ann_op_ok n op) ops"
  shows "\<exists>an fi v. fold_go run_ann ops (AnnotateTest t desp n s) = Ret (an, Some fi) \<and> v = fault_view_after n ops \<and>
    fi_nservers fi = n \<and> fi_connected fi = fv_connected v \<and> fi_crashed fi = fv_crashed v \<and>
    map_option (\<lambda>c. (co_desp c, co_details c, co_bgcolor c)) (map_of (an_continuous an) TAG_PARTITION) =
      map_option (\<lambda>txt. (txt, txt, COLOR_FAULT)) (fv_text v) \<and>
    (list_all (\<lambda>(_, op). \<not> two_partitions op) ops \<longrightarrow> fv_text v = fault_now (fi_connected fi) (fi_crashed fi))"
proof -
  have "shown n (view_start n) (AnnotateTest t desp n s)"
    by (simp add: shown_def AnnotateTest_def AnnotateInfo_def AnnotatePointColor_def annotatePointColor_def an_clear_def Let_def
        mkFrameworkInfo_def view_start_def open_shows_def)
  from run_anns_ok[OF this assms] obtain an fi where r: "fold_go run_ann ops (AnnotateTest t desp n s) = Ret (an, Some fi)"
    "fi_nservers fi = n" "fi_connected fi = fv_connected (fault_view_after n ops)" "fi_crashed fi = fv_crashed (fault_view_after n ops)"
    "open_shows an (fv_text (fault_view_after n ops))"
    by (auto simp: shown_def fault_view_after_def)
  have "fv_text (view_start n) = fault_now (fv_connected (view_start n)) (fv_crashed (view_start n))"
    by (simp add: view_start_def fault_now_def list_all_iff)
  then have "list_all (\<lambda>(_, op). \<not> two_partitions op) ops \<longrightarrow> fv_text (fault_view_after n ops) = fault_now (fi_connected fi) (fi_crashed fi)"
    using view_text_current[of "view_start n" ops] by (simp add: r(3,4) fault_view_after_def)
  then show ?thesis using r unfolding open_shows_def by blast
qed

theorem open_fault_annotation_is_current_witness:
  "\<exists>an fi. fold_go run_ann [(3, OpTwoPartitions [0] [1, 2]), (5, OpConnection [True, False, True]), (9, OpShutdown [2])]
       (AnnotateTest 1 ''t'' 3 (mkAnnotation, None)) = Ret (an, Some fi)
     \<and> fi_connected fi = [True, False, True] \<and> fi_crashed fi = [False, False, True]
     \<and> map_option co_desp (map_of (an_continuous an) TAG_PARTITION) = Some ''partition = [1] [0] / crash = [2]''"
proof -
  let ?ops = "[(3, OpTwoPartitions [0] [1, 2]), (5, OpConnection [True, False, True]), (9, OpShutdown [2])]"
  have ok: "list_all (\<lambda>(t, op). ann_op_ok 3 op) ?ops" by simp
  have v: "fault_view_after 3 ?ops = \<lparr>fv_connected = [True, False, True], fv_crashed = [False, False, True],
    fv_text = Some ''partition = [1] [0] / crash = [2]''\<rparr>" by code_simp
  from open_fault_annotation_is_current[OF ok, of 1 "''t''" "(mkAnnotation, None)"] obtain an fi where
    r: "fold_go run_ann ?ops (AnnotateTest 1 ''t'' 3 (mkAnnotation, None)) = Ret (an, Some fi)" "fi_connected fi = [True, False, True]"
    "fi_crashed fi = [False, False, True]" "map_option (\<lambda>c. (co_desp c, co_details c, co_bgcolor c)) (map_of (an_continuous an) TAG_PARTITION) =
      Some (''partition = [1] [0] / crash = [2]'', ''partition = [1] [0] / crash = [2]'', COLOR_FAULT)"
    unfolding v by auto
  then have "map_option co_desp (map_of (an_continuous an) TAG_PARTITION) = Some ''partition = [1] [0] / crash = [2]''" by auto
  with r(1-3) show ?thesis by blast
qed

text \<open>
  Property C36: the intervals that the continuous annotations of one tag leave do not overlap. If
  events come at least 1000 ns apart (the gap the code puts between two intervals) and only open
  annotations are ended, every interval recorded ends no earlier than it starts, and each starts
  after all earlier ones have ended.
\<close>

theorem continuous_intervals_disjoint:
  assumes "cont_times False t ops"
  shows "disjoint_intervals (an_annotations (run_cont tag c ops (an_clear an)))"
proof -
  have "cont_inv tag t (an_clear an)" by (simp add: cont_inv_def an_clear_def disjoint_intervals_def)
  from run_cont_inv[OF this] assms show ?thesis by (auto simp: an_clear_def cont_inv_def)
qed

theorem continuous_intervals_disjoint_witness:
  "disjoint_intervals (an_annotations (run_cont ''tag'' COLOR_USER [(5000, Some ''a''), (7000, Some ''b''), (9000, None), (12000, Some ''c''), (14000, None)] (an_clear mkAnnotation)))
   \<and> map (\<lambda>a. (pa_Start a, pa_End a)) (an_annotations (run_cont ''tag'' COLOR_USER [(5000, Some ''a''), (7000, Some ''b''), (9000, None), (12000, Some ''c''), (14000, None)] (an_clear mkAnnotation)))
     = [(5000, 7000), (8000, 9000), (12000, 14000)]"
  using continuous_intervals_disjoint[of 0 "[(5000, Some ''a''), (7000, Some ''b''), (9000, None), (12000, Some ''c''), (14000, None)]" "''tag''" COLOR_USER mkAnnotation]
  by (simp add: an_clear_def annotateContinuousColor_def annotateContinuousEnd_def concretize_def gm_get_def)

text \<open>
  The begin time of a check is not reset by its end. Two checks ended one after the
  other, where only the first was begun, are both recorded as intervals from the begin of the
  first, the second under the details given at that begin too.
\<close>

lemma checker_begin_survives_end:
  assumes "t0 \<noteq> 0"
  shows "\<exists>a1 a2. go_bind (AnnotateCheckerBegin t0 d0 (an, Some fi)) (\<lambda>s. go_bind (AnnotateCheckerEnd t1 p1 d1 c1 s) (AnnotateCheckerEnd t2 p2 d2 c2))
      = Ret (an\<lparr>an_annotations := an_annotations an @ [a1, a2]\<rparr>, Some (fi\<lparr>fi_ckbegin := \<lparr>cb_ts = t0, cb_details = d0\<rparr>\<rparr>))
    \<and> pa_Start a1 = t0 \<and> pa_End a1 = t1 \<and> pa_Details a1 = d0 @ '': '' @ d1
    \<and> pa_Start a2 = t0 \<and> pa_End a2 = t2 \<and> pa_Details a2 = d0 @ '': '' @ d2"
  using assms
  by (intro exI[of _ "\<lparr>pa_Tag = TAG_CHECKER, pa_Start = t0, pa_End = t1, pa_Description = p1, pa_Details = d0 @ '': '' @ d1, pa_BackgroundColor = c1\<rparr>"]
        exI[of _ "\<lparr>pa_Tag = TAG_CHECKER, pa_Start = t0, pa_End = t2, pa_Description = p2, pa_Details = d0 @ '': '' @ d2, pa_BackgroundColor = c2\<rparr>"])
     (simp add: AnnotateCheckerBegin_def AnnotateCheckerEnd_def with_finfo_def AnnotateIntervalColor_def annotateIntervalColor_def)

text \<open>
  Ending an annotation that is not open records one nevertheless, from time 0 and with no text: so
  does \<^verbatim>\<open>AnnotateClearFailure\<close> at the begin of a test.
\<close>

lemma ending_nothing_records_interval:
  assumes "map_of (an_continuous an) tag = None"
  shows "an_annotations (annotateContinuousEnd t tag an) = an_annotations an @
    [\<lparr>pa_Tag = tag, pa_Start = 0, pa_End = t, pa_Description = [], pa_Details = [], pa_BackgroundColor = []\<rparr>]"
  using assms by (simp add: annotateContinuousEnd_def concretize_def gm_get_def zero_continuous_def)

end
