(* ===== verification/Kv_Test.thy ===== *)
theory Kv_Test
  imports Kv_Model Tester_Config
begin

text \<open>
  The framework of the key/value tests (\<^verbatim>\<open>kvtest1/kvtest.go\<close> and \<^verbatim>\<open>kvtest1/porcupine.go\<close>): clerk calls
  that are logged for the linearizability checker, the loops that drive clerks, and the checks at
  the end of a test. A clerk is the lab's code: a record of two functions on a state of their own,
  and a locale states what a correct clerk promises. The JSON codec of the values is an argument.
  Two clients of a shared key interleave, so the appending client is a step relation. The main
  results are that the log of a correct clerk is linearizable exactly if no put in it was answered
  \<^verbatim>\<open>ErrNoKey\<close>, which the model does not know, and that the check of appends passes after every
  interleaving of clients on a correct store.
\<close>

subsection \<open>Clerks and the log\<close>

record 'w clerk =
  ck_Get :: "string \<Rightarrow> 'w \<Rightarrow> ((string \<times> tversion \<times> string) \<times> 'w) go"
  ck_Put :: "string \<Rightarrow> string \<Rightarrow> tversion \<Rightarrow> 'w \<Rightarrow> (string \<times> 'w) go"

text \<open>
  The state of a test: what the clerk's calls act on, the operation counter of the configuration,
  the log (it may be nil), the number of clock readings so far and the annotations. The \<open>k\<close>-th
  reading of the clock is \<open>clk k\<close>.
\<close>

record 'w kt =
  kt_w :: 'w
  kt_ops :: "32 word"
  kt_log :: "operation list option"
  kt_reads :: nat
  kt_ann :: ann

definition OpLog_Len :: "operation list \<Rightarrow> nat" where
  "OpLog_Len log = length log"

definition OpLog_Append :: "operation \<Rightarrow> operation list \<Rightarrow> operation list" where
  "OpLog_Append op log = log @ [op]"

definition OpLog_Read :: "operation list \<Rightarrow> operation list" where
  "OpLog_Read log = map (\<lambda>op. op) log"

definition kt_Op :: "'w kt \<Rightarrow> 'w kt" where
  "kt_Op s = s\<lparr>kt_ops := kt_ops s + 1\<rparr>"

definition kv_Get :: "(nat \<Rightarrow> int) \<Rightarrow> 'w clerk \<Rightarrow> string \<Rightarrow> int \<Rightarrow> 'w kt \<Rightarrow> ((string \<times> tversion \<times> string) \<times> 'w kt) go" where
  "kv_Get clk ck key cli s =
     (let start = clk (kt_reads s) in
      go_bind (ck_Get ck key (kt_w s)) (\<lambda>((val, ver, err), w).
        let fin = clk (Suc (kt_reads s)); s' = kt_Op (s\<lparr>kt_w := w, kt_reads := Suc (Suc (kt_reads s))\<rparr>)
        in Ret ((val, ver, err), s'\<lparr>kt_log := map_option (OpLog_Append
             \<lparr>ClientId = cli, Input = \<lparr>in_Op = 0, in_Key = key, in_Value = [], in_Version = 0\<rparr>, Call = start,
              Output = \<lparr>out_Value = val, out_Version = ver, out_Err = err\<rparr>, Return = fin\<rparr>) (kt_log s')\<rparr>)))"

definition kv_Put :: "(nat \<Rightarrow> int) \<Rightarrow> 'w clerk \<Rightarrow> string \<Rightarrow> string \<Rightarrow> tversion \<Rightarrow> int \<Rightarrow> 'w kt \<Rightarrow> (string \<times> 'w kt) go" where
  "kv_Put clk ck key value version cli s =
     (let start = clk (kt_reads s) in
      go_bind (ck_Put ck key value version (kt_w s)) (\<lambda>(err, w).
        let fin = clk (Suc (kt_reads s)); s' = kt_Op (s\<lparr>kt_w := w, kt_reads := Suc (Suc (kt_reads s))\<rparr>)
        in Ret (err, s'\<lparr>kt_log := map_option (OpLog_Append
             \<lparr>ClientId = cli, Input = \<lparr>in_Op = 1, in_Key = key, in_Value = value, in_Version = version\<rparr>, Call = start,
              Output = \<lparr>out_Value = [], out_Version = 0, out_Err = err\<rparr>, Return = fin\<rparr>) (kt_log s')\<rparr>)))"

text \<open>The methods of \<^verbatim>\<open>Test\<close> repeat the code of the functions with the test's own log.\<close>

definition ts_Get :: "(nat \<Rightarrow> int) \<Rightarrow> 'w clerk \<Rightarrow> string \<Rightarrow> int \<Rightarrow> 'w kt \<Rightarrow> ((string \<times> tversion \<times> string) \<times> 'w kt) go" where
  "ts_Get = kv_Get"

definition ts_Put :: "(nat \<Rightarrow> int) \<Rightarrow> 'w clerk \<Rightarrow> string \<Rightarrow> string \<Rightarrow> tversion \<Rightarrow> int \<Rightarrow> 'w kt \<Rightarrow> (string \<times> 'w kt) go" where
  "ts_Put = kv_Put"

subsection \<open>Helpers\<close>

definition letterBytes :: string where
  "letterBytes = ''abcdefghijklmnopqrstuvwxyzABCDEFGHIJKLMNOPQRSTUVWXYZ''"

text \<open>\<open>draws\<close>: what \<^verbatim>\<open>rand.Int63\<close> returns, one number per character.\<close>

definition RandValue :: "nat list \<Rightarrow> string" where
  "RandValue draws = map (\<lambda>d. letterBytes ! (d mod length letterBytes)) draws"

definition MakeKeys :: "nat \<Rightarrow> string list" where
  "MakeKeys n = map (\<lambda>i. ''k'' @ itoa (int i)) [0..<n]"

definition ann_read :: "(nat \<Rightarrow> int) \<Rightarrow> (int \<Rightarrow> ann \<Rightarrow> ann go) \<Rightarrow> 'w kt \<Rightarrow> 'w kt go" where
  "ann_read clk f s = go_bind (f (clk (kt_reads s)) (kt_ann s)) (\<lambda>a. Ret (s\<lparr>kt_ann := a, kt_reads := Suc (kt_reads s)\<rparr>))"

subsection \<open>Driving a clerk\<close>

text \<open>The loop of \<^verbatim>\<open>PutAtLeastOnce\<close>: \<open>None\<close> when it runs forever.\<close>

partial_function (option) put_loop :: "(nat \<Rightarrow> int) \<Rightarrow> 'w clerk \<Rightarrow> string \<Rightarrow> string \<Rightarrow> int \<Rightarrow> tversion \<Rightarrow> 'w kt \<Rightarrow> (tversion \<times> 'w kt) go option" where
  "put_loop clk ck key value me ver s = (case ts_Put clk ck key value ver me s of
     Ret r \<Rightarrow> (if fst r = OK then Some (Ret (ver + 1, snd r))
       else if fst r = ErrMaybe \<or> fst r = ErrVersion then put_loop clk ck key value me (ver + 1) (snd r)
       else if ver \<noteq> 0 then Some (Fatal ''Put %v ver %d err %v'')
       else put_loop clk ck key value me ver (snd r))
   | Fatal m \<Rightarrow> Some (Fatal m) | Panic m \<Rightarrow> Some (Panic m) | Diverge \<Rightarrow> None)"

definition PutAtLeastOnce :: "(nat \<Rightarrow> int) \<Rightarrow> 'w clerk \<Rightarrow> string \<Rightarrow> string \<Rightarrow> tversion \<Rightarrow> int \<Rightarrow> 'w kt \<Rightarrow> (tversion \<times> 'w kt) go" where
  "PutAtLeastOnce clk ck key value ver me s =
     (case put_loop clk ck key value me ver s of
        None \<Rightarrow> Diverge
      | Some r \<Rightarrow> go_bind r (\<lambda>(ver', s').
          go_bind (ann_read clk (\<lambda>t a. Ret (AnnotateInfo t (''Put('' @ key @ '', '' @ value @ '') completes'')
            (''version: '' @ itoa (uint ver) @ '' -> '' @ itoa (uint ver')) a)) s') (\<lambda>s''. Ret (ver', s''))))"

definition CheckGet :: "(nat \<Rightarrow> int) \<Rightarrow> 'w clerk \<Rightarrow> string \<Rightarrow> string \<Rightarrow> tversion \<Rightarrow> 'w kt \<Rightarrow> 'w kt go" where
  "CheckGet clk ck key value version s =
     go_bind (ann_read clk (\<lambda>t. AnnotateCheckerBegin t
       (''checking Get('' @ key @ '') = ('' @ value @ '', '' @ itoa (uint version) @ '')'')) s) (\<lambda>s1.
     go_bind (ts_Get clk ck key 0 s1) (\<lambda>((val, ver, err), s2).
       if err \<noteq> OK then
         (let msg = ''Get('' @ key @ '') returns error = '' @ err
          in go_bind (ann_read clk (\<lambda>t. AnnotateCheckerFailure t msg msg) s2) (\<lambda>_. Fatal msg))
       else if val \<noteq> value \<or> ver \<noteq> version then
         (let msg = ''Get('' @ key @ '') returns ('' @ val @ '', '' @ itoa (uint ver) @ '') != ('' @ value @ '', '' @ itoa (uint version) @ '')''
          in go_bind (ann_read clk (\<lambda>t. AnnotateCheckerFailure t msg msg) s2) (\<lambda>_. Fatal msg))
       else
         (let msg = ''Get('' @ key @ '') returns ('' @ val @ '', '' @ itoa (uint ver) @ '') as expected''
          in ann_read clk (\<lambda>t. AnnotateCheckerSuccess t msg ''OK'') s2)))"

definition GetJson :: "(nat \<Rightarrow> int) \<Rightarrow> (string \<Rightarrow> 'j option) \<Rightarrow> 'w clerk \<Rightarrow> string \<Rightarrow> int \<Rightarrow> 'w kt \<Rightarrow> (('j \<times> tversion) \<times> 'w kt) go" where
  "GetJson clk dec ck key me s = go_bind (kv_Get clk ck key me s) (\<lambda>((val, ver, err), s').
     if err = OK then (case dec val of None \<Rightarrow> Fatal ''Unmarshal err %v'' | Some v \<Rightarrow> Ret ((v, ver), s'))
     else Fatal ''%d: Get %q err %v'')"

definition PutJson :: "(nat \<Rightarrow> int) \<Rightarrow> ('j \<Rightarrow> string option) \<Rightarrow> 'w clerk \<Rightarrow> string \<Rightarrow> 'j \<Rightarrow> tversion \<Rightarrow> int \<Rightarrow> 'w kt \<Rightarrow> (string \<times> 'w kt) go" where
  "PutJson clk enc ck key v ver me s = (case enc v of
     None \<Rightarrow> Fatal ''%d: marshal %v''
   | Some b \<Rightarrow> kv_Put clk ck key b ver me s)"

partial_function (option) PutAtLeastOnceJson :: "(nat \<Rightarrow> int) \<Rightarrow> ('j \<Rightarrow> string option) \<Rightarrow> 'w clerk \<Rightarrow> string \<Rightarrow> 'j \<Rightarrow> tversion \<Rightarrow> int \<Rightarrow> 'w kt \<Rightarrow> (tversion \<times> 'w kt) go option" where
  "PutAtLeastOnceJson clk enc ck key v ver me s = (case PutJson clk enc ck key v 0 me s of
     Ret r \<Rightarrow> (if fst r \<noteq> ErrMaybe then Some (Ret (ver, snd r)) else PutAtLeastOnceJson clk enc ck key v (ver + 1) me (snd r))
   | Fatal m \<Rightarrow> Some (Fatal m) | Panic m \<Rightarrow> Some (Panic m) | Diverge \<Rightarrow> None)"

record EntryV =
  ev_Id :: int
  ev_V :: tversion

partial_function (option) OnePut :: "(nat \<Rightarrow> int) \<Rightarrow> (EntryV \<Rightarrow> string option) \<Rightarrow> (string \<Rightarrow> EntryV option) \<Rightarrow> int \<Rightarrow> 'w clerk \<Rightarrow> string \<Rightarrow> tversion \<Rightarrow> 'w kt \<Rightarrow>
    ((tversion \<times> bool) \<times> 'w kt) go option" where
  "OnePut clk enc dec me ck key ver s = (case PutJson clk enc ck key \<lparr>ev_Id = me, ev_V = ver\<rparr> ver me s of
     Ret r \<Rightarrow>
       (let err = fst r in
        if \<not> (err = OK \<or> err = ErrVersion \<or> err = ErrMaybe) then Some (Fatal ''Wrong error %v'')
        else (case GetJson clk dec ck key me (snd r) of
          Ret g \<Rightarrow>
            (let e = fst (fst g); ver0 = snd (fst g) in
             if err = OK \<and> ver0 = ver + 1 \<and> ev_Id e \<noteq> me \<and> ev_V e \<noteq> ver then Some (Fatal ''Wrong value %v'')
             else if err = OK \<or> err = ErrMaybe then Some (Ret ((ver0, err = OK), snd g))
             else OnePut clk enc dec me ck key ver0 (snd g))
        | Fatal m \<Rightarrow> Some (Fatal m) | Panic m \<Rightarrow> Some (Panic m) | Diverge \<Rightarrow> None))
   | Fatal m \<Rightarrow> Some (Fatal m) | Panic m \<Rightarrow> Some (Panic m) | Diverge \<Rightarrow> None)"

text \<open>\<open>names\<close>: the values that \<^verbatim>\<open>Randstring\<close> draws. The results of the puts are not looked at.\<close>

definition SpreadPutsSize :: "(nat \<Rightarrow> int) \<Rightarrow> 'w clerk \<Rightarrow> nat \<Rightarrow> string list \<Rightarrow> 'w kt \<Rightarrow> ((string list \<times> string list) \<times> 'w kt) go" where
  "SpreadPutsSize clk ck n names s =
     (let ka = MakeKeys n; va = take n names in
      go_bind (fold_go (\<lambda>i s. go_bind (ck_Put ck (ka ! i) (va ! i) 0 (kt_w s)) (\<lambda>(_, w). Ret (s\<lparr>kt_w := w\<rparr>))) [0..<n] s) (\<lambda>s1.
      go_bind (fold_go (\<lambda>i. CheckGet clk ck (ka ! i) (va ! i) 1) [0..<n] s1) (\<lambda>s2. Ret ((ka, va), s2))))"

subsection \<open>Checks\<close>

record ClntRes =
  Nok :: int
  Nmaybe :: int

definition CheckPutConcurrent :: "(nat \<Rightarrow> int) \<Rightarrow> (string \<Rightarrow> EntryV option) \<Rightarrow> 'w clerk \<Rightarrow> string \<Rightarrow> ClntRes list \<Rightarrow> ClntRes \<Rightarrow> bool \<Rightarrow> 'w kt \<Rightarrow> (ClntRes \<times> 'w kt) go" where
  "CheckPutConcurrent clk dec ck key rs res reliable s = go_bind (GetJson clk dec ck key (-1) s) (\<lambda>((e, ver0), s').
     let res' = fold (\<lambda>r res. res\<lparr>Nok := Nok res + Nok r, Nmaybe := Nmaybe res + Nmaybe r\<rparr>) rs res in
     if reliable then
       (if ver0 \<noteq> of_int (Nok res') then Fatal ''Reliable: Wrong number of puts: server %d clnts %v'' else Ret (res', s'))
     else if ver0 > of_int (Nok res' + Nmaybe res') then Fatal ''Unreliable: Wrong number of puts: server %d clnts %v''
     else Ret (res', s'))"

record EntryN =
  en_Id :: int
  en_N :: int

fun scan_appends :: "EntryN list \<Rightarrow> (int, int) gomap \<times> (int, int) gomap \<Rightarrow> ((int, int) gomap \<times> (int, int) gomap) go" where
  "scan_appends [] m = Ret m"
| "scan_appends (e # es) (expect, skipped) = (let x = gm_get 0 expect (en_Id e) in
     if x > en_N e then Fatal ''%d: wrong expecting %v but got %v''
     else if x = en_N e then scan_appends es (AList.update (en_Id e) (x + 1) expect, skipped)
     else scan_appends es (AList.update (en_Id e) (en_N e + 1) expect,
       AList.update (en_Id e) (gm_get 0 skipped (en_Id e) + (en_N e - x)) skipped))"

text \<open>Indexing with an identifier: negative or too large panics.\<close>

definition res_nth :: "ClntRes list \<Rightarrow> int \<Rightarrow> ClntRes go" where
  "res_nth rs c = (if 0 \<le> c then go_nth rs (nat c) else Panic ''index out of range'')"

fun check_results :: "(int, int) gomap \<Rightarrow> (int, int) gomap \<Rightarrow> ClntRes list \<Rightarrow> unit go" where
  "check_results [] skipped rs = Ret ()"
| "check_results ((c, n) # expect) skipped rs = go_bind (res_nth rs c) (\<lambda>r.
     if gm_get 0 skipped c > Nmaybe r then Fatal ''%d: skipped puts %d on server > %d maybe''
     else if n > Nok r + Nmaybe r then Fatal ''%d: %d puts on server > ok+maybe %d''
     else check_results expect skipped rs)"

definition CheckAppends :: "EntryN list \<Rightarrow> nat \<Rightarrow> ClntRes list \<Rightarrow> tversion \<Rightarrow> unit go" where
  "CheckAppends es nclnt rs ver =
     (let zero = map (\<lambda>i. (int i, 0)) [0..<nclnt] in
      go_bind (scan_appends es (zero, zero)) (\<lambda>(expect, skipped).
        if int (length es) + 1 \<noteq> sint ver then Fatal ''%d appends in val != puts on server %d''
        else check_results expect skipped rs))"

subsection \<open>Partitioning and the linearizability check\<close>

text \<open>
  One round of \<^verbatim>\<open>Partitioner\<close>: \<open>draws\<close> are the random numbers for the servers, which choose a side each.
\<close>

definition partition_sides :: "nat list \<Rightarrow> nat \<Rightarrow> nat list \<times> nat list" where
  "partition_sides draws n = (let a = map (\<lambda>d. d mod 2) draws in
     (filter (\<lambda>j. a ! j = 0) [0..<n], filter (\<lambda>j. a ! j = 1) [0..<n]))"

definition partitioner_round :: "nat list \<Rightarrow> int \<Rightarrow> ('s, 'v) gs \<times> ann \<Rightarrow> (('s, 'v) gs \<times> ann) go" where
  "partitioner_round draws t ga = (case ga of (g, a) \<Rightarrow> case partition_sides draws (grp_N (fst g)) of (p0, p1) \<Rightarrow>
     go_bind (grp_Partition p0 p1 g) (\<lambda>g'. Ret (g', AnnotateTwoPartitions t (map int p0) (map int p1) a)))"

text \<open>
  \<^verbatim>\<open>checkPorcupine\<close>: \<open>res\<close> is the verdict of the checker, \<open>vis\<close> the value of \<^verbatim>\<open>VIS_ENABLE\<close>, \<open>opened\<close>
  whether the file for the visualisation could be opened. The first component of the result is
  what is written to that file.
\<close>

datatype check_result = Legal | Illegal | Unknown

definition checkPorcupine :: "check_result \<Rightarrow> string \<Rightarrow> bool \<Rightarrow> int \<Rightarrow> int \<Rightarrow> ann \<Rightarrow> pannot list option \<times> ann go" where
  "checkPorcupine res vis opened t1 t2 a =
     (if res = Illegal then
        (if \<not> opened then None else if vis \<noteq> ''never'' then Some (fst (FinalizeAnnotations t1 t2 ''test failed'' a)) else None,
         Fatal ''history is not linearizable'')
      else if vis = ''always'' \<and> GetAnnotationFinalized a then
        (if \<not> opened then (None, Ret a)
         else case FinalizeAnnotations t1 t2 ''test passed'' a of (as, a') \<Rightarrow> (Some as, Ret a'))
      else (None, Ret a))"

subsection \<open>Appending clients\<close>

text \<open>
  One appending client: its iteration \<open>i\<close>, its counters, and where it is in the two loops: at the
  head of the outer loop, about to get the value, holding the extended list and the version it
  read, or returned. The value of the shared key is the list that its JSON text encodes.
\<close>

datatype append_pc = Outer | Trying | Got "EntryN list" tversion | Stopped

record appender =
  ap_i :: int
  ap_nok :: int
  ap_nmay :: int
  ap_pc :: append_pc

record append_world =
  aw_val :: "EntryN list"
  aw_ver :: tversion
  aw_clients :: "appender list"

definition set_client :: "append_world \<Rightarrow> nat \<Rightarrow> appender \<Rightarrow> append_world" where
  "set_client w me a = w\<lparr>aw_clients := (aw_clients w)[me := a]\<rparr>"

text \<open>What a client does with the result of its put.\<close>

definition put_result :: "string \<Rightarrow> appender \<Rightarrow> appender" where
  "put_result err a =
     (if err = OK then a\<lparr>ap_nok := ap_nok a + 1, ap_i := ap_i a + 1, ap_pc := Outer\<rparr>
      else if err = ErrMaybe then a\<lparr>ap_nmay := ap_nmay a + 1, ap_i := ap_i a + 1, ap_pc := Outer\<rparr>
      else a\<lparr>ap_pc := Trying\<rparr>)"

text \<open>
  The clients on a store whose operations are atomic: a put with the current version is applied
  and answered \<^verbatim>\<open>OK\<close> or \<^verbatim>\<open>ErrMaybe\<close>, any other put is not applied and answered \<^verbatim>\<open>ErrVersion\<close> or
  \<^verbatim>\<open>ErrMaybe\<close>, as \<^verbatim>\<open>KvModel\<close> has it.
\<close>

inductive app_step :: "append_world \<Rightarrow> append_world \<Rightarrow> bool" where
  enter: "me < length (aw_clients w) \<Longrightarrow> a = aw_clients w ! me \<Longrightarrow> ap_pc a = Outer \<Longrightarrow>
    app_step w (set_client w me (a\<lparr>ap_pc := Trying\<rparr>))"
| stop: "me < length (aw_clients w) \<Longrightarrow> a = aw_clients w ! me \<Longrightarrow> ap_pc a = Outer \<Longrightarrow>
    app_step w (set_client w me (a\<lparr>ap_pc := Stopped\<rparr>))"
| get: "me < length (aw_clients w) \<Longrightarrow> a = aw_clients w ! me \<Longrightarrow> ap_pc a = Trying \<Longrightarrow>
    app_step w (set_client w me (a\<lparr>ap_pc := Got (aw_val w @ [\<lparr>en_Id = int me, en_N = ap_i a\<rparr>]) (aw_ver w)\<rparr>))"
| put_applied: "me < length (aw_clients w) \<Longrightarrow> a = aw_clients w ! me \<Longrightarrow> ap_pc a = Got es ver \<Longrightarrow> ver = aw_ver w \<Longrightarrow>
    err = OK \<or> err = ErrMaybe \<Longrightarrow>
    app_step w (set_client (w\<lparr>aw_val := es, aw_ver := ver + 1\<rparr>) me (put_result err a))"
| put_refused: "me < length (aw_clients w) \<Longrightarrow> a = aw_clients w ! me \<Longrightarrow> ap_pc a = Got es ver \<Longrightarrow> ver \<noteq> aw_ver w \<Longrightarrow>
    err = ErrVersion \<or> err = ErrMaybe \<Longrightarrow>
    app_step w (set_client w me (put_result err a))"

text \<open>The key holds the empty list, put once, before the clients start.\<close>

definition append_start :: "nat \<Rightarrow> append_world" where
  "append_start n = \<lparr>aw_val = [], aw_ver = 1, aw_clients = replicate n \<lparr>ap_i = 0, ap_nok = 0, ap_nmay = 0, ap_pc = Outer\<rparr>\<rparr>"

definition append_results :: "append_world \<Rightarrow> ClntRes list" where
  "append_results w = map (\<lambda>a. \<lparr>Nok = ap_nok a, Nmaybe = ap_nmay a\<rparr>) (aw_clients w)"

text \<open>The numbers of the entries of one client.\<close>

definition ns_of :: "int \<Rightarrow> EntryN list \<Rightarrow> int list" where
  "ns_of c es = map en_N (filter (\<lambda>e. en_Id e = c) es)"

definition entries_ok :: "int \<Rightarrow> int \<Rightarrow> int \<Rightarrow> EntryN list \<Rightarrow> bool" where
  \<comment> \<open>increasing, below the iteration of the client, and at least one for each \<^verbatim>\<open>OK\<close>\<close>
  "entries_ok c i nok es \<longleftrightarrow> sorted_wrt (<) (ns_of c es) \<and> (\<forall>n\<in>set (ns_of c es). 0 \<le> n \<and> n < i) \<and> nok \<le> int (length (ns_of c es))"

fun got_ok :: "EntryN list \<Rightarrow> EntryN \<Rightarrow> append_pc \<Rightarrow> bool" where
  \<comment> \<open>what a client holds is some earlier value, extended, with the version of that value\<close>
  "got_ok es e (Got es' ver) \<longleftrightarrow> (\<exists>m\<le>length es. ver = of_nat (Suc m) \<and> es' = take m es @ [e])"
| "got_ok es e _ \<longleftrightarrow> True"

definition client_ok :: "EntryN list \<Rightarrow> nat \<Rightarrow> appender \<Rightarrow> bool" where
  "client_ok es c a \<longleftrightarrow> ap_i a = ap_nok a + ap_nmay a \<and> 0 \<le> ap_nok a \<and> 0 \<le> ap_nmay a
     \<and> entries_ok (int c) (ap_i a) (ap_nok a) es
     \<and> got_ok es \<lparr>en_Id = int c, en_N = ap_i a\<rparr> (ap_pc a)"

definition append_inv :: "nat \<Rightarrow> nat \<Rightarrow> append_world \<Rightarrow> bool" where
  "append_inv n k w \<longleftrightarrow> length (aw_clients w) = n \<and> length (aw_val w) \<le> k \<and> aw_ver w = of_nat (Suc (length (aw_val w)))
     \<and> (\<forall>e\<in>set (aw_val w). 0 \<le> en_Id e \<and> en_Id e < int n)
     \<and> (\<forall>c<n. client_ok (aw_val w) c (aw_clients w ! c))"

lemma ns_of_append [simp]: "ns_of c (es @ es') = ns_of c es @ ns_of c es'"
  by (simp add: ns_of_def)

lemma got_ok_grow: "got_ok es e pc \<Longrightarrow> got_ok (es @ [e']) e pc"
proof (induction es e pc rule: got_ok.induct)
  case (1 es e es' ver)
  then obtain m where "m \<le> length es" "ver = of_nat (Suc m)" "es' = take m es @ [e]" by auto
  then show ?case by (auto intro!: exI[of _ m])
qed auto

lemma client_ok_grow: "client_ok es c a \<Longrightarrow> en_Id e \<noteq> int c \<Longrightarrow> client_ok (es @ [e]) c a"
  by (auto simp: client_ok_def entries_ok_def ns_of_def intro: got_ok_grow)

lemma append_inv_set:
  assumes "append_inv n k w" "me < n" "client_ok (aw_val w) me a"
  shows "append_inv n (Suc k) (set_client w me a)"
  using assms by (auto simp: append_inv_def set_client_def nth_list_update)

lemma append_inv_apply:
  assumes inv: "append_inv n k w" and me: "me < n" and k: "k < 2 ^ 63"
    and a: "a = aw_clients w ! me" "ap_pc a = Got es (aw_ver w)" and err: "err = OK \<or> err = ErrMaybe"
  shows "append_inv n (Suc k) (set_client (w\<lparr>aw_val := es, aw_ver := aw_ver w + 1\<rparr>) me (put_result err a))"
proof -
  let ?e = "\<lparr>en_Id = int me, en_N = ap_i a\<rparr>"
  have ok: "client_ok (aw_val w) me a" using inv me a by (simp add: append_inv_def)
  then obtain m where m: "m \<le> length (aw_val w)" "aw_ver w = of_nat (Suc m)" "es = take m (aw_val w) @ [?e]"
    using a(2) by (auto simp: client_ok_def)
  have ver: "aw_ver w = of_nat (Suc (length (aw_val w)))" and len: "length (aw_val w) \<le> k" using inv by (simp_all add: append_inv_def)
  have "Suc m = Suc (length (aw_val w))"
  proof -
    have "unat (aw_ver w) = Suc m" using m len k by (intro of_nat_inverse) auto
    moreover have "unat (aw_ver w) = Suc (length (aw_val w))" using ver len k by (intro of_nat_inverse) auto
    ultimately show ?thesis by simp
  qed
  then have es: "es = aw_val w @ [?e]" using m(3) by simp
  have "client_ok es me (put_result err a)"
    using ok err es by (auto simp: client_ok_def entries_ok_def put_result_def ns_of_def sorted_wrt_append)
  moreover have "client_ok es c (aw_clients w ! c)" if "c < n" "c \<noteq> me" for c
    using inv that unfolding es by (intro client_ok_grow) (auto simp: append_inv_def)
  ultimately show ?thesis
    using inv me es len by (auto simp: append_inv_def set_client_def nth_list_update)
qed

lemma append_inv_step:
  assumes "app_step w w'" "append_inv n k w" "k < 2 ^ 63"
  shows "append_inv n (Suc k) w'"
proof -
  have ok: "client_ok (aw_val w) me (aw_clients w ! me)" "me < n" if "me < length (aw_clients w)" for me
    using assms(2) that by (auto simp: append_inv_def)
  have ver: "aw_ver w = of_nat (Suc (length (aw_val w)))" using assms(2) by (simp add: append_inv_def)
  show ?thesis
    using assms(1)
  proof (cases rule: app_step.cases)
    case (put_applied me a es ver err)
    then show ?thesis using append_inv_apply[OF assms(2) ok(2) assms(3)] by simp
  next
    case (enter me a)
    then show ?thesis unfolding enter(1) using ok[of me] by (intro append_inv_set[OF assms(2)]) (auto simp: client_ok_def)
  next
    case (stop me a)
    then show ?thesis unfolding stop(1) using ok[of me] by (intro append_inv_set[OF assms(2)]) (auto simp: client_ok_def)
  next
    case (get me a)
    have "client_ok (aw_val w) me (a\<lparr>ap_pc := Got (aw_val w @ [\<lparr>en_Id = int me, en_N = ap_i a\<rparr>]) (aw_ver w)\<rparr>)"
      using ok(1)[of me] get ver by (auto simp: client_ok_def intro!: exI[of _ "length (aw_val w)"])
    then show ?thesis unfolding get(1) using ok(2) get by (intro append_inv_set[OF assms(2)])
  next
    case (put_refused me a es ver err)
    have "client_ok (aw_val w) me (put_result err a)"
      using ok(1)[of me] put_refused by (auto simp: client_ok_def entries_ok_def put_result_def err_defs)
    then show ?thesis unfolding put_refused(1) using ok(2) put_refused by (intro append_inv_set[OF assms(2)])
  qed
qed

lemma append_inv_start: "append_inv n 0 (append_start n)"
  by (simp add: append_inv_def append_start_def client_ok_def entries_ok_def ns_of_def)

lemma append_inv_steps:
  assumes "(app_step ^^ k) (append_start n) w" "k < 2 ^ 63"
  shows "append_inv n k w"
  using assms
proof (induction k arbitrary: w)
  case (Suc k)
  then show ?case using append_inv_step by (auto elim!: relcomppE)
qed (auto simp: append_inv_start)

text \<open>What the scan of the entries computes, for entries that increase for each client.\<close>

definition expected :: "int \<Rightarrow> EntryN list \<Rightarrow> int" where
  "expected c es = (if ns_of c es = [] then 0 else last (ns_of c es) + 1)"

definition scan_inv :: "int list \<Rightarrow> EntryN list \<Rightarrow> (int, int) gomap \<Rightarrow> (int, int) gomap \<Rightarrow> bool" where
  "scan_inv ids es expect skipped \<longleftrightarrow> gm_keys expect = ids
     \<and> (\<forall>c. gm_get 0 expect c = expected c es \<and> gm_get 0 skipped c = expected c es - int (length (ns_of c es)))"

lemma gm_keys_update: "gm_has m k \<Longrightarrow> gm_keys (AList.update k v m) = gm_keys m"
  by (simp add: update_keys)

lemma expected_le:
  assumes "\<forall>n\<in>set (ns_of c es). n < b" "0 \<le> b"
  shows "expected c es \<le> b"
proof (cases "ns_of c es = []")
  case False
  then have "last (ns_of c es) < b" using assms(1) by simp
  then show ?thesis using False by (simp add: expected_def)
qed (use assms(2) in \<open>simp add: expected_def\<close>)

lemma scan_appends_ok:
  assumes "scan_inv ids P expect skipped" "\<forall>c. sorted_wrt (<) (ns_of c (P @ es))"
    "\<forall>e\<in>set (P @ es). en_Id e \<in> set ids \<and> 0 \<le> en_N e"
  shows "\<exists>expect' skipped'. scan_appends es (expect, skipped) = Ret (expect', skipped') \<and> scan_inv ids (P @ es) expect' skipped'"
  using assms
proof (induction es arbitrary: P expect skipped)
  case (Cons e es)
  let ?c = "en_Id e" and ?N = "en_N e"
  let ?x = "expected ?c P"
  let ?E = "AList.update ?c (?N + 1) expect"
  let ?S = "if ?x = ?N then skipped else AList.update ?c (gm_get 0 skipped ?c + (?N - ?x)) skipped"
  have ns: "ns_of c [e] = (if c = ?c then [?N] else [])" for c by (simp add: ns_of_def)
  have ex: "expected c (P @ [e]) = (if c = ?c then ?N + 1 else expected c P)" for c by (simp add: expected_def ns)
  have "sorted_wrt (<) (ns_of ?c P @ [?N])"
    using Cons.prems(2)[rule_format, of ?c] by (simp add: ns_of_def sorted_wrt_append)
  then have le: "?x \<le> ?N" using Cons.prems(3) by (intro expected_le) (auto simp: sorted_wrt_append)
  have has: "gm_has expect ?c" using Cons.prems(1,3) by (auto simp: scan_inv_def image_set simp del: set_map)
  have inv: "scan_inv ids (P @ [e]) ?E ?S"
    using Cons.prems(1) has by (auto simp: scan_inv_def gm_keys_update ns ex)
  have "scan_appends (e # es) (expect, skipped) = scan_appends es (?E, ?S)"
    using Cons.prems(1) le by (auto simp: scan_inv_def Let_def)
  with Cons.IH[OF inv] Cons.prems(2,3) show ?case by simp
qed auto

lemma check_results_ok:
  assumes "\<And>c n. (c, n) \<in> set expect \<Longrightarrow> 0 \<le> c \<and> nat c < length rs \<and> gm_get 0 skipped c \<le> Nmaybe (rs ! nat c)
      \<and> n \<le> Nok (rs ! nat c) + Nmaybe (rs ! nat c)"
  shows "check_results expect skipped rs = Ret ()"
  using assms
proof (induction expect)
  case (Cons x expect)
  obtain c n where x: "x = (c, n)" by fastforce
  have "check_results expect skipped rs = Ret ()" by (rule Cons.IH) (use Cons.prems in auto)
  then show ?case using Cons.prems[of c n] x by (simp add: res_nth_def not_less)
qed simp

lemma client_ok_bounds:
  assumes "client_ok es c a"
  shows "expected (int c) es \<le> ap_nok a + ap_nmay a" "expected (int c) es - int (length (ns_of (int c) es)) \<le> ap_nmay a"
proof -
  have ok: "ap_i a = ap_nok a + ap_nmay a" "\<forall>n\<in>set (ns_of (int c) es). 0 \<le> n \<and> n < ap_i a"
    "ap_nok a \<le> int (length (ns_of (int c) es))" "0 \<le> ap_nok a" "0 \<le> ap_nmay a"
    using assms by (auto simp: client_ok_def entries_ok_def)
  then show "expected (int c) es \<le> ap_nok a + ap_nmay a" by (intro expected_le) auto
  then show "expected (int c) es - int (length (ns_of (int c) es)) \<le> ap_nmay a" using ok(3) by linarith
qed

lemma append_inv_sorted:
  assumes "append_inv n k w"
  shows "sorted_wrt (<) (ns_of c (aw_val w))" "\<forall>e\<in>set (aw_val w). 0 \<le> en_N e"
proof -
  have ids: "\<forall>e\<in>set (aw_val w). 0 \<le> en_Id e \<and> en_Id e < int n" using assms by (simp add: append_inv_def)
  have ok: "entries_ok c (ap_i (aw_clients w ! nat c)) (ap_nok (aw_clients w ! nat c)) (aw_val w)" if "0 \<le> c" "c < int n" for c
  proof -
    have "client_ok (aw_val w) (nat c) (aw_clients w ! nat c)" using assms that by (auto simp: append_inv_def nat_less_iff)
    then have "entries_ok (int (nat c)) (ap_i (aw_clients w ! nat c)) (ap_nok (aw_clients w ! nat c)) (aw_val w)"
      unfolding client_ok_def by blast
    then show ?thesis using that by simp
  qed
  show "sorted_wrt (<) (ns_of c (aw_val w))"
  proof (cases "0 \<le> c \<and> c < int n")
    case True then show ?thesis using ok by (simp add: entries_ok_def)
  next
    case False then have "ns_of c (aw_val w) = []" using ids by (auto simp: ns_of_def filter_empty_conv)
    then show ?thesis by simp
  qed
  show "\<forall>e\<in>set (aw_val w). 0 \<le> en_N e"
  proof
    fix e assume e: "e \<in> set (aw_val w)"
    then have "en_N e \<in> set (ns_of (en_Id e) (aw_val w))" by (simp add: ns_of_def)
    then show "0 \<le> en_N e" using ok[of "en_Id e"] ids e by (auto simp: entries_ok_def)
  qed
qed

lemma append_inv_check:
  assumes inv: "append_inv n k w" and k: "k < 2 ^ 62"
  shows "CheckAppends (aw_val w) n (append_results w) (aw_ver w) = Ret ()"
proof -
  let ?zero = "map (\<lambda>i. (int i, 0::int)) [0..<n]" and ?ids = "map int [0..<n]"
  have "gm_get 0 ?zero c = 0" for c
    by (cases "map_of ?zero c") (auto simp: gm_get_def dest!: map_of_SomeD)
  then have "scan_inv ?ids [] ?zero ?zero" by (simp add: scan_inv_def expected_def ns_of_def comp_def)
  moreover have "\<forall>e\<in>set (aw_val w). en_Id e \<in> set ?ids"
    using inv by (auto simp: append_inv_def image_iff Bex_def intro!: exI[of _ "nat _"] dest!: bspec)
  ultimately obtain expect skipped where sc: "scan_appends (aw_val w) (?zero, ?zero) = Ret (expect, skipped)"
    "scan_inv ?ids (aw_val w) expect skipped"
    using scan_appends_ok[of ?ids "[]" ?zero ?zero "aw_val w"] append_inv_sorted[OF inv] by auto
  have dist: "distinct (gm_keys expect)" using sc(2) by (simp add: scan_inv_def distinct_map)
  have "check_results expect skipped (append_results w) = Ret ()"
  proof (rule check_results_ok)
    fix c m assume cm: "(c, m) \<in> set expect"
    then have "c \<in> set ?ids" using sc(2) by (metis fst_conv image_eqI image_set scan_inv_def)
    then obtain i where i: "c = int i" "i < n" by auto
    have m: "m = expected c (aw_val w)"
      using cm dist sc(2) by (auto simp: scan_inv_def gm_get_def dest!: map_of_is_SomeI split: option.splits)
    have "client_ok (aw_val w) i (aw_clients w ! i)" "length (aw_clients w) = n" using inv i by (auto simp: append_inv_def)
    with client_ok_bounds[OF this(1)] m i sc(2)
    show "0 \<le> c \<and> nat c < length (append_results w) \<and> gm_get 0 skipped c \<le> Nmaybe (append_results w ! nat c)
      \<and> m \<le> Nok (append_results w ! nat c) + Nmaybe (append_results w ! nat c)"
      by (simp add: append_results_def scan_inv_def)
  qed
  moreover have "sint (aw_ver w) = int (length (aw_val w)) + 1"
  proof -
    have "aw_ver w = of_nat (Suc (length (aw_val w)))" "length (aw_val w) \<le> k" using inv by (auto simp: append_inv_def)
    then show ?thesis using k by (simp add: signed_of_nat signed_take_bit_int_eq_self del: of_nat_Suc)
  qed
  ultimately show ?thesis using sc(1) by (simp add: CheckAppends_def Let_def)
qed

subsection \<open>What a correct clerk promises\<close>

text \<open>
  The contract of \<^verbatim>\<open>IKVClerk\<close> as the comments of \<^verbatim>\<open>kvsrv1/server.go\<close> and \<^verbatim>\<open>kvsrv1/client.go\<close> give it, for a clerk used by one client at a
  time: a get returns the value and version of the key (version 0: there is no such key), a put with the version of the key is applied and
  answered \<^verbatim>\<open>OK\<close> or \<^verbatim>\<open>ErrMaybe\<close>; any other put changes nothing and is answered \<^verbatim>\<open>ErrNoKey\<close> if there is no such key, \<^verbatim>\<open>ErrVersion\<close> if there is, or
  \<^verbatim>\<open>ErrMaybe\<close>. \<open>st w\<close> is the content of the store behind the clerk.
\<close>

definition refusal :: "kv_state \<Rightarrow> string" where
  "refusal x = (if st_Version x = 0 then ErrNoKey else ErrVersion)"

locale kv_clerk =
  fixes ck :: "'w clerk" and ok :: "'w \<Rightarrow> bool" and st :: "'w \<Rightarrow> string \<Rightarrow> kv_state"
  assumes get_law: "ok w \<Longrightarrow> \<exists>w'. ck_Get ck k w = Ret ((st_Value (st w k), st_Version (st w k),
        if st_Version (st w k) = 0 then ErrNoKey else OK), w') \<and> ok w' \<and> st w' = st w"
    and put_law: "ok w \<Longrightarrow> \<exists>err w'. ck_Put ck k v ver w = Ret (err, w') \<and> ok w' \<and>
        (if st_Version (st w k) = ver
         then st w' = (st w)(k := \<lparr>st_Value = v, st_Version = ver + 1\<rparr>) \<and> (err = OK \<or> err = ErrMaybe)
         else st w' = st w \<and> (err = refusal (st w k) \<or> err = ErrMaybe))"

text \<open>A clerk that answers \<^verbatim>\<open>ErrMaybe\<close> finitely often.\<close>

locale kv_clerk_live = kv_clerk +
  fixes maybes :: "'w \<Rightarrow> nat"
  assumes maybe_law: "ok w \<Longrightarrow> ck_Put ck k v ver w = Ret (ErrMaybe, w') \<Longrightarrow> maybes w' < maybes w"

context kv_clerk
begin

lemma kv_Get_eq:
  assumes "ok (kt_w s)"
  shows "\<exists>s'. kv_Get clk ck key cli s = Ret ((st_Value (st (kt_w s) key), st_Version (st (kt_w s) key),
      if st_Version (st (kt_w s) key) = 0 then ErrNoKey else OK), s')
    \<and> ok (kt_w s') \<and> st (kt_w s') = st (kt_w s) \<and> kt_reads s' = Suc (Suc (kt_reads s)) \<and> kt_ann s' = kt_ann s
    \<and> kt_log s' = map_option (\<lambda>l. l @ [\<lparr>ClientId = cli, Input = \<lparr>in_Op = 0, in_Key = key, in_Value = [], in_Version = 0\<rparr>,
        Call = clk (kt_reads s), Output = \<lparr>out_Value = st_Value (st (kt_w s) key), out_Version = st_Version (st (kt_w s) key),
          out_Err = if st_Version (st (kt_w s) key) = 0 then ErrNoKey else OK\<rparr>, Return = clk (Suc (kt_reads s))\<rparr>]) (kt_log s)"
proof -
  obtain w' where "ck_Get ck key (kt_w s) = Ret ((st_Value (st (kt_w s) key), st_Version (st (kt_w s) key),
      if st_Version (st (kt_w s) key) = 0 then ErrNoKey else OK), w')" "ok w'" "st w' = st (kt_w s)"
    using get_law[OF assms] by blast
  then show ?thesis by (simp add: kv_Get_def Let_def kt_Op_def OpLog_Append_def[abs_def])
qed

lemma kv_Put_eq:
  assumes "ok (kt_w s)"
  shows "\<exists>err s'. kv_Put clk ck key v ver cli s = Ret (err, s') \<and> ck_Put ck key v ver (kt_w s) = Ret (err, kt_w s')
    \<and> ok (kt_w s') \<and> kt_reads s' = Suc (Suc (kt_reads s)) \<and> kt_ann s' = kt_ann s
    \<and> (if st_Version (st (kt_w s) key) = ver
       then st (kt_w s') = (st (kt_w s))(key := \<lparr>st_Value = v, st_Version = ver + 1\<rparr>) \<and> (err = OK \<or> err = ErrMaybe)
       else st (kt_w s') = st (kt_w s) \<and> (err = refusal (st (kt_w s) key) \<or> err = ErrMaybe))
    \<and> kt_log s' = map_option (\<lambda>l. l @ [\<lparr>ClientId = cli, Input = \<lparr>in_Op = 1, in_Key = key, in_Value = v, in_Version = ver\<rparr>,
        Call = clk (kt_reads s), Output = \<lparr>out_Value = [], out_Version = 0, out_Err = err\<rparr>, Return = clk (Suc (kt_reads s))\<rparr>]) (kt_log s)"
proof -
  obtain err w' where "ck_Put ck key v ver (kt_w s) = Ret (err, w')" "ok w'"
    "if st_Version (st (kt_w s) key) = ver
     then st w' = (st (kt_w s))(key := \<lparr>st_Value = v, st_Version = ver + 1\<rparr>) \<and> (err = OK \<or> err = ErrMaybe)
     else st w' = st (kt_w s) \<and> (err = refusal (st (kt_w s) key) \<or> err = ErrMaybe)"
    using put_law[OF assms] by blast
  note put = this
  obtain s' where s': "kv_Put clk ck key v ver cli s = Ret (err, s')" "kt_w s' = w'" "kt_reads s' = Suc (Suc (kt_reads s))"
    "kt_ann s' = kt_ann s" "kt_log s' = map_option (\<lambda>l. l @ [\<lparr>ClientId = cli, Input = \<lparr>in_Op = 1, in_Key = key, in_Value = v, in_Version = ver\<rparr>,
        Call = clk (kt_reads s), Output = \<lparr>out_Value = [], out_Version = 0, out_Err = err\<rparr>, Return = clk (Suc (kt_reads s))\<rparr>]) (kt_log s)"
    using put(1) by (simp add: kv_Put_def Let_def kt_Op_def OpLog_Append_def[abs_def])
  show ?thesis
    by (rule exI[of _ err], rule exI[of _ s']) (intro conjI s'(1,3-5) put[folded s'(2)])
qed

end

text \<open>The sequential use of a clerk by the test.\<close>

datatype top = TGet string int | TPut string string tversion int

fun run_top :: "(nat \<Rightarrow> int) \<Rightarrow> 'w clerk \<Rightarrow> top \<Rightarrow> 'w kt \<Rightarrow> 'w kt go" where
  "run_top clk ck (TGet key cli) s = go_bind (ts_Get clk ck key cli s) (\<lambda>(_, s'). Ret s')"
| "run_top clk ck (TPut key v ver cli) s = go_bind (ts_Put clk ck key v ver cli s) (\<lambda>(_, s'). Ret s')"

text \<open>The state of the keys after a legal sequence of operations.\<close>

fun store_after :: "(string \<Rightarrow> kv_dyn) \<Rightarrow> operation list \<Rightarrow> string \<Rightarrow> kv_dyn" where
  "store_after m [] = m"
| "store_after m (v # vs) = (case Step (m (op_key v)) (Input v) (Output v) of
     Ret (ok, st') \<Rightarrow> store_after (m(op_key v := st')) vs | _ \<Rightarrow> m)"

lemma run_store_snoc:
  "run_store m (vs @ [v]) \<longleftrightarrow> run_store m vs \<and> (case Step (store_after m vs (op_key v)) (Input v) (Output v) of Ret (ok, _) \<Rightarrow> ok | _ \<Rightarrow> False)"
proof (induction vs arbitrary: m)
  case Nil
  show ?case by (cases "Step (m (op_key v)) (Input v) (Output v)") auto
next
  case (Cons u vs)
  show ?case
  proof (cases "Step (m (op_key u)) (Input u) (Output u)")
    case (Ret r)
    then show ?thesis by (cases r) (simp add: Cons.IH del: fun_upd_apply)
  qed simp_all
qed

lemma store_after_snoc:
  assumes "run_store m vs" "Step (store_after m vs (op_key v)) (Input v) (Output v) = Ret (b, x)"
  shows "store_after m (vs @ [v]) = (store_after m vs)(op_key v := x)"
  using assms
proof (induction vs arbitrary: m)
  case (Cons u vs)
  show ?case
  proof (cases "Step (m (op_key u)) (Input u) (Output u)")
    case (Ret r)
    then show ?thesis using Cons by (cases r) (simp del: fun_upd_apply)
  qed (use Cons.prems in simp_all)
qed simp

text \<open>
  A put that was answered \<^verbatim>\<open>ErrNoKey\<close>: \<^verbatim>\<open>Step\<close> of \<^verbatim>\<open>KvModel\<close> accepts none in any state, so no log with one is linearizable.
\<close>

definition no_refused_new :: "operation list \<Rightarrow> bool" where
  "no_refused_new l \<longleftrightarrow> (\<forall>x\<in>set l. in_Op (Input x) = 1 \<longrightarrow> out_Err (Output x) \<noteq> ErrNoKey)"

lemma Step_ErrNoKey: "in_Op inp = 1 \<Longrightarrow> out_Err out = ErrNoKey \<Longrightarrow> Step m inp out = Ret (b, y) \<Longrightarrow> \<not> b"
  by (auto simp: Step_def err_defs split: kv_dyn.splits if_splits)

lemma run_store_no_refused_new: "run_store m l \<Longrightarrow> no_refused_new l"
proof (induction l arbitrary: m)
  case (Cons x l)
  then obtain y where x: "Step (m (op_key x)) (Input x) (Output x) = Ret (True, y)" "run_store (m(op_key x := y)) l"
    by (auto split: go.splits prod.splits)
  then have "in_Op (Input x) = 1 \<longrightarrow> out_Err (Output x) \<noteq> ErrNoKey" using Step_ErrNoKey by blast
  then show ?case using Cons.IH[OF x(2)] by (simp add: no_refused_new_def)
qed (simp add: no_refused_new_def)

lemma linearizable_no_refused_new: "linearizable_store l \<Longrightarrow> no_refused_new l"
  unfolding linearizable_store_def by (metis no_refused_new_def run_store_no_refused_new set_mset_mset)

context kv_clerk
begin

text \<open>
  As long as no put of the log was answered \<^verbatim>\<open>ErrNoKey\<close>, the log is accepted by the model and leads to the content of the store.
\<close>

definition logged :: "(nat \<Rightarrow> int) \<Rightarrow> 'w kt \<Rightarrow> bool" where
  "logged clk s \<longleftrightarrow> ok (kt_w s) \<and> (\<exists>l. kt_log s = Some l \<and> (no_refused_new l \<longrightarrow> run_store (\<lambda>_. Init) l
     \<and> store_after (\<lambda>_. Init) l = (\<lambda>k. DynState (st (kt_w s) k)))
     \<and> sorted_wrt (\<lambda>a b. Return a \<le> Call b) l \<and> (\<forall>a\<in>set l. Call a \<le> Return a \<and> Return a \<le> clk (kt_reads s)))"

lemma logged_step:
  assumes clk: "mono clk" and log: "logged clk s" and ok: "ok (kt_w s')" and reads: "kt_reads s' = Suc (Suc (kt_reads s))"
    and op: "kt_log s' = map_option (\<lambda>l. l @ [x]) (kt_log s)" "Call x = clk (kt_reads s)" "Return x = clk (Suc (kt_reads s))"
    and step: "no_refused_new [x] \<longrightarrow> Step (DynState (st (kt_w s) (op_key x))) (Input x) (Output x) = Ret (True, y)"
    and new: "(\<lambda>k. DynState (st (kt_w s') k)) = (\<lambda>k. DynState (st (kt_w s) k))(op_key x := y)"
  shows "logged clk s'"
proof -
  obtain l where l: "kt_log s = Some l" "no_refused_new l \<Longrightarrow> run_store (\<lambda>_. Init) l"
    "no_refused_new l \<Longrightarrow> store_after (\<lambda>_. Init) l = (\<lambda>k. DynState (st (kt_w s) k))" "sorted_wrt (\<lambda>a b. Return a \<le> Call b) l" "\<forall>a\<in>set l. Call a \<le> Return a \<and> Return a \<le> clk (kt_reads s)"
    using log by (auto simp: logged_def)
  have mono: "clk (kt_reads s) \<le> clk (Suc (kt_reads s))" "clk (Suc (kt_reads s)) \<le> clk (Suc (Suc (kt_reads s)))"
    using clk by (auto simp: mono_def)
  have "run_store (\<lambda>_. Init) (l @ [x])" "store_after (\<lambda>_. Init) (l @ [x]) = (\<lambda>k. DynState (st (kt_w s') k))" if "no_refused_new (l @ [x])"
  proof -
    from that have n: "no_refused_new l" "no_refused_new [x]" by (simp_all add: no_refused_new_def)
    note run = l(2)[OF n(1)] and after = l(3)[OF n(1)]
    show "run_store (\<lambda>_. Init) (l @ [x])" using run after step n(2) by (simp add: run_store_snoc)
    show "store_after (\<lambda>_. Init) (l @ [x]) = (\<lambda>k. DynState (st (kt_w s') k))"
      using store_after_snoc[OF run] step n(2) after new by simp
  qed
  moreover have "sorted_wrt (\<lambda>a b. Return a \<le> Call b) (l @ [x])" using l(4,5) op(2) by (simp add: sorted_wrt_append)
  moreover have "\<forall>a\<in>set (l @ [x]). Call a \<le> Return a \<and> Return a \<le> clk (kt_reads s')"
    using l(5) op(2,3) reads mono by (auto intro: order_trans)
  ultimately show ?thesis using ok op(1) l(1) by (simp add: logged_def)
qed

lemma run_top_logged:
  assumes "mono clk" "logged clk s"
  shows "\<exists>s'. run_top clk ck op s = Ret s' \<and> logged clk s'"
proof -
  have ok: "ok (kt_w s)" using assms(2) by (simp add: logged_def)
  show ?thesis
  proof (cases op)
    case (TGet key cli)
    from kv_Get_eq[OF ok, of clk key cli] obtain r s' where s': "kv_Get clk ck key cli s = Ret (r, s')" "ok (kt_w s')"
      "st (kt_w s') = st (kt_w s)" "kt_reads s' = Suc (Suc (kt_reads s))"
      "kt_log s' = map_option (\<lambda>l. l @ [\<lparr>ClientId = cli, Input = \<lparr>in_Op = 0, in_Key = key, in_Value = [], in_Version = 0\<rparr>,
        Call = clk (kt_reads s), Output = \<lparr>out_Value = st_Value (st (kt_w s) key), out_Version = st_Version (st (kt_w s) key),
          out_Err = if st_Version (st (kt_w s) key) = 0 then ErrNoKey else OK\<rparr>, Return = clk (Suc (kt_reads s))\<rparr>]) (kt_log s)"
      by blast
    have "logged clk s'"
      by (rule logged_step[OF assms s'(2,4,5)]) (simp_all add: s'(3) Step_def fun_eq_iff)
    then show ?thesis using s'(1) TGet by (simp add: ts_Get_def)
  next
    case (TPut key v ver cli)
    from kv_Put_eq[OF ok, of clk key v ver cli] obtain err s' where s': "kv_Put clk ck key v ver cli s = Ret (err, s')" "ok (kt_w s')"
      "if st_Version (st (kt_w s) key) = ver
       then st (kt_w s') = (st (kt_w s))(key := \<lparr>st_Value = v, st_Version = ver + 1\<rparr>) \<and> (err = OK \<or> err = ErrMaybe)
       else st (kt_w s') = st (kt_w s) \<and> (err = refusal (st (kt_w s) key) \<or> err = ErrMaybe)"
      "kt_reads s' = Suc (Suc (kt_reads s))"
      "kt_log s' = map_option (\<lambda>l. l @ [\<lparr>ClientId = cli, Input = \<lparr>in_Op = 1, in_Key = key, in_Value = v, in_Version = ver\<rparr>,
        Call = clk (kt_reads s), Output = \<lparr>out_Value = [], out_Version = 0, out_Err = err\<rparr>, Return = clk (Suc (kt_reads s))\<rparr>]) (kt_log s)"
      by blast
    have "logged clk s'"
    proof (cases "st_Version (st (kt_w s) key) = ver")
      case True
      then show ?thesis
        by (intro logged_step[OF assms s'(2,4,5), where y = "DynState \<lparr>st_Value = v, st_Version = ver + 1\<rparr>"])
          (use s'(3) in \<open>auto simp: Step_def err_defs no_refused_new_def\<close>)
    next
      case False
      then show ?thesis
        by (intro logged_step[OF assms s'(2,4,5), where y = "DynState (st (kt_w s) key)"])
          (use s'(3) in \<open>auto simp: Step_def err_defs no_refused_new_def refusal_def split: if_splits\<close>)
    qed
    then show ?thesis using s'(1) TPut by (simp add: ts_Put_def)
  qed
qed

lemma run_tops_logged:
  assumes "mono clk" "logged clk s"
  shows "\<exists>s'. fold_go (run_top clk ck) ops s = Ret s' \<and> logged clk s'"
  by (rule fold_go_rule[where P = "\<lambda>xs s. logged clk s"]) (use assms run_top_logged in auto)

lemma logged_linearizable:
  assumes "logged clk s" "kt_log s = Some l"
  shows "linearizable_store l \<longleftrightarrow> no_refused_new l"
proof
  assume good: "no_refused_new l"
  have "real_time l"
    unfolding real_time_def
  proof (rule sorted_wrt_mono_rel)
    show "sorted_wrt (\<lambda>a b. Return a \<le> Call b) l" using assms by (auto simp: logged_def)
    fix a b assume ab: "a \<in> set l" "b \<in> set l" "Return a \<le> Call b"
    then have "Call a \<le> Return a" "Call b \<le> Return b" using assms by (auto simp: logged_def)
    with ab(3) show "\<not> Return b < Call a" by linarith
  qed
  then show "linearizable_store l" using assms good by (auto simp: linearizable_store_def logged_def)
qed (rule linearizable_no_refused_new)

end

text \<open>Putting until the clerk says \<^verbatim>\<open>OK\<close>, and spreading puts over many keys.\<close>

context kv_clerk_live
begin

lemma put_loop_returns:
  assumes "ok (kt_w s)" "st_Version (st (kt_w s) key) = ver"
  shows "\<exists>ver' s'. put_loop clk ck key v me ver s = Some (Ret (ver', s')) \<and> ok (kt_w s') \<and> kt_ann s' = kt_ann s
    \<and> st (kt_w s') = (st (kt_w s))(key := \<lparr>st_Value = v, st_Version = ver'\<rparr>)
    \<and> (\<exists>j\<le>maybes (kt_w s). ver' = ver + 1 + of_nat j)"
  using assms
proof (induction "maybes (kt_w s)" arbitrary: s ver rule: less_induct)
  case less
  obtain err s1 where s1: "kv_Put clk ck key v ver me s = Ret (err, s1)" "ck_Put ck key v ver (kt_w s) = Ret (err, kt_w s1)"
      "ok (kt_w s1)" "kt_ann s1 = kt_ann s" "st (kt_w s1) = (st (kt_w s))(key := \<lparr>st_Value = v, st_Version = ver + 1\<rparr>)"
      "err = OK \<or> err = ErrMaybe"
    using kv_Put_eq[OF less.prems(1), of clk key v ver me] less.prems(2) by auto
  show ?case
  proof (cases "err = OK")
    case True
    then show ?thesis using s1 by (subst put_loop.simps) (auto simp: ts_Put_def intro: exI[of _ 0])
  next
    case False
    then have e: "err = ErrMaybe" "err \<noteq> OK" using s1(6) by auto
    have lt: "maybes (kt_w s1) < maybes (kt_w s)" using maybe_law[OF less.prems(1)] s1(2) e(1) by blast
    have "st_Version (st (kt_w s1) key) = ver + 1" using s1(5) by simp
    from less.hyps[OF lt s1(3) this] obtain ver' s' j where
      r: "put_loop clk ck key v me (ver + 1) s1 = Some (Ret (ver', s'))" "ok (kt_w s')" "kt_ann s' = kt_ann s1"
      "st (kt_w s') = (st (kt_w s1))(key := \<lparr>st_Value = v, st_Version = ver'\<rparr>)" "j \<le> maybes (kt_w s1)" "ver' = ver + 1 + 1 + of_nat j"
      by blast
    have "put_loop clk ck key v me ver s = Some (Ret (ver', s'))"
      using s1(1) e r(1) by (subst put_loop.simps) (simp add: ts_Put_def)
    moreover have "ver' = ver + 1 + of_nat (Suc j)" "Suc j \<le> maybes (kt_w s)" using r(5,6) lt by simp_all
    moreover have "st (kt_w s') = (st (kt_w s))(key := \<lparr>st_Value = v, st_Version = ver'\<rparr>)" using r(4) s1(5) by simp
    moreover have "kt_ann s' = kt_ann s" using r(3) s1(4) by simp
    ultimately show ?thesis using r(2) by blast
  qed
qed

lemma PutAtLeastOnce_returns:
  assumes "ok (kt_w s)" "st_Version (st (kt_w s) key) = ver"
  shows "\<exists>ver' s'. PutAtLeastOnce clk ck key v ver me s = Ret (ver', s') \<and> ok (kt_w s')
    \<and> st (kt_w s') = (st (kt_w s))(key := \<lparr>st_Value = v, st_Version = ver'\<rparr>)
    \<and> (\<exists>j\<le>maybes (kt_w s). ver' = ver + 1 + of_nat j)"
proof -
  from put_loop_returns[OF assms, of clk v me] obtain ver' s' where r: "put_loop clk ck key v me ver s = Some (Ret (ver', s'))" "ok (kt_w s')"
    "st (kt_w s') = (st (kt_w s))(key := \<lparr>st_Value = v, st_Version = ver'\<rparr>)" "\<exists>j\<le>maybes (kt_w s). ver' = ver + 1 + of_nat j"
    by blast
  then show ?thesis by (simp add: PutAtLeastOnce_def ann_read_def)
qed

end

context kv_clerk
begin

lemma CheckGet_passes:
  assumes "ok (kt_w s)" "st (kt_w s) key = \<lparr>st_Value = v, st_Version = ver\<rparr>" "ver \<noteq> 0" "snd (kt_ann s) \<noteq> None"
  shows "\<exists>s'. CheckGet clk ck key v ver s = Ret s' \<and> ok (kt_w s') \<and> st (kt_w s') = st (kt_w s) \<and> snd (kt_ann s') \<noteq> None"
proof -
  obtain an fi where a: "kt_ann s = (an, Some fi)" using assms(4) by (cases "kt_ann s") auto
  let ?s1 = "s\<lparr>kt_ann := (an, Some (fi\<lparr>fi_ckbegin := \<lparr>cb_ts = clk (kt_reads s),
      cb_details = ''checking Get('' @ key @ '') = ('' @ v @ '', '' @ itoa (uint ver) @ '')''\<rparr>\<rparr>)), kt_reads := Suc (kt_reads s)\<rparr>"
  have ok1: "ok (kt_w ?s1)" using assms(1) by simp
  from kv_Get_eq[OF ok1, of clk key 0] assms(2,3) obtain s2 where s2: "kv_Get clk ck key 0 ?s1 = Ret ((v, ver, OK), s2)"
    "ok (kt_w s2)" "st (kt_w s2) = st (kt_w s)" "kt_ann s2 = kt_ann ?s1" by auto
  have beg: "ann_read clk (\<lambda>t. AnnotateCheckerBegin t (''checking Get('' @ key @ '') = ('' @ v @ '', '' @ itoa (uint ver) @ '')'')) s = Ret ?s1"
    using a by (simp add: ann_read_def AnnotateCheckerBegin_def with_finfo_def)
  have "\<exists>a'. AnnotateCheckerSuccess t msg det (kt_ann s2) = Ret a' \<and> snd a' \<noteq> None" for t msg det
    unfolding s2(4) by (simp add: AnnotateCheckerSuccess_def AnnotateCheckerEnd_def with_finfo_def Let_def AnnotatePointColor_def AnnotateIntervalColor_def)
  then have succ: "\<exists>s3. ann_read clk (\<lambda>t. AnnotateCheckerSuccess t msg det) s2 = Ret s3 \<and> kt_w s3 = kt_w s2 \<and> snd (kt_ann s3) \<noteq> None" for msg det
  proof -
    assume "\<And>t msg det. \<exists>a'. AnnotateCheckerSuccess t msg det (kt_ann s2) = Ret a' \<and> snd a' \<noteq> None"
    then obtain a' where "AnnotateCheckerSuccess (clk (kt_reads s2)) msg det (kt_ann s2) = Ret a'" "snd a' \<noteq> None" by blast
    then show ?thesis by (simp add: ann_read_def)
  qed
  obtain s3 where s3: "ann_read clk (\<lambda>t. AnnotateCheckerSuccess t (''Get('' @ key @ '') returns ('' @ v @ '', '' @ itoa (uint ver) @ '') as expected'') ''OK'') s2 = Ret s3"
    "kt_w s3 = kt_w s2" "snd (kt_ann s3) \<noteq> None" using succ by blast
  have "CheckGet clk ck key v ver s = Ret s3"
    unfolding CheckGet_def beg go_bind.simps ts_Get_def s2(1) prod.case Let_def using s3(1) by simp
  then show ?thesis using s2(2,3) s3(2,3) by simp
qed

lemma SpreadPutsSize_passes:
  assumes "ok (kt_w s)" "\<And>i. i < n \<Longrightarrow> st_Version (st (kt_w s) (MakeKeys n ! i)) = 0" "n \<le> length names" "snd (kt_ann s) \<noteq> None"
    and dist: "distinct (MakeKeys n)"
  shows "\<exists>s'. SpreadPutsSize clk ck n names s = Ret ((MakeKeys n, take n names), s') \<and> ok (kt_w s')
    \<and> (\<forall>i<n. st (kt_w s') (MakeKeys n ! i) = \<lparr>st_Value = names ! i, st_Version = 1\<rparr>)"
proof -
  let ?ka = "MakeKeys n" and ?va = "take n names"
  have len: "length ?ka = n" by (simp add: MakeKeys_def)
  have key: "?ka ! i = ?ka ! j \<longleftrightarrow> i = j" if "i < n" "j < n" for i j using dist that len by (simp add: nth_eq_iff_index_eq)
  let ?put = "\<lambda>i s. go_bind (ck_Put ck (?ka ! i) (?va ! i) 0 (kt_w s)) (\<lambda>(_, w). Ret (s\<lparr>kt_w := w\<rparr>))"
  let ?P = "\<lambda>xs s'. ok (kt_w s') \<and> kt_ann s' = kt_ann s \<and> (\<forall>i<n. if i \<in> set xs then st (kt_w s') (?ka ! i) = \<lparr>st_Value = names ! i, st_Version = 1\<rparr>
      else st_Version (st (kt_w s') (?ka ! i)) = 0)"
  have "\<exists>s1. fold_go ?put [0..<n] s = Ret s1 \<and> ?P [0..<n] s1"
  proof (rule fold_go_rule)
    show "?P [] s" using assms(1,2) by simp
    fix xs x s1 assume P: "?P xs s1" and x: "x \<in> set [0..<n]"
    obtain err w where w: "ck_Put ck (?ka ! x) (?va ! x) 0 (kt_w s1) = Ret (err, w)" "ok w"
      "st w = (if st_Version (st (kt_w s1) (?ka ! x)) = 0 then (st (kt_w s1))(?ka ! x := \<lparr>st_Value = names ! x, st_Version = 1\<rparr>) else st (kt_w s1))"
      using put_law[of "kt_w s1" "?ka ! x" "?va ! x" 0] P x assms(3) by (auto split: if_splits)
    have "if x \<in> set xs then st (kt_w s1) (?ka ! x) = \<lparr>st_Value = names ! x, st_Version = 1\<rparr>
      else st_Version (st (kt_w s1) (?ka ! x)) = 0" using P x by simp
    then have "st w (?ka ! x) = \<lparr>st_Value = names ! x, st_Version = 1\<rparr>" using w(3) by (auto split: if_splits)
    moreover have "st w (?ka ! i) = st (kt_w s1) (?ka ! i)" if "i < n" "i \<noteq> x" for i using w(3) that x by (simp add: key)
    ultimately have "if i \<in> set (xs @ [x]) then st w (?ka ! i) = \<lparr>st_Value = names ! i, st_Version = 1\<rparr>
      else st_Version (st w (?ka ! i)) = 0" if "i < n" for i using P that by (cases "i = x") auto
    then have "?P (xs @ [x]) (s1\<lparr>kt_w := w\<rparr>)" using P w(2) by simp
    then show "\<exists>s'. ?put x s1 = Ret s' \<and> ?P (xs @ [x]) s'" using w(1) by auto
  qed
  then obtain s1 where s1: "fold_go ?put [0..<n] s = Ret s1" "ok (kt_w s1)" "kt_ann s1 = kt_ann s"
    "\<And>i. i < n \<Longrightarrow> st (kt_w s1) (?ka ! i) = \<lparr>st_Value = names ! i, st_Version = 1\<rparr>" by auto
  let ?Q = "\<lambda>xs s'. ok (kt_w s') \<and> st (kt_w s') = st (kt_w s1) \<and> snd (kt_ann s') \<noteq> None"
  have "\<exists>s2. fold_go (\<lambda>i. CheckGet clk ck (?ka ! i) (?va ! i) 1) [0..<n] s1 = Ret s2 \<and> ?Q [0..<n] s2"
  proof (rule fold_go_rule)
    show "?Q [] s1" using s1(2,3) assms(4) by simp
    fix xs :: "nat list" and x and s2 :: "'w kt" assume "?Q xs s2" "x \<in> set [0..<n]"
    then show "\<exists>s'. CheckGet clk ck (?ka ! x) (?va ! x) 1 s2 = Ret s' \<and> ?Q (xs @ [x]) s'"
      using CheckGet_passes[of s2 "?ka ! x" "?va ! x" 1 clk] s1(4)[of x] by auto
  qed
  then show ?thesis using s1(1,4) by (auto simp: SpreadPutsSize_def Let_def)
qed

end

subsection \<open>The clerk of the model\<close>

text \<open>
  A store of keys behind a clerk, as the comments of \<^verbatim>\<open>server.go\<close> and \<^verbatim>\<open>client.go\<close> want it: a list of choices says which puts on a key that
  exists, or comes to exist, are answered \<^verbatim>\<open>ErrMaybe\<close>, because the first reply was lost and the second says \<^verbatim>\<open>ErrVersion\<close>.
\<close>

type_synonym model_world = "(string \<Rightarrow> kv_state) \<times> bool list"

definition model_Get :: "string \<Rightarrow> model_world \<Rightarrow> ((string \<times> tversion \<times> string) \<times> model_world) go" where
  "model_Get k w = (let x = fst w k in Ret ((st_Value x, st_Version x, if st_Version x = 0 then ErrNoKey else OK), w))"

definition model_Put :: "string \<Rightarrow> string \<Rightarrow> tversion \<Rightarrow> model_world \<Rightarrow> (string \<times> model_world) go" where
  "model_Put k v ver w = (case w of (m, bs) \<Rightarrow>
     let maybe = (bs \<noteq> [] \<and> hd bs) in
     if st_Version (m k) = ver then Ret (if maybe then ErrMaybe else OK, (m(k := \<lparr>st_Value = v, st_Version = ver + 1\<rparr>), tl bs))
     else Ret (if maybe \<and> st_Version (m k) \<noteq> 0 then ErrMaybe else refusal (m k), (m, tl bs)))"

definition model_clerk :: "model_world clerk" where
  "model_clerk = \<lparr>ck_Get = model_Get, ck_Put = model_Put\<rparr>"

definition model_start :: "bool list \<Rightarrow> model_world" where
  "model_start bs = (\<lambda>_. \<lparr>st_Value = [], st_Version = 0\<rparr>, bs)"

interpretation mclerk: kv_clerk_live model_clerk "\<lambda>w. True" fst "\<lambda>w. length (filter id (snd w))"
proof
  fix w :: model_world and k v and ver :: tversion
  show "\<exists>w'. ck_Get model_clerk k w = Ret ((st_Value (fst w k), st_Version (fst w k), if st_Version (fst w k) = 0 then ErrNoKey else OK), w')
      \<and> True \<and> fst w' = fst w"
    by (simp add: model_clerk_def model_Get_def Let_def)
  show "\<exists>err w'. ck_Put model_clerk k v ver w = Ret (err, w') \<and> True \<and>
      (if st_Version (fst w k) = ver then fst w' = (fst w)(k := \<lparr>st_Value = v, st_Version = ver + 1\<rparr>) \<and> (err = OK \<or> err = ErrMaybe)
       else fst w' = fst w \<and> (err = refusal (fst w k) \<or> err = ErrMaybe))"
    by (cases w) (auto simp: model_clerk_def model_Put_def Let_def)
next
  fix w w' :: model_world and k v and ver :: tversion
  assume "ck_Put model_clerk k v ver w = Ret (ErrMaybe, w')"
  then show "length (filter id (snd w')) < length (filter id (snd w))"
    by (cases w; cases "snd w") (auto simp: model_clerk_def model_Put_def refusal_def Let_def err_defs split: if_splits)
qed

definition kt_start :: "'w \<Rightarrow> nat \<Rightarrow> 'w kt" where
  "kt_start w n = \<lparr>kt_w = w, kt_ops = 0, kt_log = Some [], kt_reads = 0, kt_ann = AnnotateTest 1 ''test'' n (mkAnnotation, None)\<rparr>"

lemma MakeKeys_distinct: "distinct (MakeKeys n)"
  by (auto simp: MakeKeys_def distinct_map inj_on_def dest: itoa_inj)

subsection \<open>Properties\<close>

text \<open>
  Property C7: the check of concurrent appends accepts every run on a correct store. Let \<open>n\<close> clients
  append to the shared key in any interleaving of \<open>k\<close> steps (fewer than $2^{62}$): getting the
  list, putting it back extended under the version they read, moving on at \<^verbatim>\<open>OK\<close> and \<^verbatim>\<open>ErrMaybe\<close> and
  trying again at \<^verbatim>\<open>ErrVersion\<close>. Then \<^verbatim>\<open>CheckAppends\<close> on the final list and version and on the counts
  the clients report does not fail.
\<close>

theorem concurrent_appends_pass_check:
  assumes "(app_step ^^ k) (append_start n) w" "k < 2 ^ 62"
  shows "CheckAppends (aw_val w) n (append_results w) (aw_ver w) = Ret ()"
  using append_inv_check[OF append_inv_steps[OF assms(1)]] assms(2) by simp

definition ex_append :: append_world where
  "ex_append = \<lparr>aw_val = [\<lparr>en_Id = 1, en_N = 0\<rparr>], aw_ver = 2, aw_clients =
     [\<lparr>ap_i = 0, ap_nok = 0, ap_nmay = 0, ap_pc = Trying\<rparr>, \<lparr>ap_i = 1, ap_nok = 0, ap_nmay = 1, ap_pc = Outer\<rparr>]\<rparr>"

lemma ex_append_run: "(app_step ^^ Suc (Suc (Suc (Suc (Suc (Suc 0)))))) (append_start 2) ex_append"
proof -
  define a where "a = \<lparr>ap_i = 0, ap_nok = 0, ap_nmay = 0, ap_pc = Outer\<rparr>"
  define w1 where "w1 = set_client (append_start 2) 0 (a\<lparr>ap_pc := Trying\<rparr>)"
  define w2 where "w2 = set_client w1 1 (a\<lparr>ap_pc := Trying\<rparr>)"
  define w3 where "w3 = set_client w2 0 (a\<lparr>ap_pc := Got [\<lparr>en_Id = 0, en_N = 0\<rparr>] 1\<rparr>)"
  define w4 where "w4 = set_client w3 1 (a\<lparr>ap_pc := Got [\<lparr>en_Id = 1, en_N = 0\<rparr>] 1\<rparr>)"
  define w5 where "w5 = set_client (w4\<lparr>aw_val := [\<lparr>en_Id = 1, en_N = 0\<rparr>], aw_ver := 1 + 1\<rparr>) 1
    (put_result ErrMaybe (a\<lparr>ap_pc := Got [\<lparr>en_Id = 1, en_N = 0\<rparr>] 1\<rparr>))"
  note d = append_start_def set_client_def numeral_2_eq_2 a_def w1_def w2_def w3_def w4_def w5_def
  have s1: "app_step (append_start 2) w1" unfolding w1_def by (rule app_step.enter) (simp_all add: d)
  have s2: "app_step w1 w2" unfolding w2_def by (rule app_step.enter) (simp_all add: d)
  have s3: "app_step w2 w3" using app_step.get[of 0 w2] by (simp add: d)
  have s4: "app_step w3 w4" using app_step.get[of 1 w3] by (simp add: d)
  have s5: "app_step w4 w5" unfolding w5_def by (rule app_step.put_applied) (simp_all add: d)
  have v: "(1::64 word) \<noteq> 2" by (rule notI, drule arg_cong[where f = unat]) simp
  have "app_step w5 (set_client w5 0 (put_result ErrVersion (a\<lparr>ap_pc := Got [\<lparr>en_Id = 0, en_N = 0\<rparr>] 1\<rparr>)))"
    by (rule app_step.put_refused[where es = "[\<lparr>en_Id = 0, en_N = 0\<rparr>]" and ver = 1]) (simp_all add: d v)
  then have s6: "app_step w5 ex_append" by (simp add: d ex_append_def put_result_def err_defs)
  have "(app_step ^^ 0) (append_start 2) (append_start 2)" by simp
  from this s1 s2 s3 s4 s5 s6 show ?thesis by (blast intro: relpowp_Suc_I)
qed

theorem concurrent_appends_pass_check_witness:
  "CheckAppends [\<lparr>en_Id = 1, en_N = 0\<rparr>] 2 [\<lparr>Nok = 0, Nmaybe = 0\<rparr>, \<lparr>Nok = 0, Nmaybe = 1\<rparr>] 2 = Ret ()"
  using concurrent_appends_pass_check[OF ex_append_run] by (simp add: ex_append_def append_results_def)

text \<open>
  Property C37: when the log of a test that uses a correct clerk is linearizable. For every clerk that keeps
  the contract \<open>kv_clerk\<close> on an empty store, any sequence of gets and puts through the test returns and logs one operation
  per call, with the times before and after it on a monotonic clock. The model accepts this log as linearizable if and only if no put of it
  was answered \<^verbatim>\<open>ErrNoKey\<close>: \<^verbatim>\<open>KvModel\<close> has no such answer, although the server is to give it to a put with a version other than 0
  on a key that does not exist.
\<close>

theorem log_of_correct_clerk_is_linearizable:
  assumes "kv_clerk ck ok st" "mono clk" "ok (kt_w s)" "st (kt_w s) = (\<lambda>_. \<lparr>st_Value = [], st_Version = 0\<rparr>)" "kt_log s = Some []"
  shows "\<exists>s' l. fold_go (run_top clk ck) ops s = Ret s' \<and> kt_log s' = Some l \<and> length l = length ops \<and>
    (linearizable_store l \<longleftrightarrow> (\<forall>x\<in>set l. in_Op (Input x) = 1 \<longrightarrow> out_Err (Output x) \<noteq> ErrNoKey))"
proof -
  have "kv_clerk.logged ok st clk s"
    using assms by (simp add: kv_clerk.logged_def Init_def)
  from kv_clerk.run_tops_logged[OF assms(1,2) this, of ops] obtain s' where s': "fold_go (run_top clk ck) ops s = Ret s'"
    "kv_clerk.logged ok st clk s'" by blast
  then obtain l where l: "kt_log s' = Some l" using kv_clerk.logged_def[OF assms(1)] by blast
  have one: "\<exists>l'. kt_log t' = Some l' \<and> length l' = Suc (length l)" if "run_top clk ck op t = Ret t'" "kt_log t = Some l" for op t t' l
    using that by (cases op) (auto simp: ts_Get_def ts_Put_def kv_Get_def kv_Put_def go_simps Let_def kt_Op_def OpLog_Append_def)
  have "\<exists>l'. kt_log t' = Some l' \<and> length l' = length l + length ops"
    if "fold_go (run_top clk ck) ops t = Ret t'" "kt_log t = Some l" for t t' l
    using that by (induction ops arbitrary: t l) (fastforce simp: go_simps dest!: one)+
  from this[OF s'(1) assms(5)] have "length l = length ops" using l by simp
  with s'(1) l kv_clerk.logged_linearizable[OF assms(1) s'(2) l] show ?thesis unfolding no_refused_new_def by blast
qed

text \<open>The put of \<^verbatim>\<open>kvsrv_test.go\<close> on a key that does not exist: in the log of a test, the model would reject it.\<close>

theorem log_of_correct_clerk_is_linearizable_witness:
  "(\<exists>s' l. fold_go (run_top int model_clerk) [TPut ''x'' ''1'' 0 7, TPut ''y'' ''1'' 1 7] (kt_start (model_start [True]) 1) = Ret s'
     \<and> kt_log s' = Some l \<and> length l = 2 \<and> \<not> linearizable_store l) \<and>
   (\<exists>s' l. fold_go (run_top int model_clerk) [TPut ''x'' ''1'' 0 7, TGet ''x'' 8, TPut ''x'' ''2'' 0 7] (kt_start (model_start [True]) 1) = Ret s'
     \<and> kt_log s' = Some l \<and> length l = 3 \<and> linearizable_store l)"
proof -
  let ?s = "kt_start (model_start [True]) 1"
  have st: "fst (kt_w ?s) = (\<lambda>_. \<lparr>st_Value = [], st_Version = 0\<rparr>)" "kt_log ?s = Some []" "mono (int :: nat \<Rightarrow> int)"
    by (simp_all add: kt_start_def model_start_def mono_def)
  note lin = log_of_correct_clerk_is_linearizable[OF mclerk.kv_clerk_axioms st(3) TrueI st(1,2)]
  note run = ts_Put_def kv_Put_def ts_Get_def kv_Get_def model_clerk_def model_Put_def model_Get_def kt_start_def model_start_def refusal_def
    Let_def kt_Op_def OpLog_Append_def err_defs
  have v: "(0::64 word) \<noteq> 1" "(1::64 word) \<noteq> 0" by simp_all
  show ?thesis
  proof (rule conjI)
    show "\<exists>s' l. fold_go (run_top int model_clerk) [TPut ''x'' ''1'' 0 7, TPut ''y'' ''1'' 1 7] ?s = Ret s'
     \<and> kt_log s' = Some l \<and> length l = 2 \<and> \<not> linearizable_store l"
      using lin[of "[TPut ''x'' ''1'' 0 7, TPut ''y'' ''1'' 1 7]"] by (auto simp: run v)
    show "\<exists>s' l. fold_go (run_top int model_clerk) [TPut ''x'' ''1'' 0 7, TGet ''x'' 8, TPut ''x'' ''2'' 0 7] ?s = Ret s'
     \<and> kt_log s' = Some l \<and> length l = 3 \<and> linearizable_store l"
      using lin[of "[TPut ''x'' ''1'' 0 7, TGet ''x'' 8, TPut ''x'' ''2'' 0 7]"] by (auto simp: run v)
  qed
qed

text \<open>
  Property C38: \<^verbatim>\<open>PutAtLeastOnce\<close> returns and has written. For a clerk that keeps the contract and
  answers \<^verbatim>\<open>ErrMaybe\<close> only finitely often, called with the current version of the key: the function
  returns a version, and the key holds the value under exactly that version, which is the given
  version plus one for each put, the last and those answered \<^verbatim>\<open>ErrMaybe\<close>; other keys are unchanged.
\<close>

theorem PutAtLeastOnce_returns_written_version:
  assumes "kv_clerk_live ck ok st maybes" "ok (kt_w s)" "st_Version (st (kt_w s) key) = ver"
  shows "\<exists>ver' s'. PutAtLeastOnce clk ck key v ver me s = Ret (ver', s')
    \<and> st (kt_w s') = (st (kt_w s))(key := \<lparr>st_Value = v, st_Version = ver'\<rparr>)
    \<and> (\<exists>j\<le>maybes (kt_w s). ver' = ver + 1 + of_nat j)"
  using kv_clerk_live.PutAtLeastOnce_returns[OF assms, of clk v me] by blast

theorem PutAtLeastOnce_returns_written_version_witness:
  "\<exists>ver' s'. PutAtLeastOnce int model_clerk ''x'' ''1'' 0 7 (kt_start (model_start [True, True]) 1) = Ret (ver', s')
     \<and> fst (kt_w s') ''x'' = \<lparr>st_Value = ''1'', st_Version = ver'\<rparr>"
  using PutAtLeastOnce_returns_written_version[OF mclerk.kv_clerk_live_axioms, of "kt_start (model_start [True, True]) 1" "''x''" 0 int "''1''" 7]
  by (auto simp: kt_start_def model_start_def)

text \<open>
  Spreading puts passes on a correct clerk. On a store where none of the keys exists, with
  a value for each key, \<^verbatim>\<open>SpreadPutsSize\<close> returns its keys and values, no check of it fails, and
  every key holds its value under version 1.
\<close>

lemma SpreadPuts_passes_on_correct_clerk:
  assumes "kv_clerk ck ok st" "ok (kt_w s)" "list_all (\<lambda>k. st_Version (st (kt_w s) k) = 0) (MakeKeys n)"
    "n \<le> length names" "snd (kt_ann s) \<noteq> None"
  shows "\<exists>s'. SpreadPutsSize clk ck n names s = Ret ((MakeKeys n, take n names), s')
    \<and> (\<forall>i<n. st (kt_w s') (MakeKeys n ! i) = \<lparr>st_Value = names ! i, st_Version = 1\<rparr>)"
proof -
  have "length (MakeKeys n) = n" by (simp add: MakeKeys_def)
  then have "st_Version (st (kt_w s) (MakeKeys n ! i)) = 0" if "i < n" for i
    using assms(3) that by (simp add: list_all_length)
  from kv_clerk.SpreadPutsSize_passes[OF assms(1,2) this assms(4,5) MakeKeys_distinct] show ?thesis by blast
qed

end
