(* ===== verification/Raft_Peer.thy ===== *)
theory Raft_Peer
  imports Tester_Group
begin

text \<open>
  The Raft peer as the repository has it (\<^verbatim>\<open>raft1/raft.go\<close>): the lab's starting point, whose methods
  are empty but for keeping the peer's fields, reading its persister and marking it killed. Peers
  are objects of a list; a peer's identity is its position.
\<close>

record Raft =
  rf_peers :: "string list"
  rf_persister :: nat
  rf_me :: nat
  rf_dead :: "32 word"

definition Raft_GetState :: "Raft \<Rightarrow> int \<times> bool" where
  "Raft_GetState rf = (0, False)"

definition readPersist :: "byte list option \<Rightarrow> Raft \<Rightarrow> Raft" where
  "readPersist data rf = (if data = None \<or> length (bytes_of data) < 1 then rf else rf)"

definition PersistBytes :: "Raft \<Rightarrow> (nat \<rightharpoonup> persister) \<Rightarrow> nat go" where
  "PersistBytes rf pers = (case pers (rf_persister rf) of
     None \<Rightarrow> Panic ''nil pointer dereference'' | Some ps \<Rightarrow> Ret (RaftStateSize ps))"

definition Raft_Snapshot :: "int \<Rightarrow> byte list \<Rightarrow> Raft \<Rightarrow> Raft" where
  "Raft_Snapshot index snapshot rf = rf"

definition Raft_Start :: "'c \<Rightarrow> Raft \<Rightarrow> int \<times> int \<times> bool" where
  "Raft_Start command rf = (let index = -1; term = -1; isLeader = True in (index, term, isLeader))"

definition Raft_Kill :: "Raft \<Rightarrow> Raft" where
  "Raft_Kill rf = rf\<lparr>rf_dead := 1\<rparr>"

definition killed :: "Raft \<Rightarrow> bool" where
  "killed rf = (rf_dead rf = 1)"

text \<open>
  One round of the loop of \<^verbatim>\<open>ticker\<close>: it ends when the peer is killed and otherwise sleeps for a
  number of milliseconds drawn at random.
\<close>

definition ticker :: "nat \<Rightarrow> Raft \<Rightarrow> nat option" where
  "ticker draw rf = (if \<not> killed rf then Some (50 + draw mod 300) else None)"

definition Make :: "string list \<Rightarrow> nat \<Rightarrow> nat \<Rightarrow> (nat \<rightharpoonup> persister) \<Rightarrow> Raft go" where
  "Make peers me persister pers = (case pers persister of
     None \<Rightarrow> Panic ''nil pointer dereference''
   | Some ps \<Rightarrow> Ret (readPersist (ReadRaftState ps) \<lparr>rf_peers = peers, rf_persister = persister, rf_me = me, rf_dead = 0\<rparr>))"

lemma Make_runs: "Make peers me p pers = Ret rf \<Longrightarrow> \<not> killed rf \<and> rf_me rf = me \<and> rf_peers rf = peers"
  by (auto simp: Make_def readPersist_def killed_def split: option.splits)

lemma ticker_stops_when_killed: "ticker draw (Raft_Kill rf) = None"
  by (simp add: ticker_def Raft_Kill_def killed_def)

lemma ticker_pause_bounds: "ticker draw rf = Some ms \<Longrightarrow> 50 \<le> ms \<and> ms < 350"
  by (auto simp: ticker_def split: if_splits)

end
