(* ===== verification/Raft_Harness.thy ===== *)
theory Raft_Harness
  imports Tester_Config Raft_Peer
begin

text \<open>
  The test harness of the Raft lab: the servers that read a peer's apply channel
  (\<^verbatim>\<open>raft1/server.go\<close>), the checks on leaders, terms and agreement (\<^verbatim>\<open>raft1/test.go\<close>) and the
  interface between a peer and its service (\<^verbatim>\<open>raftapi/raftapi.go\<close>). A Raft peer is a parameter: the
  harness only calls its interface. Harness servers are objects in a heap, because the goroutine
  of a killed instance keeps a pointer to it while \<^verbatim>\<open>Test.srvs\<close> already holds the next instance.
\<close>

subsection \<open>State\<close>

text \<open>A command is an \<^verbatim>\<open>any\<close>: nil or a value. The commands of the tests are comparable values.\<close>

type_synonym 'c anyv = "'c option"

record 'c ApplyMsg =
  CommandValid :: bool
  Command :: "'c anyv"
  CommandIndex :: int
  SnapshotValid :: bool
  Snapshot :: "byte list option"
  SnapshotTerm :: int
  SnapshotIndex :: int

text \<open>The goroutine that reads the apply channel of an instance.\<close>

datatype reader = NoReader | Applier | ApplierSnap

text \<open>
  One instance of a harness server. \<open>rs_raft\<close> is the identity of its peer, \<open>None\<close> for a nil
  interface; \<open>rs_persister\<close> the address of its persister.
\<close>

record 'c rfsrv =
  rs_me :: nat
  rs_applyErr :: string
  rs_lastApplied :: int
  rs_persister :: "nat option"
  rs_raft :: "nat option"
  rs_logs :: "int \<rightharpoonup> 'c anyv"
  rs_reader :: reader

text \<open>
  The test: the fields of \<^verbatim>\<open>Test\<close>, the connections of its group, the heap of instances, the
  persisters, the state of the peers, the annotations, and how many clock readings and pauses
  there have been.
\<close>

record ('c, 'r) rtest =
  rt_n :: nat
  rt_finished :: "32 word"
  rt_srvs :: "nat option list"
  rt_maxIndex :: int
  rt_snapshot :: bool
  rt_connected :: "bool list"
  rt_heap :: "nat \<rightharpoonup> 'c rfsrv"
  rt_next :: nat
  rt_pers :: "nat \<rightharpoonup> persister"
  rt_raft :: 'r
  rt_ann :: ann
  rt_reads :: nat
  rt_pauses :: nat

text \<open>
  What the harness runs in: the methods of the peers, by identity; the snapshot codec (\<^verbatim>\<open>labgob\<close>);
  the \<open>%v\<close> rendering of a command; the clock; the environment variable \<^verbatim>\<open>VIS_ENABLE\<close> and whether
  the visualisation file can be opened; the order in which \<^verbatim>\<open>range\<close> visits a map; and what the
  other goroutines do to the state during the \<open>k\<close>-th pause of the test's own goroutine.
\<close>

record ('c, 'r) renv =
  re_Make :: "string list \<Rightarrow> nat \<Rightarrow> nat \<Rightarrow> 'r \<times> (nat \<rightharpoonup> persister) \<Rightarrow> nat \<times> 'r \<times> (nat \<rightharpoonup> persister)"
  re_GetState :: "nat \<Rightarrow> 'r \<Rightarrow> int \<times> bool"
  re_Start :: "nat \<Rightarrow> 'c anyv \<Rightarrow> 'r \<Rightarrow> (int \<times> int \<times> bool) \<times> 'r"
  re_Snapshot :: "nat \<Rightarrow> int \<Rightarrow> byte list \<Rightarrow> 'r \<times> (nat \<rightharpoonup> persister) \<Rightarrow> 'r \<times> (nat \<rightharpoonup> persister)"
  re_useSM :: bool
  re_enc :: "int \<Rightarrow> 'c anyv list \<Rightarrow> byte list"
  re_dec :: "byte list \<Rightarrow> (int \<times> 'c anyv list) option"
  re_show :: "'c anyv \<Rightarrow> string"
  re_clk :: "nat \<Rightarrow> int"
  re_vis :: string
  re_opened :: bool
  re_order :: "(int \<times> nat list) list \<Rightarrow> (int \<times> nat list) list"
  re_others :: "nat \<Rightarrow> ('c, 'r) rtest \<Rightarrow> ('c, 'r) rtest"

definition SnapShotInterval :: int where
  "SnapShotInterval = 10"

subsection \<open>Pointers, clock and annotations\<close>

definition obj :: "('c, 'r) rtest \<Rightarrow> nat option \<Rightarrow> 'c rfsrv go" where
  "obj st p = (case p of None \<Rightarrow> Panic ''nil pointer dereference''
   | Some a \<Rightarrow> (case rt_heap st a of None \<Rightarrow> Panic ''nil pointer dereference'' | Some s \<Rightarrow> Ret s))"

definition upd_obj :: "nat \<Rightarrow> ('c rfsrv \<Rightarrow> 'c rfsrv) \<Rightarrow> ('c, 'r) rtest \<Rightarrow> ('c, 'r) rtest" where
  "upd_obj a f st = st\<lparr>rt_heap := (rt_heap st)(a := map_option f (rt_heap st a))\<rparr>"

definition now :: "('c, 'r) renv \<Rightarrow> ('c, 'r) rtest \<Rightarrow> int" where
  "now env st = re_clk env (rt_reads st)"

definition tick :: "('c, 'r) rtest \<Rightarrow> ('c, 'r) rtest" where
  "tick st = st\<lparr>rt_reads := Suc (rt_reads st)\<rparr>"

definition pause :: "('c, 'r) renv \<Rightarrow> ('c, 'r) rtest \<Rightarrow> ('c, 'r) rtest" where
  "pause env st = (re_others env (rt_pauses st) st)\<lparr>rt_pauses := Suc (rt_pauses st)\<rparr>"

definition rt_annotate :: "('c, 'r) renv \<Rightarrow> (int \<Rightarrow> ann \<Rightarrow> ann go) \<Rightarrow> ('c, 'r) rtest \<Rightarrow> ('c, 'r) rtest go" where
  "rt_annotate env f st = go_bind (f (now env st) (rt_ann st)) (\<lambda>a. Ret (tick (st\<lparr>rt_ann := a\<rparr>)))"

text \<open>An annotation of a failure, then the end of the test or of the process.\<close>

definition fail_check :: "('c, 'r) renv \<Rightarrow> string \<Rightarrow> string \<Rightarrow> string \<Rightarrow> ('c, 'r) rtest \<Rightarrow> 'a go" where
  "fail_check env desp details msg st =
     go_bind (rt_annotate env (\<lambda>t. AnnotateCheckerFailure t desp details) st) (\<lambda>_. Fatal msg)"

definition fail_exit :: "('c, 'r) renv \<Rightarrow> string \<Rightarrow> string \<Rightarrow> string \<Rightarrow> ('c, 'r) rtest \<Rightarrow> 'a go" where
  "fail_exit env desp details msg st =
     go_bind (AnnotateCheckerFailureBeforeExit (re_vis env) (re_opened env) (now env st) (now env (tick st))
       (now env (tick (tick st))) desp details (rt_ann st)) (\<lambda>_. Fatal msg)"

subsection \<open>Checking the applied commands\<close>

definition Logs :: "int \<Rightarrow> nat option \<Rightarrow> ('c, 'r) rtest \<Rightarrow> 'c anyv option go" where
  "Logs i p st = go_bind (obj st p) (\<lambda>s. Ret (rs_logs s i))"

text \<open>
  \<^verbatim>\<open>checkLogs\<close>, under the lock of the test: compares with every server, the server itself included;
  the last difference is the one reported. The entry is stored in any case.
\<close>

definition checkLogs :: "('c, 'r) renv \<Rightarrow> nat \<Rightarrow> 'c ApplyMsg \<Rightarrow> ('c, 'r) rtest \<Rightarrow> ((string \<times> bool) \<times> ('c, 'r) rtest) go" where
  "checkLogs env i m st = go_bind (go_nth (rt_srvs st) i) (\<lambda>me.
     go_bind (fold_go (\<lambda>(j, p) err. go_bind (Logs (CommandIndex m) p st) (\<lambda>old.
         case old of
           None \<Rightarrow> Ret err
         | Some w \<Rightarrow> if w \<noteq> Command m
             then Ret (''commit index='' @ itoa (CommandIndex m) @ '' server='' @ itoa (int i) @ '' '' @ re_show env (Command m)
               @ '' != server='' @ itoa (int j) @ '' '' @ re_show env w)
             else Ret err)) (enumerate 0 (rt_srvs st)) []) (\<lambda>err.
     go_bind (obj st me) (\<lambda>s.
       let prevok = rs_logs s (CommandIndex m - 1) \<noteq> None;
           st' = upd_obj (the me) (\<lambda>s. s\<lparr>rs_logs := (rs_logs s)(CommandIndex m \<mapsto> Command m)\<rparr>) st
       in Ret ((err, prevok), st'\<lparr>rt_maxIndex := (if CommandIndex m > rt_maxIndex st then CommandIndex m else rt_maxIndex st)\<rparr>))))"

definition out_of_order :: "nat \<Rightarrow> int \<Rightarrow> string" where
  "out_of_order me idx = ''server '' @ itoa (int me) @ '' apply out of order '' @ itoa idx"

text \<open>
  The body of the loop of \<^verbatim>\<open>applier\<close> for one message of the channel of the instance at \<open>a\<close>. The lines
  after \<^verbatim>\<open>log.Fatalf\<close> are never reached.
\<close>

definition applier :: "('c, 'r) renv \<Rightarrow> nat \<Rightarrow> 'c ApplyMsg \<Rightarrow> ('c, 'r) rtest \<Rightarrow> ('c, 'r) rtest go" where
  "applier env a m st =
     (if \<not> CommandValid m then Ret st
      else go_bind (obj st (Some a)) (\<lambda>rs.
        go_bind (checkLogs env (rs_me rs) m st) (\<lambda>((err, prevok), st').
          let err' = (if CommandIndex m > 1 \<and> \<not> prevok then out_of_order (rs_me rs) (CommandIndex m) else err)
          in if err' \<noteq> [] then fail_exit env ''apply error'' err' ''apply error: %v'' st' else Ret st')))"

definition logs_of_list :: "'c anyv list \<Rightarrow> int \<rightharpoonup> 'c anyv" where
  "logs_of_list xlog j = (if 0 \<le> j \<and> j < int (length xlog) then Some (xlog ! nat j) else None)"

definition ingestSnap :: "('c, 'r) renv \<Rightarrow> nat \<Rightarrow> byte list option \<Rightarrow> int \<Rightarrow> ('c, 'r) rtest \<Rightarrow> (string \<times> ('c, 'r) rtest) go" where
  "ingestSnap env a snapshot index st = go_bind (obj st (Some a)) (\<lambda>rs. case snapshot of
     None \<Rightarrow> fail_exit env ''failed to ingest snapshot'' ''nil snapshot'' ''nil snapshot'' st
   | Some b \<Rightarrow> (case re_dec env b of
       None \<Rightarrow> fail_exit env ''failed to decode snapshot'' ''failed to decode snapshot'' ''snapshot decode error'' st
     | Some (lastIncludedIndex, xlog) \<Rightarrow>
         if index \<noteq> -1 \<and> index \<noteq> lastIncludedIndex
         then Ret (''server '' @ itoa (int (rs_me rs)) @ '' snapshot doesn'' @ [CHR 0x27] @ ''t match m.SnapshotIndex'', st)
         else Ret ([], upd_obj a (\<lambda>s. s\<lparr>rs_logs := logs_of_list xlog, rs_lastApplied := lastIncludedIndex\<rparr>) st)))"

text \<open>The snapshot that \<^verbatim>\<open>applierSnap\<close> makes of the instance at \<open>a\<close>; a missing entry reads as nil.\<close>

definition snapshot_bytes :: "('c, 'r) renv \<Rightarrow> int \<Rightarrow> (int \<rightharpoonup> 'c anyv) \<Rightarrow> byte list" where
  "snapshot_bytes env idx logs = re_enc env idx (map (\<lambda>j. case logs (int j) of None \<Rightarrow> None | Some v \<Rightarrow> v) [0..<nat (idx + 1)])"

definition make_snapshot :: "('c, 'r) renv \<Rightarrow> nat \<Rightarrow> int \<Rightarrow> ('c, 'r) rtest \<Rightarrow> ('c, 'r) rtest go" where
  "make_snapshot env a idx st = go_bind (obj st (Some a)) (\<lambda>rs.
     let start = now env st; st1 = tick st in
     case rs_raft rs of
       None \<Rightarrow> Panic ''nil pointer dereference''
     | Some r \<Rightarrow> (case re_Snapshot env r idx (snapshot_bytes env idx (rs_logs rs)) (rt_raft st1, rt_pers st1) of (rf, pers) \<Rightarrow>
         rt_annotate env (\<lambda>t an. Ret (AnnotateInfoInterval t start ''snapshot created''
             (''snapshot created after applying the command at index '' @ itoa idx) an)) (st1\<lparr>rt_raft := rf, rt_pers := pers\<rparr>)))"

definition applierSnap :: "('c, 'r) renv \<Rightarrow> nat \<Rightarrow> 'c ApplyMsg \<Rightarrow> ('c, 'r) rtest \<Rightarrow> ('c, 'r) rtest go" where
  "applierSnap env a m st = go_bind
     (if SnapshotValid m then ingestSnap env a (Snapshot m) (SnapshotIndex m) st
      else if CommandValid m then go_bind (obj st (Some a)) (\<lambda>rs.
        go_bind (if CommandIndex m \<noteq> rs_lastApplied rs + 1
           then Ret (''server '' @ itoa (int (rs_me rs)) @ '' apply out of order, expected index '' @ itoa (rs_lastApplied rs + 1)
             @ '', got '' @ itoa (CommandIndex m), st)
           else go_bind (checkLogs env (rs_me rs) m st) (\<lambda>((err, prevok), st').
             Ret (if CommandIndex m > 1 \<and> \<not> prevok then out_of_order (rs_me rs) (CommandIndex m) else err, st')))
        (\<lambda>(err, st1).
          let st2 = upd_obj a (\<lambda>s. s\<lparr>rs_lastApplied := CommandIndex m\<rparr>) st1
          in go_bind (if (CommandIndex m + 1) mod SnapShotInterval = 0 then make_snapshot env a (CommandIndex m) st2 else Ret st2)
               (\<lambda>st3. Ret (err, st3))))
      else Ret ([], st))
     (\<lambda>(err, st'). if err \<noteq> [] then fail_exit env ''apply error'' err ''apply error: %v'' st' else Ret st')"

text \<open>One message of the apply channel of the instance at \<open>a\<close>, handled by its reader.\<close>

definition deliver :: "('c, 'r) renv \<Rightarrow> nat \<Rightarrow> 'c ApplyMsg \<Rightarrow> ('c, 'r) rtest \<Rightarrow> ('c, 'r) rtest go" where
  "deliver env a m st = go_bind (obj st (Some a)) (\<lambda>rs. case rs_reader rs of
     NoReader \<Rightarrow> Diverge | Applier \<Rightarrow> applier env a m st | ApplierSnap \<Rightarrow> applierSnap env a m st)"

subsection \<open>Making and stopping servers\<close>

definition new_obj :: "nat \<Rightarrow> nat option \<Rightarrow> nat option \<Rightarrow> 'c rfsrv" where
  "new_obj srv persister raft = \<lparr>rs_me = srv, rs_applyErr = [], rs_lastApplied = 0, rs_persister = persister,
     rs_raft = raft, rs_logs = Map.empty, rs_reader = NoReader\<rparr>"

definition newRfsrv :: "('c, 'r) renv \<Rightarrow> nat \<Rightarrow> string list \<Rightarrow> nat \<Rightarrow> bool \<Rightarrow> ('c, 'r) rtest \<Rightarrow> (nat \<times> ('c, 'r) rtest) go" where
  "newRfsrv env srv ends persister snapshot st =
     (let a = rt_next st;
          (raft, rf, pers) = (if re_useSM env then (None, rt_raft st, rt_pers st)
             else case re_Make env ends srv persister (rt_raft st, rt_pers st) of (r, rf, pers) \<Rightarrow> (Some r, rf, pers));
          st1 = st\<lparr>rt_next := Suc a, rt_raft := rf, rt_pers := pers, rt_heap := (rt_heap st)(a \<mapsto> new_obj srv (Some persister) raft)\<rparr>
      in if snapshot then
           (case rt_pers st1 persister of
              None \<Rightarrow> Panic ''nil pointer dereference''
            | Some ps \<Rightarrow>
               go_bind (if length (bytes_of (ReadSnapshot ps)) > 0 then ingestSnap env a (ReadSnapshot ps) (-1) st1 else Ret ([], st1))
                 (\<lambda>(err, st2). if err \<noteq> [] then fail_exit env ''failed to ingest snapshot'' err err st2
                   else Ret (a, upd_obj a (\<lambda>s. s\<lparr>rs_reader := (if raft = None then NoReader else ApplierSnap)\<rparr>) st2)))
         else Ret (a, upd_obj a (\<lambda>s. s\<lparr>rs_reader := Applier\<rparr>) st1))"

text \<open>The services of a new server are the harness server and its peer.\<close>

definition mksrv :: "('c, 'r) renv \<Rightarrow> string list \<Rightarrow> nat \<Rightarrow> nat \<Rightarrow> ('c, 'r) rtest \<Rightarrow> ((nat \<times> nat option) \<times> ('c, 'r) rtest) go" where
  "mksrv env ends srv persister st = go_bind (newRfsrv env srv ends persister (rt_snapshot st) st) (\<lambda>(a, st1).
     go_bind (go_nth (rt_srvs st1) srv) (\<lambda>_.
     go_bind (obj st1 (Some a)) (\<lambda>s. Ret ((a, rs_raft s), st1\<lparr>rt_srvs := (rt_srvs st1)[srv := Some a]\<rparr>))))"

definition rfsrv_Kill :: "nat \<Rightarrow> ('c, 'r) rtest \<Rightarrow> ('c, 'r) rtest go" where
  "rfsrv_Kill a st = go_bind (obj st (Some a)) (\<lambda>rs.
     let st1 = upd_obj a (\<lambda>s. s\<lparr>rs_raft := None\<rparr>) st in
     case rs_persister rs of
       None \<Rightarrow> Ret st1
     | Some p \<Rightarrow> (case rt_pers st1 p of
         None \<Rightarrow> Panic ''nil pointer dereference''
       | Some ps \<Rightarrow> Ret (st1\<lparr>rt_pers := (rt_pers st1)(p \<mapsto> Save (ReadRaftState ps) (ReadSnapshot ps) ps)\<rparr>)))"

definition rfsrv_Raft :: "nat option \<Rightarrow> ('c, 'r) rtest \<Rightarrow> nat option go" where
  "rfsrv_Raft p st = go_bind (obj st p) (\<lambda>s. Ret (rs_raft s))"

definition rfsrv_GetState :: "('c, 'r) renv \<Rightarrow> nat option \<Rightarrow> ('c, 'r) rtest \<Rightarrow> (int \<times> bool) go" where
  "rfsrv_GetState env p st = go_bind (rfsrv_Raft p st) (\<lambda>r. case r of
     None \<Rightarrow> Panic ''nil pointer dereference'' | Some r \<Rightarrow> Ret (re_GetState env r (rt_raft st)))"

subsection \<open>Leaders and terms\<close>

definition is_connected :: "nat \<Rightarrow> ('c, 'r) rtest \<Rightarrow> bool go" where
  "is_connected i st = go_nth (rt_connected st) i"

text \<open>
  Asking server \<open>i\<close> for its state, if it is connected. The other goroutines may run before every
  question.
\<close>

definition poll :: "('c, 'r) renv \<Rightarrow> nat \<Rightarrow> ('c, 'r) rtest \<Rightarrow> ((int \<times> bool) option \<times> ('c, 'r) rtest) go" where
  "poll env i st = (let st' = pause env st in go_bind (is_connected i st') (\<lambda>c.
     if c then go_bind (go_nth (rt_srvs st') i) (\<lambda>p. go_bind (rfsrv_GetState env p st') (\<lambda>r. Ret (Some r, st')))
     else Ret (None, st')))"

text \<open>The map of terms to the leaders that claim them.\<close>

definition collect_leaders :: "('c, 'r) renv \<Rightarrow> ('c, 'r) rtest \<Rightarrow> ((int, nat list) gomap \<times> ('c, 'r) rtest) go" where
  "collect_leaders env st = fold_go (\<lambda>i (leaders, st). go_bind (poll env i st) (\<lambda>(r, st').
     case r of
       Some (term, True) \<Rightarrow> Ret (AList.update term (gm_get [] leaders term @ [i]) leaders, st')
     | _ \<Rightarrow> Ret (leaders, st'))) [0..<rt_n st] ([], st)"

definition show_nats :: "nat list \<Rightarrow> string" where
  "show_nats xs = show_ints (map int xs)"

definition scan_leaders :: "('c, 'r) renv \<Rightarrow> (int, nat list) gomap \<Rightarrow> ('c, 'r) rtest \<Rightarrow> int go" where
  "scan_leaders env leaders st = fold_go (\<lambda>(term, ls) lastTermWithLeader.
     if length ls > 1 then fail_check env ''multiple leaders''
       (''multiple leaders in term '' @ itoa term @ '' = '' @ show_nats ls) ''term %d has %d (>1) leaders'' st
     else Ret (if term > lastTermWithLeader then term else lastTermWithLeader)) (re_order env leaders) (-1)"

fun one_leader_loop :: "('c, 'r) renv \<Rightarrow> nat \<Rightarrow> ('c, 'r) rtest \<Rightarrow> (nat \<times> ('c, 'r) rtest) go" where
  "one_leader_loop env 0 st = fail_check env ''no leader'' ''unable to find a leader'' ''expected one leader, got none'' st"
| "one_leader_loop env (Suc k) st = go_bind (collect_leaders env (pause env st)) (\<lambda>(leaders, st1).
     go_bind (scan_leaders env leaders st1) (\<lambda>lastTermWithLeader.
       if leaders \<noteq> [] then go_bind (go_nth (gm_get [] leaders lastTermWithLeader) 0) (\<lambda>l.
         let details = ''leader in term '' @ itoa lastTermWithLeader @ '' = '' @ itoa (int l)
         in go_bind (rt_annotate env (\<lambda>t. AnnotateCheckerSuccess t details details) st1) (\<lambda>st2. Ret (l, st2)))
       else one_leader_loop env k st1))"

definition checkOneLeader :: "('c, 'r) renv \<Rightarrow> ('c, 'r) rtest \<Rightarrow> (nat \<times> ('c, 'r) rtest) go" where
  "checkOneLeader env st =
     go_bind (rt_annotate env (\<lambda>t. AnnotateCheckerBegin t ''checking for a single leader'') st) (one_leader_loop env 10)"

definition checkTerms :: "('c, 'r) renv \<Rightarrow> ('c, 'r) rtest \<Rightarrow> (int \<times> ('c, 'r) rtest) go" where
  "checkTerms env st =
     go_bind (rt_annotate env (\<lambda>t. AnnotateCheckerBegin t ''checking term agreement'') st) (\<lambda>st1.
     go_bind (fold_go (\<lambda>i (term, st). go_bind (poll env i st) (\<lambda>(r, st').
         case r of
           None \<Rightarrow> Ret (term, st')
         | Some (xterm, _) \<Rightarrow>
             if term = -1 then Ret (xterm, st')
             else if term \<noteq> xterm then fail_check env ''term disagreed''
               (''node ids -> terms = { '' @ itoa (int i - 1) @ '' -> '' @ itoa term @ ''; '' @ itoa (int i) @ '' -> '' @ itoa xterm @ '' }'')
               ''servers disagree on term'' st'
             else Ret (term, st'))) [0..<rt_n st] (-1, st1)) (\<lambda>(term, st2).
     go_bind (rt_annotate env (\<lambda>t. AnnotateCheckerSuccess t ''term agreed'' (''term = '' @ itoa term)) st2) (\<lambda>st3. Ret (term, st3))))"

definition checkNoLeader :: "('c, 'r) renv \<Rightarrow> ('c, 'r) rtest \<Rightarrow> ('c, 'r) rtest go" where
  "checkNoLeader env st =
     go_bind (rt_annotate env (\<lambda>t. AnnotateCheckerBegin t ''checking no unexpected leader among connected servers'') st) (\<lambda>st1.
     go_bind (fold_go (\<lambda>i st. go_bind (poll env i st) (\<lambda>(r, st').
         case r of
           Some (_, True) \<Rightarrow> (let details = ''leader = '' @ itoa (int i)
             in fail_check env ''unexpected leader found'' details details st')
         | _ \<Rightarrow> Ret st')) [0..<rt_n st] st1) (\<lambda>st2.
     rt_annotate env (\<lambda>t. AnnotateCheckerSuccess t ''no unexpected leader'' ''no unexpected leader'') st2))"

subsection \<open>Agreement\<close>

text \<open>\<^verbatim>\<open>nCommitted\<close> runs under the lock of the test.\<close>

definition nCommitted :: "('c, 'r) renv \<Rightarrow> int \<Rightarrow> ('c, 'r) rtest \<Rightarrow> (nat \<times> 'c anyv) go" where
  "nCommitted env index st = fold_go (\<lambda>p (count, cmd). go_bind (obj st p) (\<lambda>rs.
     if rs_applyErr rs \<noteq> [] then fail_check env ''apply error'' (rs_applyErr rs) (rs_applyErr rs) st
     else go_bind (Logs index p st) (\<lambda>l. case l of
       None \<Rightarrow> Ret (count, cmd)
     | Some cmd1 \<Rightarrow>
         if count > 0 \<and> cmd \<noteq> cmd1 then
           (let text = ''committed values at index '' @ itoa index @ '' do not match ('' @ re_show env cmd @ '' != '' @ re_show env cmd1 @ '')''
            in fail_check env ''unmatched committed values'' text text st)
         else Ret (count + 1, cmd1)))) (rt_srvs st) (0, None)"

definition checkNoAgreement :: "('c, 'r) renv \<Rightarrow> int \<Rightarrow> ('c, 'r) rtest \<Rightarrow> ('c, 'r) rtest go" where
  "checkNoAgreement env index st =
     go_bind (rt_annotate env (\<lambda>t. AnnotateCheckerBegin t (''checking no unexpected agreement at index '' @ itoa index)) st) (\<lambda>st1.
     go_bind (nCommitted env index st1) (\<lambda>(n, _).
       if n > 0 then fail_check env (''unexpected agreement at index '' @ itoa index)
         (itoa (int n) @ '' server(s) commit incorrectly index'') ''%v committed but no majority'' st1
       else rt_annotate env (\<lambda>t. AnnotateCheckerSuccess t (''no unexpected agreement at index '' @ itoa index) ''OK'') st1))"

definition checkFinished :: "('c, 'r) rtest \<Rightarrow> bool" where
  "checkFinished st = (rt_finished st \<noteq> 0)"

text \<open>
  The parts of \<^verbatim>\<open>one\<close>. \<open>try_starts\<close> asks each server once, from the one after \<open>starts\<close> on, and stops
  at the first that takes the command.
\<close>

fun try_starts :: "('c, 'r) renv \<Rightarrow> 'c anyv \<Rightarrow> nat \<Rightarrow> nat \<Rightarrow> ('c, 'r) rtest \<Rightarrow> ((int \<times> nat) \<times> ('c, 'r) rtest) go" where
  "try_starts env cmd 0 starts st = Ret ((-1, starts), st)"
| "try_starts env cmd (Suc k) starts st =
     (let st1 = pause env st; s = (starts + 1) mod length (rt_srvs st1) in
      go_bind (is_connected s st1) (\<lambda>c.
      go_bind (if c then go_bind (go_nth (rt_srvs st1) s) (\<lambda>p. rfsrv_Raft p st1) else Ret None) (\<lambda>rf.
        case rf of
          None \<Rightarrow> try_starts env cmd k s st1
        | Some r \<Rightarrow> (case re_Start env r cmd (rt_raft st1) of ((index1, _, ok), w) \<Rightarrow>
            let st2 = st1\<lparr>rt_raft := w\<rparr> in
            if ok then Ret ((index1, s), st2) else try_starts env cmd k s st2))))"

definition elapsed :: "('c, 'r) renv \<Rightarrow> int \<Rightarrow> ('c, 'r) rtest \<Rightarrow> int" where
  "elapsed env t0 st = now env st - t0"

text \<open>Waiting for agreement on the command at \<open>index\<close>, for two seconds (in nanoseconds).\<close>

partial_function (option) agree_loop ::
    "('c, 'r) renv \<Rightarrow> int \<Rightarrow> int \<Rightarrow> 'c anyv \<Rightarrow> nat \<Rightarrow> ('c, 'r) rtest \<Rightarrow> (bool \<times> ('c, 'r) rtest) go option" where
  "agree_loop env t1 index cmd expected st =
     (if elapsed env t1 st < 2000000000 then
        (case nCommitted env index (tick st) of
           Ret r \<Rightarrow> (if fst r > 0 \<and> fst r \<ge> expected \<and> snd r = cmd then Some (Ret (True, tick st))
             else agree_loop env t1 index cmd expected (pause env (tick st)))
         | Fatal e \<Rightarrow> Some (Fatal e) | Panic e \<Rightarrow> Some (Panic e) | Diverge \<Rightarrow> Some Diverge)
      else Some (Ret (False, tick st)))"

text \<open>The \<open>%.8s\<close> rendering of the command.\<close>

definition text8 :: "('c, 'r) renv \<Rightarrow> 'c anyv \<Rightarrow> string" where
  "text8 env cmd = take 8 (re_show env cmd)"

definition one_failed :: "('c, 'r) renv \<Rightarrow> 'c anyv \<Rightarrow> string \<Rightarrow> ('c, 'r) rtest \<Rightarrow> 'a go" where
  "one_failed env cmd why st = fail_check env (''agreement of '' @ text8 env cmd @ '' failed'') why ''one(%v) failed to reach agreement'' st"

text \<open>What one round of \<^verbatim>\<open>one\<close> does: finds a server that takes the command and waits for agreement.\<close>

datatype round = Agreed int | Again nat

definition one_round :: "('c, 'r) renv \<Rightarrow> 'c anyv \<Rightarrow> nat \<Rightarrow> bool \<Rightarrow> nat \<Rightarrow> ('c, 'r) rtest \<Rightarrow> (round \<times> ('c, 'r) rtest) go" where
  "one_round env cmd expected retry starts st =
     go_bind (try_starts env cmd (length (rt_srvs st)) starts st) (\<lambda>((index, starts'), st1).
       if index \<noteq> -1 then
         go_bind (case agree_loop env (now env st1) index cmd expected (tick st1) of None \<Rightarrow> Diverge | Some r \<Rightarrow> r) (\<lambda>(agreed, st2).
           if agreed then go_bind (rt_annotate env (\<lambda>t. AnnotateCheckerSuccess t (''agreement of '' @ text8 env cmd @ '' reached'') ''OK'') st2)
               (\<lambda>st3. Ret (Agreed index, st3))
           else if \<not> retry then one_failed env cmd ''failed after submitting command'' st2
           else Ret (Again starts', st2))
       else Ret (Again starts', pause env st1))"

partial_function (option) one_loop ::
    "('c, 'r) renv \<Rightarrow> int \<Rightarrow> 'c anyv \<Rightarrow> nat \<Rightarrow> bool \<Rightarrow> nat \<Rightarrow> ('c, 'r) rtest \<Rightarrow> (int \<times> ('c, 'r) rtest) go option" where
  "one_loop env t0 cmd expected retry starts st =
     (if elapsed env t0 st < 10000000000 \<and> \<not> checkFinished (tick st) then
        (case one_round env cmd expected retry starts (tick st) of
           Ret r \<Rightarrow> (case fst r of Agreed index \<Rightarrow> Some (Ret (index, snd r))
             | Again starts' \<Rightarrow> one_loop env t0 cmd expected retry starts' (snd r))
         | Fatal e \<Rightarrow> Some (Fatal e) | Panic e \<Rightarrow> Some (Panic e) | Diverge \<Rightarrow> Some Diverge)
      else if \<not> checkFinished (tick st) then Some (one_failed env cmd ''failed after 10-second timeout'' (tick st))
      else Some (Ret (-1, tick st)))"

definition one :: "('c, 'r) renv \<Rightarrow> 'c anyv \<Rightarrow> nat \<Rightarrow> bool \<Rightarrow> ('c, 'r) rtest \<Rightarrow> (int \<times> ('c, 'r) rtest) go" where
  "one env cmd expectedServers retry st =
     go_bind (rt_annotate env (\<lambda>t. AnnotateCheckerBegin t (''checking agreement of '' @ text8 env cmd @ '' by at least ''
         @ itoa (int expectedServers) @ '' servers '' @ (if retry then ''with'' else ''without'') @ '' retry'')) st) (\<lambda>st1.
     case one_loop env (now env st1) cmd expectedServers retry 0 (tick st1) of None \<Rightarrow> Diverge | Some r \<Rightarrow> r)"

text \<open>
  \<^verbatim>\<open>wait\<close> returns the command, or -1 when a peer has moved to a later term. The pause between two
  counts doubles up to a second, which changes only how long it is.
\<close>

datatype 'c waited = Moved | Committed "'c anyv"

definition someone_moved :: "('c, 'r) renv \<Rightarrow> int \<Rightarrow> ('c, 'r) rtest \<Rightarrow> bool go" where
  "someone_moved env startTerm st = fold_go (\<lambda>p moved. if moved then Ret True
     else go_bind (rfsrv_GetState env p st) (\<lambda>(t, _). Ret (t > startTerm))) (rt_srvs st) False"

fun wait_loop :: "('c, 'r) renv \<Rightarrow> nat \<Rightarrow> int \<Rightarrow> nat \<Rightarrow> int \<Rightarrow> ('c, 'r) rtest \<Rightarrow> (bool \<times> ('c, 'r) rtest) go" where
  "wait_loop env 0 index n startTerm st = Ret (False, st)"
| "wait_loop env (Suc k) index n startTerm st = go_bind (nCommitted env index st) (\<lambda>(nd, _).
     if nd \<ge> n then Ret (False, st)
     else let st1 = pause env st in
       if startTerm > -1 then go_bind (someone_moved env startTerm st1) (\<lambda>mv.
         if mv then Ret (True, st1) else wait_loop env k index n startTerm st1)
       else wait_loop env k index n startTerm st1)"

definition wait :: "('c, 'r) renv \<Rightarrow> int \<Rightarrow> nat \<Rightarrow> int \<Rightarrow> ('c, 'r) rtest \<Rightarrow> ('c waited \<times> ('c, 'r) rtest) go" where
  "wait env index n startTerm st = go_bind (wait_loop env 30 index n startTerm st) (\<lambda>(moved, st1).
     if moved then Ret (Moved, st1)
     else let st2 = pause env st1 in go_bind (nCommitted env index st2) (\<lambda>(nd, cmd).
       if nd < n then fail_check env (''less than '' @ itoa (int n) @ '' servers commit index '' @ itoa index)
         (''only '' @ itoa (int nd) @ '' (< '' @ itoa (int n) @ '') servers commit index '' @ itoa index @ '' at term '' @ itoa startTerm)
         ''only %d decided for index %d; wanted %d'' st2
       else Ret (Committed cmd, st2)))"

subsection \<open>Histories of a test\<close>

text \<open>
  What happens to a test, one step at a time: a server is made (for the first time or after a
  crash), an instance is killed, or the reader of an instance receives a message.
\<close>

datatype 'c revent = MkSrv "string list" nat nat | KillSrv nat | Deliver nat "'c ApplyMsg"

fun run_revent :: "('c, 'r) renv \<Rightarrow> 'c revent \<Rightarrow> ('c, 'r) rtest \<Rightarrow> ('c, 'r) rtest go" where
  "run_revent env (MkSrv ends srv p) st = go_bind (mksrv env ends srv p st) (\<lambda>(_, st'). Ret st')"
| "run_revent env (KillSrv a) st = rfsrv_Kill a st"
| "run_revent env (Deliver a m) st = deliver env a m st"

definition plog :: "('c, 'r) rtest \<Rightarrow> nat option \<Rightarrow> int \<rightharpoonup> 'c anyv" where
  "plog st p = (case p of None \<Rightarrow> Map.empty | Some a \<Rightarrow> (case rt_heap st a of None \<Rightarrow> Map.empty | Some s \<Rightarrow> rs_logs s))"

text \<open>The committed entries the harness holds for server \<open>i\<close>.\<close>

definition server_log :: "('c, 'r) rtest \<Rightarrow> nat \<Rightarrow> int \<rightharpoonup> 'c anyv" where
  "server_log st i = (if i < length (rt_srvs st) then plog st (rt_srvs st ! i) else Map.empty)"

definition logs_agree :: "('c, 'r) rtest \<Rightarrow> bool" where
  "logs_agree st \<longleftrightarrow> (\<forall>p\<in>set (rt_srvs st). \<forall>q\<in>set (rt_srvs st). \<forall>k x y. plog st p k = Some x \<longrightarrow> plog st q k = Some y \<longrightarrow> x = y)"

definition logs_contiguous :: "('c, 'r) rtest \<Rightarrow> bool" where
  "logs_contiguous st \<longleftrightarrow> (\<forall>p\<in>set (rt_srvs st). \<forall>k > 1. plog st p k \<noteq> None \<longrightarrow> plog st p (k - 1) \<noteq> None)"

lemma obj_Ret_iff [go_simps]: "obj st p = Ret s \<longleftrightarrow> (\<exists>a. p = Some a \<and> rt_heap st a = Some s)"
  by (auto simp: obj_def split: option.splits)

lemma obj_Some [simp]: "rt_heap st a = Some s \<Longrightarrow> obj st (Some a) = Ret s"
  by (simp add: obj_def)

lemma go_nth_Ret_iff [go_simps]: "go_nth xs i = Ret v \<longleftrightarrow> i < length xs \<and> v = xs ! i"
  by (auto simp: go_nth_def)

lemma fail_check_not_Ret [simp]: "fail_check env d e m st \<noteq> Ret r"
  by (auto simp: fail_check_def go_bind_Ret_iff)

lemma fail_exit_not_Ret [simp]: "fail_exit env d e m st \<noteq> Ret r"
  by (auto simp: fail_exit_def go_bind_Ret_iff)

lemma upd_obj_simps [simp]:
  "rt_srvs (upd_obj a f st) = rt_srvs st" "rt_snapshot (upd_obj a f st) = rt_snapshot st"
  "rt_maxIndex (upd_obj a f st) = rt_maxIndex st" "rt_ann (upd_obj a f st) = rt_ann st"
  "rt_pers (upd_obj a f st) = rt_pers st" "rt_raft (upd_obj a f st) = rt_raft st"
  "rt_next (upd_obj a f st) = rt_next st" "rt_n (upd_obj a f st) = rt_n st"
  "rt_heap (upd_obj a f st) b = (if b = a then map_option f (rt_heap st a) else rt_heap st b)"
  by (simp_all add: upd_obj_def)

lemma plog_upd_obj:
  "plog (upd_obj a f st) p k =
     (case rt_heap st a of Some s \<Rightarrow> if p = Some a then rs_logs (f s) k else plog st p k | None \<Rightarrow> plog st p k)"
  by (cases p) (auto simp: plog_def split: option.splits)

lemma plog_more [simp]: "plog (st\<lparr>rt_maxIndex := x\<rparr>) p = plog st p" "plog (st\<lparr>rt_pers := y\<rparr>) p = plog st p"
  "plog (st\<lparr>rt_srvs := z\<rparr>) p = plog st p" "plog (st\<lparr>rt_raft := r\<rparr>) p = plog st p" "plog (st\<lparr>rt_ann := an\<rparr>) p = plog st p"
  "plog (tick st) p = plog st p"
  by (auto simp: plog_def tick_def split: option.splits)

lemma Logs_obj [simp]: "rt_heap st a = Some s \<Longrightarrow> Logs k (Some a) st = Ret (rs_logs s k)"
  by (simp add: Logs_def)

lemma plog_obj [simp]: "rt_heap st a = Some s \<Longrightarrow> plog st (Some a) = rs_logs s"
  by (simp add: plog_def)

text \<open>What \<^const>\<open>checkLogs\<close> finds: no message means that nobody holds another value at the index.\<close>

lemma compare_loop:
  assumes "fold_go (\<lambda>(j, p) err. go_bind (Logs k p st) (\<lambda>old. case old of
      None \<Rightarrow> Ret err | Some w \<Rightarrow> if w \<noteq> v then Ret (msg j w) else Ret err)) (enumerate n ps) err = Ret []"
    and "\<And>j w. msg j w \<noteq> []"
  shows "err = [] \<and> (\<forall>p\<in>set ps. \<forall>w. plog st p k = Some w \<longrightarrow> w = v)"
  using assms(1)
proof (induction ps arbitrary: n err)
  case (Cons p ps)
  from Cons.prems obtain s a where s: "p = Some a" "rt_heap st a = Some s"
    by (auto simp: Logs_def go_simps)
  show ?case
  proof (cases "rs_logs s k")
    case None
    then show ?thesis using Cons.IH[of "Suc n" err] Cons.prems s by simp
  next
    case (Some w)
    show ?thesis
    proof (cases "w = v")
      case True
      then show ?thesis using Cons.IH[of "Suc n" err] Cons.prems s Some by simp
    next
      case False
      then show ?thesis using Cons.IH[of "Suc n" "msg n w"] Cons.prems s Some assms(2) by simp
    qed
  qed
qed simp

lemma checkLogs_RetD:
  assumes "checkLogs env i m st = Ret ((err, prevok), st')"
  obtains a s where "i < length (rt_srvs st)" "rt_srvs st ! i = Some a" "rt_heap st a = Some s"
    "prevok = (rs_logs s (CommandIndex m - 1) \<noteq> None)"
    "st' = (upd_obj a (\<lambda>s. s\<lparr>rs_logs := (rs_logs s)(CommandIndex m \<mapsto> Command m)\<rparr>) st)
       \<lparr>rt_maxIndex := max (CommandIndex m) (rt_maxIndex st)\<rparr>"
    "err = [] \<longrightarrow> (\<forall>p\<in>set (rt_srvs st). \<forall>w. plog st p (CommandIndex m) = Some w \<longrightarrow> w = Command m)"
proof -
  from assms obtain a s where i: "i < length (rt_srvs st)" "rt_srvs st ! i = Some a" "rt_heap st a = Some s"
    and p: "prevok = (rs_logs s (CommandIndex m - 1) \<noteq> None)"
    and st': "st' = (upd_obj a (\<lambda>s. s\<lparr>rs_logs := (rs_logs s)(CommandIndex m \<mapsto> Command m)\<rparr>) st)
       \<lparr>rt_maxIndex := max (CommandIndex m) (rt_maxIndex st)\<rparr>"
    and f: "fold_go (\<lambda>(j, p) err. go_bind (Logs (CommandIndex m) p st) (\<lambda>old. case old of
      None \<Rightarrow> Ret err | Some w \<Rightarrow> if w \<noteq> Command m then Ret (''commit index='' @ itoa (CommandIndex m) @ '' server='' @ itoa (int i) @ '' '' @ re_show env (Command m)
               @ '' != server='' @ itoa (int j) @ '' '' @ re_show env w) else Ret err)) (enumerate 0 (rt_srvs st)) [] = Ret err"
    by (auto simp: checkLogs_def go_simps Let_def max_def)
  have "err = [] \<longrightarrow> (\<forall>p\<in>set (rt_srvs st). \<forall>w. plog st p (CommandIndex m) = Some w \<longrightarrow> w = Command m)"
    using f by (auto dest!: compare_loop)
  from that[OF i p st' this] show ?thesis .
qed

text \<open>A message that the applier accepts stores an entry that all servers agree on, after its predecessor.\<close>

lemma applier_RetD:
  assumes "applier env a m st = Ret st'" "logs_agree st" "logs_contiguous st"
  shows "logs_agree st' \<and> logs_contiguous st' \<and> rt_srvs st' = rt_srvs st \<and> rt_snapshot st' = rt_snapshot st"
proof (cases "CommandValid m")
  case True
  let ?k = "CommandIndex m"
  from assms(1) True obtain i err prevok where
    c: "checkLogs env i m st = Ret ((err, prevok), st')" and e: "err = [] \<and> (?k > 1 \<longrightarrow> prevok)"
    by (auto simp: applier_def go_simps Let_def out_of_order_def split: if_splits)
  from c obtain b s where b: "rt_srvs st ! i = Some b" "rt_heap st b = Some s"
      "prevok = (rs_logs s (?k - 1) \<noteq> None)"
    and st': "st' = (upd_obj b (\<lambda>s. s\<lparr>rs_logs := (rs_logs s)(?k \<mapsto> Command m)\<rparr>) st)\<lparr>rt_maxIndex := max ?k (rt_maxIndex st)\<rparr>"
    and v: "\<forall>p\<in>set (rt_srvs st). \<forall>w. plog st p ?k = Some w \<longrightarrow> w = Command m"
    by (rule checkLogs_RetD) (use e in blast)
  have pl: "plog st' p k = (if p = Some b \<and> k = ?k then Some (Command m) else plog st p k)" for p k
    using b by (simp add: st' plog_upd_obj)
  have prev: "?k > 1 \<longrightarrow> plog st' (Some b) (?k - 1) \<noteq> None" using e b by (simp add: pl)
  have srvs: "rt_srvs st' = rt_srvs st" by (simp add: st')
  have val: "x = Command m" if "p \<in> set (rt_srvs st)" "plog st' p ?k = Some x" for p x
    using that v by (cases "p = Some b") (simp_all add: pl)
  have "logs_agree st'" unfolding logs_agree_def srvs
  proof (intro ballI allI impI)
    fix p q k x y assume *: "p \<in> set (rt_srvs st)" "q \<in> set (rt_srvs st)" "plog st' p k = Some x" "plog st' q k = Some y"
    show "x = y"
    proof (cases "k = ?k")
      case True then show ?thesis using * val[of p x] val[of q y] by simp
    next
      case False then show ?thesis using * assms(2) by (simp add: pl logs_agree_def)
    qed
  qed
  moreover have "logs_contiguous st'"
    using assms(3) prev by (simp add: logs_contiguous_def srvs pl)
  ultimately show ?thesis by (simp add: st')
next
  case False
  then show ?thesis using assms by (simp add: applier_def)
qed

text \<open>Making and killing servers, without snapshots: a new server starts with an empty log.\<close>

definition heap_ok :: "('c, 'r) rtest \<Rightarrow> bool" where
  "heap_ok st \<longleftrightarrow> (\<forall>a. rt_heap st a \<noteq> None \<longrightarrow> a < rt_next st) \<and>
     (\<forall>p\<in>set (rt_srvs st). \<forall>a. p = Some a \<longrightarrow> a < rt_next st)"

definition plain_readers :: "('c, 'r) rtest \<Rightarrow> bool" where
  "plain_readers st \<longleftrightarrow> \<not> rt_snapshot st \<and> (\<forall>a s. rt_heap st a = Some s \<longrightarrow> rs_reader s = Applier)"

definition agreeing :: "('c, 'r) rtest \<Rightarrow> bool" where
  "agreeing st \<longleftrightarrow> heap_ok st \<and> plain_readers st \<and> logs_agree st \<and> logs_contiguous st"

lemma plog_fresh: "heap_ok st \<Longrightarrow> p \<in> set (rt_srvs st) \<Longrightarrow>
    plog (st\<lparr>rt_next := n, rt_raft := rf, rt_pers := ps, rt_heap := (rt_heap st)(rt_next st \<mapsto> s)\<rparr>) p = plog st p"
  by (auto simp: heap_ok_def plog_def split: option.splits)

lemma newRfsrv_plain:
  assumes "newRfsrv env srv ends pers False st = Ret (a, st')"
  obtains rf ps r where "a = rt_next st"
    "st' = st\<lparr>rt_next := Suc a, rt_raft := rf, rt_pers := ps,
       rt_heap := (rt_heap st)(a \<mapsto> (new_obj srv (Some pers) r)\<lparr>rs_reader := Applier\<rparr>)\<rparr>"
  using assms by (auto simp: newRfsrv_def Let_def upd_obj_def split: prod.splits)

lemma mksrv_agreeing:
  assumes "mksrv env ends srv pers st = Ret (r, st')" "agreeing st"
  shows "agreeing st'"
proof -
  from assms obtain a st1 where n: "newRfsrv env srv ends pers False st = Ret (a, st1)"
    and st': "st' = st1\<lparr>rt_srvs := (rt_srvs st1)[srv := Some a]\<rparr>"
    by (auto simp: mksrv_def go_simps agreeing_def plain_readers_def)
  from n obtain rf ps q where a: "a = rt_next st" and st1: "st1 = st\<lparr>rt_next := Suc a, rt_raft := rf, rt_pers := ps,
       rt_heap := (rt_heap st)(a \<mapsto> (new_obj srv (Some pers) q)\<lparr>rs_reader := Applier\<rparr>)\<rparr>"
    by (rule newRfsrv_plain)
  have new: "plog st' (Some a) = Map.empty" by (simp add: st' st1 new_obj_def)
  have old: "p \<in> set (rt_srvs st) \<Longrightarrow> plog st' p = plog st p" for p
    using assms(2) by (simp add: st' st1 a plog_fresh agreeing_def)
  have sub: "p \<in> set (rt_srvs st') \<Longrightarrow> p = Some a \<or> p \<in> set (rt_srvs st)" for p
    by (auto simp: st' st1 dest: set_update_subset_insert[THEN subsetD])
  have pl: "plog st' p = Map.empty \<or> p \<in> set (rt_srvs st) \<and> plog st' p = plog st p" if "p \<in> set (rt_srvs st')" for p
    using sub[OF that] new old[of p] by auto
  have "logs_agree st'" unfolding logs_agree_def
  proof (intro ballI allI impI)
    fix p q k x y assume *: "p \<in> set (rt_srvs st')" "q \<in> set (rt_srvs st')" "plog st' p k = Some x" "plog st' q k = Some y"
    with pl[of p] pl[of q] have "p \<in> set (rt_srvs st)" "q \<in> set (rt_srvs st)" "plog st p k = Some x" "plog st q k = Some y" by auto
    with assms(2) show "x = y" by (simp add: agreeing_def logs_agree_def)
  qed
  moreover have "logs_contiguous st'" unfolding logs_contiguous_def
    using assms(2) pl by (fastforce simp: agreeing_def logs_contiguous_def)
  moreover have "heap_ok st'"
    using assms(2) by (auto simp: agreeing_def heap_ok_def st' st1 a less_Suc_eq dest!: set_update_subset_insert[THEN subsetD])
  moreover have "plain_readers st'"
    using assms(2) by (auto simp: agreeing_def plain_readers_def st' st1)
  ultimately show ?thesis by (simp add: agreeing_def)
qed

lemma agreeing_upd_raft:
  assumes "agreeing st"
  shows "agreeing (upd_obj a (\<lambda>s. s\<lparr>rs_raft := r\<rparr>) st)" "agreeing ((upd_obj a (\<lambda>s. s\<lparr>rs_raft := r\<rparr>) st)\<lparr>rt_pers := ps\<rparr>)"
proof -
  have pl: "plog (upd_obj a (\<lambda>s. s\<lparr>rs_raft := r\<rparr>) st) p = plog st p" for p
    by (rule ext) (auto simp: plog_upd_obj split: option.splits)
  show "agreeing (upd_obj a (\<lambda>s. s\<lparr>rs_raft := r\<rparr>) st)" "agreeing ((upd_obj a (\<lambda>s. s\<lparr>rs_raft := r\<rparr>) st)\<lparr>rt_pers := ps\<rparr>)"
    using assms by (auto simp: agreeing_def heap_ok_def plain_readers_def logs_agree_def logs_contiguous_def pl)
qed

text \<open>Killing an instance changes only its peer and, to what it holds, its persister.\<close>

lemma rfsrv_Kill_cases:
  assumes "rfsrv_Kill a st = Ret st'"
  obtains "st' = upd_obj a (\<lambda>s. s\<lparr>rs_raft := None\<rparr>) st"
  | p ps where "rt_pers st p = Some ps"
    "st' = (upd_obj a (\<lambda>s. s\<lparr>rs_raft := None\<rparr>) st)\<lparr>rt_pers := (rt_pers st)(p \<mapsto> Save (ReadRaftState ps) (ReadSnapshot ps) ps)\<rparr>"
proof -
  from assms obtain rs where rs: "rt_heap st a = Some rs" by (auto simp: rfsrv_Kill_def go_simps)
  show ?thesis
  proof (cases "rs_persister rs")
    case None
    with assms rs that(1) show ?thesis by (simp add: rfsrv_Kill_def)
  next
    case (Some p)
    with assms rs that(2)[of p] show ?thesis by (cases "rt_pers st p") (auto simp: rfsrv_Kill_def Let_def)
  qed
qed

lemma rfsrv_Kill_agreeing: "rfsrv_Kill a st = Ret st' \<Longrightarrow> agreeing st \<Longrightarrow> agreeing st'"
  by (erule rfsrv_Kill_cases) (simp_all add: agreeing_upd_raft)

lemma applier_heap:
  assumes "applier env a m st = Ret st'" "heap_ok st" "plain_readers st"
  shows "heap_ok st' \<and> plain_readers st'"
proof (cases "CommandValid m")
  case True
  from assms(1) True obtain i err prevok where "checkLogs env i m st = Ret ((err, prevok), st')"
    by (auto simp: applier_def go_simps Let_def split: if_splits)
  then obtain b s where "rt_heap st b = Some s" and
    "st' = (upd_obj b (\<lambda>s. s\<lparr>rs_logs := (rs_logs s)(CommandIndex m \<mapsto> Command m)\<rparr>) st)\<lparr>rt_maxIndex := max (CommandIndex m) (rt_maxIndex st)\<rparr>"
    by (rule checkLogs_RetD)
  then show ?thesis using assms(2,3) by (auto simp: heap_ok_def plain_readers_def)
next
  case False
  then show ?thesis using assms by (simp add: applier_def)
qed

lemma run_revent_agreeing: "run_revent env e st = Ret st' \<Longrightarrow> agreeing st \<Longrightarrow> agreeing st'"
proof (cases e)
  case (Deliver a m)
  assume "run_revent env e st = Ret st'" "agreeing st"
  then have "applier env a m st = Ret st'" using Deliver by (auto simp: deliver_def go_simps agreeing_def plain_readers_def)
  with \<open>agreeing st\<close> show ?thesis using applier_RetD applier_heap by (metis agreeing_def)
qed (auto simp: go_simps intro: mksrv_agreeing rfsrv_Kill_agreeing)

lemma run_revents_agreeing: "fold_go (run_revent env) es st = Ret st' \<Longrightarrow> agreeing st \<Longrightarrow> agreeing st'"
  by (induction es arbitrary: st) (auto simp: go_simps intro: run_revent_agreeing)

text \<open>The test that \<^verbatim>\<open>makeTest\<close> sets up, before its first server is made.\<close>

definition new_rtest :: "nat \<Rightarrow> bool \<Rightarrow> (nat \<rightharpoonup> persister) \<Rightarrow> 'r \<Rightarrow> ann \<Rightarrow> ('c, 'r) rtest" where
  "new_rtest n snapshot pers rf an = \<lparr>rt_n = n, rt_finished = 0, rt_srvs = replicate n None, rt_maxIndex = 0,
     rt_snapshot = snapshot, rt_connected = replicate n True, rt_heap = Map.empty, rt_next = 0, rt_pers = pers, rt_raft = rf,
     rt_ann = an, rt_reads = 0, rt_pauses = 0\<rparr>"

lemma agreeing_new: "agreeing (new_rtest n False pers rf an)"
  by (auto simp: agreeing_def new_rtest_def heap_ok_def plain_readers_def logs_agree_def logs_contiguous_def plog_def split: option.splits)

lemma agreeing_server_log:
  assumes "agreeing st"
  shows "server_log st i k = Some x \<Longrightarrow> server_log st j k = Some y \<Longrightarrow> x = y"
    and "server_log st i k \<noteq> None \<Longrightarrow> 1 < k \<Longrightarrow> server_log st i (k - 1) \<noteq> None"
  using assms nth_mem[of _ "rt_srvs st"]
  by (force simp: agreeing_def server_log_def logs_agree_def logs_contiguous_def split: if_splits)+

text \<open>Contiguity gives every entry from the first up to a stored one.\<close>

lemma agreeing_prefix:
  assumes "agreeing st" "server_log st i (1 + int d + j) \<noteq> None" "1 \<le> j"
  shows "server_log st i j \<noteq> None"
  using assms(2)
proof (induction d)
  case 0
  then show ?case using agreeing_server_log(2)[OF assms(1), of i "1 + j"] assms(3) by simp
next
  case (Suc d)
  have "server_log st i (1 + int (Suc d) + j - 1) \<noteq> None"
    by (rule agreeing_server_log(2)[OF assms(1) Suc.prems]) (use assms(3) in simp)
  moreover have "1 + int (Suc d) + j - 1 = 1 + int d + j" by simp
  ultimately show ?case using Suc.IH by metis
qed

text \<open>
  Property C5: without snapshots, whatever messages the peers send, in whatever order the readers of
  current and of killed instances handle them, and however servers are made and killed: if the test
  is still running, no two servers hold different commands at the same index, and every server
  holds all entries from index 1 up to each entry it holds.
\<close>

theorem applied_logs_agree:
  assumes "fold_go (run_revent env) es (new_rtest n False pers rf an) = Ret st"
  shows "(server_log st i k = Some x \<longrightarrow> server_log st j k = Some y \<longrightarrow> x = y) \<and>
    (server_log st i k = Some x \<longrightarrow> 1 \<le> l \<longrightarrow> l \<le> k \<longrightarrow> server_log st i l \<noteq> None)"
proof -
  have ok: "agreeing st" by (rule run_revents_agreeing[OF assms agreeing_new])
  have "server_log st i l \<noteq> None" if "server_log st i k = Some x" "1 \<le> l" "l < k"
    using agreeing_prefix[OF ok, of i "nat (k - l - 1)" l] that by simp
  then show ?thesis using agreeing_server_log(1)[OF ok] by (metis option.discI order_le_less)
qed

subsection \<open>Snapshots\<close>

text \<open>What a snapshot made at \<open>idx\<close> restores: the entries from 0 to \<open>idx\<close>, nil for a missing one.\<close>

definition restored :: "int \<Rightarrow> (int \<rightharpoonup> 'c anyv) \<Rightarrow> int \<rightharpoonup> 'c anyv" where
  "restored idx logs j = (if 0 \<le> j \<and> j \<le> idx then Some (case logs j of None \<Rightarrow> None | Some v \<Rightarrow> v) else None)"

lemma logs_of_snapshot:
  "logs_of_list (map (\<lambda>j. case logs (int j) of None \<Rightarrow> None | Some v \<Rightarrow> v) [0..<nat (idx + 1)]) = restored idx logs"
  by (rule ext) (auto simp: logs_of_list_def restored_def nth_append split: option.splits)

lemma make_snapshot_Ret:
  assumes "rt_heap st a = Some rs" "rs_raft rs = Some r"
    "re_Snapshot env r idx (snapshot_bytes env idx (rs_logs rs)) (rt_raft st, rt_pers st) = (rf, pers)"
  obtains st' where "make_snapshot env a idx st = Ret st'" "rt_heap st' = rt_heap st" "rt_srvs st' = rt_srvs st"
    "rt_pers st' = pers" "rt_next st' = rt_next st" "rt_snapshot st' = rt_snapshot st" "rt_n st' = rt_n st"
  using assms by (simp add: make_snapshot_def Let_def rt_annotate_def tick_def)

lemma ingestSnap_Ret:
  assumes "rt_heap st a = Some rs" "re_dec env b = Some (k, xlog)" "index = -1 \<or> index = k"
  shows "ingestSnap env a (Some b) index st =
    Ret ([], upd_obj a (\<lambda>s. s\<lparr>rs_logs := logs_of_list xlog, rs_lastApplied := k\<rparr>) st)"
  using assms by (auto simp: ingestSnap_def)

text \<open>A new server in snapshot mode, when its persister holds no snapshot and when it holds one.\<close>

lemma newRfsrv_snap:
  assumes "\<not> re_useSM env" "re_Make env ends srv p (rt_raft st, rt_pers st) = (r, rf, pers)" "pers p = Some ps"
    and "bytes_of (ps_snapshot ps) = [] \<and> logs = Map.empty \<and> k = 0
      \<or> bytes_of (ps_snapshot ps) \<noteq> [] \<and> re_dec env (bytes_of (ps_snapshot ps)) = Some (k, xlog) \<and> logs = logs_of_list xlog"
  shows "newRfsrv env srv ends p True st = Ret (rt_next st, st\<lparr>rt_next := Suc (rt_next st), rt_raft := rf, rt_pers := pers,
      rt_heap := (rt_heap st)(rt_next st \<mapsto> (new_obj srv (Some p) (Some r))
        \<lparr>rs_logs := logs, rs_lastApplied := k, rs_reader := ApplierSnap\<rparr>)\<rparr>)"
  using assms by (auto simp: newRfsrv_def Let_def ReadSnapshot_def clone_def bytes_of_def[of "Some _"] upd_obj_def
      ingestSnap_Ret[where rs = "new_obj srv (Some p) (Some r)"] new_obj_def)

lemma rfsrv_Kill_Ret:
  assumes "rt_heap st a = Some rs" "rs_persister rs = Some p" "rt_pers st p = Some ps"
  shows "rfsrv_Kill a st = Ret ((upd_obj a (\<lambda>s. s\<lparr>rs_raft := None\<rparr>) st)
    \<lparr>rt_pers := (rt_pers st)(p \<mapsto> Save (ReadRaftState ps) (ReadSnapshot ps) ps)\<rparr>)"
  using assms by (simp add: rfsrv_Kill_def)

text \<open>
  The snapshot that a server makes at an index survives a crash. If the peer saves what
  it is given and the codec decodes what it encoded, then after the server is killed a server
  started on the same persister resumes after that index and holds exactly the entries of the old
  server up to it, with nil where the old server had none.
\<close>

lemma snapshot_survives_restart:
  fixes env :: "('c, 'r) renv"
  assumes "rt_heap st a = Some rs" "rs_raft rs = Some r" "rs_persister rs = Some p"
    and codec: "\<And>xs. re_enc env idx xs \<noteq> [] \<and> re_dec env (re_enc env idx xs) = Some (idx, xs)"
    and saves: "\<And>w b. \<exists>ps. snd (re_Snapshot env r idx b w) p = Some ps \<and> ps_snapshot ps = Some b"
    and keeps: "\<And>w. snd (snd (re_Make env ends srv p w)) = snd w" and "\<not> re_useSM env"
  shows "\<exists>st1 st2 b st3 rs'. make_snapshot env a idx st = Ret st1 \<and> rfsrv_Kill a st1 = Ret st2 \<and>
    newRfsrv env srv ends p True st2 = Ret (b, st3) \<and> rt_heap st3 b = Some rs' \<and>
    rs_lastApplied rs' = idx \<and> rs_logs rs' = restored idx (rs_logs rs)"
proof -
  let ?xs = "map (\<lambda>j. case rs_logs rs (int j) of None \<Rightarrow> None | Some v \<Rightarrow> v) [0..<nat (idx + 1)]"
  let ?b = "snapshot_bytes env idx (rs_logs rs)"
  obtain rf pers where w: "re_Snapshot env r idx ?b (rt_raft st, rt_pers st) = (rf, pers)" by fastforce
  from saves[of ?b "(rt_raft st, rt_pers st)"] w obtain ps where ps: "pers p = Some ps" "ps_snapshot ps = Some ?b" by auto
  from assms(1,2) w obtain st1 where st1: "make_snapshot env a idx st = Ret st1" "rt_heap st1 = rt_heap st" "rt_pers st1 = pers"
    by (rule make_snapshot_Ret)
  define st2 where "st2 = (upd_obj a (\<lambda>s. s\<lparr>rs_raft := None\<rparr>) st1)
    \<lparr>rt_pers := pers(p \<mapsto> Save (ReadRaftState ps) (ReadSnapshot ps) ps)\<rparr>"
  have kill: "rfsrv_Kill a st1 = Ret st2"
    using rfsrv_Kill_Ret[of st1 a rs p ps] assms st1 ps by (simp add: st2_def)
  obtain r' rf' where m: "re_Make env ends srv p (rt_raft st2, rt_pers st2) = (r', rf', rt_pers st2)"
    using keeps[of "(rt_raft st2, rt_pers st2)"] by (cases "re_Make env ends srv p (rt_raft st2, rt_pers st2)") auto
  have "bytes_of (ps_snapshot (Save (ReadRaftState ps) (ReadSnapshot ps) ps)) = re_enc env idx ?xs"
    using ps by (simp add: Save_def ReadSnapshot_def clone_def bytes_of_def snapshot_bytes_def)
  then have "newRfsrv env srv ends p True st2 = Ret (rt_next st2, st2\<lparr>rt_next := Suc (rt_next st2), rt_raft := rf', rt_pers := rt_pers st2,
      rt_heap := (rt_heap st2)(rt_next st2 \<mapsto> (new_obj srv (Some p) (Some r'))
        \<lparr>rs_logs := logs_of_list ?xs, rs_lastApplied := idx, rs_reader := ApplierSnap\<rparr>)\<rparr>)"
    by (intro newRfsrv_snap[OF assms(7) m]) (use codec[of ?xs] in \<open>auto simp: st2_def\<close>)
  with st1 kill show ?thesis by (simp add: logs_of_snapshot)
qed

subsection \<open>A correct Raft passes\<close>

text \<open>
  The contract of Raft that the lab asks for, as the harness sees it: there is one committed log
  \<open>C\<close> (with no command at index 0); a running peer sends the commands of \<open>C\<close> in order, one after the
  last entry its server has applied, or a snapshot of a prefix of \<open>C\<close>; and what a persister holds
  when a server is started on it is no snapshot or a snapshot of a prefix of \<open>C\<close>. Servers are
  killed only once they have a persister, and commands are applied once all servers are made.
\<close>

definition prefix_of :: "(int \<Rightarrow> 'c anyv) \<Rightarrow> int \<Rightarrow> 'c anyv list" where
  "prefix_of C k = map (\<lambda>j. C (int j)) [0..<nat (k + 1)]"

definition is_snapshot :: "('c, 'r) renv \<Rightarrow> (int \<Rightarrow> 'c anyv) \<Rightarrow> byte list \<Rightarrow> bool" where
  "is_snapshot env C b = (case re_dec env b of None \<Rightarrow> False | Some (k, xs) \<Rightarrow> 0 \<le> k \<and> b = re_enc env k (prefix_of C k))"

fun raft_contract :: "('c, 'r) renv \<Rightarrow> (int \<Rightarrow> 'c anyv) \<Rightarrow> 'c revent \<Rightarrow> ('c, 'r) rtest \<Rightarrow> bool" where
  "raft_contract env C (MkSrv ends srv p) st \<longleftrightarrow> srv < length (rt_srvs st) \<and>
     (case snd (snd (re_Make env ends srv p (rt_raft st, rt_pers st))) p of
        None \<Rightarrow> False | Some ps \<Rightarrow> bytes_of (ps_snapshot ps) = [] \<or> is_snapshot env C (bytes_of (ps_snapshot ps)))"
| "raft_contract env C (KillSrv a) st \<longleftrightarrow>
     (case rt_heap st a of None \<Rightarrow> False | Some s \<Rightarrow> (case rs_persister s of None \<Rightarrow> False | Some p \<Rightarrow> rt_pers st p \<noteq> None))"
| "raft_contract env C (Deliver a m) st \<longleftrightarrow> None \<notin> set (rt_srvs st) \<and>
     (case rt_heap st a of None \<Rightarrow> False | Some s \<Rightarrow> rt_srvs st ! rs_me s = Some a \<and> rs_raft s \<noteq> None \<and>
        (if SnapshotValid m then SnapshotIndex m \<ge> 0 \<and> Snapshot m = Some (re_enc env (SnapshotIndex m) (prefix_of C (SnapshotIndex m)))
         else CommandValid m \<longrightarrow> CommandIndex m = rs_lastApplied s + 1 \<and> Command m = C (CommandIndex m)))"

fun contract_run :: "('c, 'r) renv \<Rightarrow> (int \<Rightarrow> 'c anyv) \<Rightarrow> 'c revent list \<Rightarrow> ('c, 'r) rtest \<Rightarrow> bool" where
  "contract_run env C [] st \<longleftrightarrow> True"
| "contract_run env C (e # es) st \<longleftrightarrow> raft_contract env C e st \<and>
     (case run_revent env e st of Ret st' \<Rightarrow> contract_run env C es st' | _ \<Rightarrow> True)"

text \<open>An instance holds a part of \<open>C\<close>, with all entries up to the last applied one.\<close>

definition srv_follows :: "(int \<Rightarrow> 'c anyv) \<Rightarrow> 'c rfsrv \<Rightarrow> bool" where
  "srv_follows C s \<longleftrightarrow> rs_reader s = ApplierSnap \<and> 0 \<le> rs_lastApplied s \<and>
     (\<forall>j x. rs_logs s j = Some x \<longrightarrow> x = C j) \<and> (\<forall>j. 1 \<le> j \<longrightarrow> j \<le> rs_lastApplied s \<longrightarrow> rs_logs s j = Some (C j))"

definition follows :: "(int \<Rightarrow> 'c anyv) \<Rightarrow> ('c, 'r) rtest \<Rightarrow> bool" where
  "follows C st \<longleftrightarrow> rt_snapshot st \<and> (\<forall>a s. rt_heap st a = Some s \<longrightarrow> srv_follows C s \<and> rs_me s < length (rt_srvs st)) \<and>
     (\<forall>a. Some a \<in> set (rt_srvs st) \<longrightarrow> rt_heap st a \<noteq> None)"

lemma srv_followsD:
  assumes "srv_follows C s"
  shows "rs_reader s = ApplierSnap" "0 \<le> rs_lastApplied s" "rs_logs s j = Some x \<Longrightarrow> x = C j"
    "1 \<le> j \<Longrightarrow> j \<le> rs_lastApplied s \<Longrightarrow> rs_logs s j = Some (C j)"
  using assms unfolding srv_follows_def by blast+

lemma logs_of_prefix: "logs_of_list (prefix_of C k) j = (if 0 \<le> j \<and> j \<le> k then Some (C j) else None)"
  by (auto simp: logs_of_list_def prefix_of_def)

lemma srv_follows_snapshot: "0 \<le> k \<Longrightarrow> rs_reader s = ApplierSnap \<Longrightarrow>
    srv_follows C (s\<lparr>rs_logs := logs_of_list (prefix_of C k), rs_lastApplied := k\<rparr>)"
  by (auto simp: srv_follows_def logs_of_prefix split: if_splits)

lemma srv_follows_extend:
  assumes "srv_follows C s" "k = rs_lastApplied s + 1" "v = C k"
  shows "srv_follows C (s\<lparr>rs_logs := (rs_logs s)(k \<mapsto> v), rs_lastApplied := k\<rparr>)"
  unfolding srv_follows_def
proof (intro conjI allI impI)
  fix j x assume "rs_logs (s\<lparr>rs_logs := (rs_logs s)(k \<mapsto> v), rs_lastApplied := k\<rparr>) j = Some x"
  then show "x = C j" using assms(3) srv_followsD(3)[OF assms(1), of j x] by (cases "j = k") simp_all
next
  fix j assume "1 \<le> j" "j \<le> rs_lastApplied (s\<lparr>rs_logs := (rs_logs s)(k \<mapsto> v), rs_lastApplied := k\<rparr>)"
  then show "rs_logs (s\<lparr>rs_logs := (rs_logs s)(k \<mapsto> v), rs_lastApplied := k\<rparr>) j = Some (C j)"
    using assms(2,3) srv_followsD(4)[OF assms(1), of j] by (cases "j = k") simp_all
qed (use srv_followsD(1,2)[OF assms(1)] assms(2) in simp_all)

lemma snapshot_of_follower:
  assumes "srv_follows C s" "C 0 = None" "k \<le> rs_lastApplied s"
  shows "snapshot_bytes env k (rs_logs s) = re_enc env k (prefix_of C k)"
proof -
  have "(case rs_logs s (int j) of None \<Rightarrow> None | Some v \<Rightarrow> v) = C (int j)" if "j < nat (k + 1)" for j
  proof (cases "rs_logs s (int j)")
    case None
    moreover have "j \<noteq> 0 \<Longrightarrow> rs_logs s (int j) = Some (C (int j))" using srv_followsD(4)[OF assms(1), of "int j"] assms(3) that by simp
    ultimately show ?thesis using assms(2) by (cases "j = 0") simp_all
  next
    case (Some x)
    then have "x = C (int j)" by (rule srv_followsD(3)[OF assms(1)])
    with Some show ?thesis by simp
  qed
  then have "map (\<lambda>j. case rs_logs s (int j) of None \<Rightarrow> None | Some v \<Rightarrow> v) [0..<nat (k + 1)] = prefix_of C k"
    unfolding prefix_of_def by (intro map_cong) auto
  then show ?thesis by (simp only: snapshot_bytes_def)
qed

text \<open>Comparing a value that everybody who holds one agrees with finds nothing.\<close>

lemma compare_loop_agree:
  assumes "\<forall>p\<in>set ps. \<exists>a s. p = Some a \<and> rt_heap st a = Some s \<and> (\<forall>w. rs_logs s k = Some w \<longrightarrow> w = v)"
  shows "fold_go (\<lambda>(j, p) err. go_bind (Logs k p st) (\<lambda>old. case old of
      None \<Rightarrow> Ret err | Some w \<Rightarrow> if w \<noteq> v then Ret (msg j w) else Ret err)) (enumerate n ps) err = Ret err"
  using assms
proof (induction ps arbitrary: n)
  case (Cons p ps)
  then obtain a s where s: "p = Some a" "rt_heap st a = Some s" "\<forall>w. rs_logs s k = Some w \<longrightarrow> w = v" by auto
  then show ?case using Cons by (cases "rs_logs s k") auto
qed simp

lemma checkLogs_agree:
  assumes "i < length (rt_srvs st)" "rt_srvs st ! i = Some a" "rt_heap st a = Some s"
    and "\<forall>p\<in>set (rt_srvs st). \<exists>a s. p = Some a \<and> rt_heap st a = Some s \<and> (\<forall>w. rs_logs s (CommandIndex m) = Some w \<longrightarrow> w = Command m)"
  shows "checkLogs env i m st = Ret (([], rs_logs s (CommandIndex m - 1) \<noteq> None),
    (upd_obj a (\<lambda>s. s\<lparr>rs_logs := (rs_logs s)(CommandIndex m \<mapsto> Command m)\<rparr>) st)
       \<lparr>rt_maxIndex := max (CommandIndex m) (rt_maxIndex st)\<rparr>)"
  using assms by (simp add: checkLogs_def compare_loop_agree Let_def max_def)

lemma follows_upd:
  assumes "follows C st" "rt_heap st a = Some s" "srv_follows C (f s)" "rs_me (f s) = rs_me s"
  shows "follows C (upd_obj a f st)"
  using assms by (auto simp: follows_def)

lemma follows_cong:
  assumes "rt_heap st' = rt_heap st" "rt_srvs st' = rt_srvs st" "rt_snapshot st' = rt_snapshot st" "follows C st"
  shows "follows C st'"
  using assms by (simp add: follows_def)

lemma follows_maxIndex [simp]: "follows C (st\<lparr>rt_maxIndex := x\<rparr>) = follows C st"
  by (simp add: follows_def)

lemma applierSnap_command:
  assumes ok: "follows C st" and s: "rt_heap st a = Some s" "rt_srvs st ! rs_me s = Some a" "rs_raft s = Some r"
    and m: "\<not> SnapshotValid m" "CommandValid m" "CommandIndex m = rs_lastApplied s + 1" "Command m = C (CommandIndex m)"
    and made: "None \<notin> set (rt_srvs st)"
  shows "\<exists>st'. applierSnap env a m st = Ret st' \<and> follows C st'"
proof -
  let ?k = "CommandIndex m"
  from ok s have sf: "srv_follows C s" and me: "rs_me s < length (rt_srvs st)" by (auto simp: follows_def)
  have agree: "\<exists>a s. p = Some a \<and> rt_heap st a = Some s \<and> (\<forall>w. rs_logs s ?k = Some w \<longrightarrow> w = Command m)" if "p \<in> set (rt_srvs st)" for p
  proof -
    from that made have "p \<noteq> None" by metis
    then obtain b where b: "p = Some b" by blast
    with ok that obtain t where "p = Some b" "rt_heap st b = Some t" unfolding follows_def by blast
    moreover from this ok have "srv_follows C t" by (simp add: follows_def)
    ultimately show ?thesis using m(4) srv_followsD(3)[of C t ?k] by auto
  qed
  let ?f = "\<lambda>s. s\<lparr>rs_logs := (rs_logs s)(?k \<mapsto> Command m)\<rparr>"
  let ?st1 = "(upd_obj a ?f st)\<lparr>rt_maxIndex := max ?k (rt_maxIndex st)\<rparr>"
  let ?st2 = "upd_obj a (\<lambda>s. s\<lparr>rs_lastApplied := ?k\<rparr>) ?st1"
  have ck: "checkLogs env (rs_me s) m st = Ret (([], rs_logs s (?k - 1) \<noteq> None), ?st1)"
    by (rule checkLogs_agree[OF me s(2,1)]) (use agree in blast)
  have prev: "?k > 1 \<longrightarrow> rs_logs s (?k - 1) \<noteq> None"
    using srv_followsD(4)[OF sf, of "rs_lastApplied s"] m(3) by simp
  have sf': "srv_follows C (s\<lparr>rs_logs := (rs_logs s)(?k \<mapsto> Command m), rs_lastApplied := ?k\<rparr>)"
    by (rule srv_follows_extend[OF sf m(3,4)])
  have "?st2 = (upd_obj a (\<lambda>s. s\<lparr>rs_logs := (rs_logs s)(?k \<mapsto> Command m), rs_lastApplied := ?k\<rparr>) st)\<lparr>rt_maxIndex := max ?k (rt_maxIndex st)\<rparr>"
    using s by (simp add: upd_obj_def)
  moreover have "follows C (upd_obj a (\<lambda>s. s\<lparr>rs_logs := (rs_logs s)(?k \<mapsto> Command m), rs_lastApplied := ?k\<rparr>) st)"
    by (rule follows_upd[OF ok s(1)]) (use sf' in simp_all)
  ultimately have f2: "follows C ?st2" by (simp only: follows_maxIndex)
  have h2: "rt_heap ?st2 a = Some (s\<lparr>rs_logs := (rs_logs s)(?k \<mapsto> Command m), rs_lastApplied := ?k\<rparr>)" using s by simp
  obtain rf pers where "re_Snapshot env r ?k (snapshot_bytes env ?k ((rs_logs s)(?k \<mapsto> Command m))) (rt_raft ?st2, rt_pers ?st2) = (rf, pers)"
    by fastforce
  then obtain st3 where st3: "make_snapshot env a ?k ?st2 = Ret st3" "rt_heap st3 = rt_heap ?st2" "rt_srvs st3 = rt_srvs ?st2" "rt_snapshot st3 = rt_snapshot ?st2"
    using make_snapshot_Ret[OF h2, of r env ?k rf pers] s(3) by auto
  have "follows C st3" by (rule follows_cong[OF st3(2-4) f2])
  moreover have "applierSnap env a m st = (if (?k + 1) mod SnapShotInterval = 0 then Ret st3 else Ret ?st2)"
    using s m(1-3) ck prev st3(1) by (auto simp: applierSnap_def Let_def)
  ultimately show ?thesis using f2 by auto
qed

lemma deliver_follows:
  assumes ok: "follows C st" and c: "raft_contract env C (Deliver a m) st"
    and codec: "\<And>k xs. re_dec env (re_enc env k xs) = Some (k, xs)"
  shows "\<exists>st'. deliver env a m st = Ret st' \<and> follows C st'"
proof -
  from c obtain s r where s: "rt_heap st a = Some s" "rt_srvs st ! rs_me s = Some a" "rs_raft s = Some r"
    and made: "None \<notin> set (rt_srvs st)" by (auto split: option.splits)
  then have sf: "srv_follows C s" using ok by (simp add: follows_def)
  have d: "deliver env a m st = applierSnap env a m st" using s srv_followsD(1)[OF sf] by (simp add: deliver_def)
  show ?thesis
  proof (cases "SnapshotValid m")
    case True
    let ?k = "SnapshotIndex m"
    from c s True have k: "0 \<le> ?k" "Snapshot m = Some (re_enc env ?k (prefix_of C ?k))" by auto
    have "ingestSnap env a (Snapshot m) ?k st =
        Ret ([], upd_obj a (\<lambda>s. s\<lparr>rs_logs := logs_of_list (prefix_of C ?k), rs_lastApplied := ?k\<rparr>) st)"
      unfolding k(2) by (rule ingestSnap_Ret[OF s(1) codec]) simp
    moreover have "follows C (upd_obj a (\<lambda>s. s\<lparr>rs_logs := logs_of_list (prefix_of C ?k), rs_lastApplied := ?k\<rparr>) st)"
      by (rule follows_upd[OF ok s(1)]) (use srv_follows_snapshot[OF k(1) srv_followsD(1)[OF sf]] in simp_all)
    ultimately show ?thesis using True by (simp add: d applierSnap_def)
  next
    case False
    show ?thesis
    proof (cases "CommandValid m")
      case True
      then show ?thesis using applierSnap_command[OF ok s False _ _ _ made] c s False by (simp add: d)
    next
      case inv: False
      with False ok show ?thesis by (simp add: d applierSnap_def)
    qed
  qed
qed

lemma mksrv_follows:
  assumes ok: "follows C st" and c: "raft_contract env C (MkSrv ends srv p) st" and "\<not> re_useSM env"
    and codec: "\<And>k xs. re_dec env (re_enc env k xs) = Some (k, xs)"
  shows "\<exists>r st'. mksrv env ends srv p st = Ret (r, st') \<and> follows C st'"
proof -
  obtain r rf pers where mk: "re_Make env ends srv p (rt_raft st, rt_pers st) = (r, rf, pers)" by (metis surj_pair)
  with c obtain ps where ps: "pers p = Some ps" and srv: "srv < length (rt_srvs st)"
    and sn: "bytes_of (ps_snapshot ps) = [] \<or> (\<exists>k\<ge>0. bytes_of (ps_snapshot ps) = re_enc env k (prefix_of C k))"
    by (auto simp: is_snapshot_def split: option.splits)
  obtain k xlog logs where k: "0 \<le> k" and
    alt: "bytes_of (ps_snapshot ps) = [] \<and> logs = Map.empty \<and> k = 0
      \<or> bytes_of (ps_snapshot ps) \<noteq> [] \<and> re_dec env (bytes_of (ps_snapshot ps)) = Some (k, xlog) \<and> logs = logs_of_list xlog"
    and l: "logs = Map.empty \<and> k = 0 \<or> logs = logs_of_list (prefix_of C k)"
    using sn codec by (cases "bytes_of (ps_snapshot ps) = []") auto
  let ?s = "(new_obj srv (Some p) (Some r))\<lparr>rs_logs := logs, rs_lastApplied := k, rs_reader := ApplierSnap\<rparr>"
  let ?st = "st\<lparr>rt_next := Suc (rt_next st), rt_raft := rf, rt_pers := pers, rt_heap := (rt_heap st)(rt_next st \<mapsto> ?s)\<rparr>"
  have new: "newRfsrv env srv ends p True st = Ret (rt_next st, ?st)"
    by (rule newRfsrv_snap[OF assms(3) mk ps alt])
  have "srv_follows C ?s" using k l by (auto simp: srv_follows_def logs_of_prefix split: if_splits)
  then have "follows C (?st\<lparr>rt_srvs := (rt_srvs st)[srv := Some (rt_next st)]\<rparr>)"
    using ok srv by (auto simp: follows_def new_obj_def dest!: set_update_subset_insert[THEN subsetD])
  then show ?thesis using new srv ok by (simp add: mksrv_def follows_def)
qed

lemma rfsrv_Kill_follows:
  assumes ok: "follows C st" and c: "raft_contract env C (KillSrv a) st"
  shows "\<exists>st'. rfsrv_Kill a st = Ret st' \<and> follows C st'"
proof -
  from c obtain s p ps where s: "rt_heap st a = Some s" "rs_persister s = Some p" "rt_pers st p = Some ps" by (auto split: option.splits)
  from ok s(1) have "srv_follows C s" by (simp add: follows_def)
  then have "srv_follows C (s\<lparr>rs_raft := None\<rparr>)" by (cases s) (auto simp only: srv_follows_def rfsrv.simps)
  then have f: "follows C (upd_obj a (\<lambda>s. s\<lparr>rs_raft := None\<rparr>) st)" by (intro follows_upd[OF ok s(1)]) simp_all
  show ?thesis unfolding rfsrv_Kill_Ret[OF s] by (rule exI, rule conjI, rule refl, rule follows_cong[OF _ _ _ f]) simp_all
qed

lemma contract_run_follows:
  assumes "contract_run env C es st" "follows C st" "\<not> re_useSM env"
    and codec: "\<And>k xs. re_dec env (re_enc env k xs) = Some (k, xs)"
  shows "\<exists>st'. fold_go (run_revent env) es st = Ret st' \<and> follows C st'"
  using assms(1,2)
proof (induction es arbitrary: st)
  case (Cons e es)
  have "\<exists>st'. run_revent env e st = Ret st' \<and> follows C st'"
    using Cons.prems mksrv_follows[OF Cons.prems(2) _ assms(3) codec] rfsrv_Kill_follows[OF Cons.prems(2)]
      deliver_follows[OF Cons.prems(2) _ codec] by (cases e) (auto simp: go_simps, blast+)
  then show ?case using Cons by auto
qed simp

text \<open>
  Property C6: the harness accepts every correct Raft. If the peers send the commands of one committed
  log in order, or snapshots of its prefixes, and servers come back on such snapshots, then in
  every order of events no check fails; each server ends with all committed commands up to the
  last one it applied, and the snapshot it would make there is the snapshot of that prefix.
\<close>

theorem correct_raft_passes_apply_checks:
  assumes "contract_run env C es (new_rtest n True pers rf an)" "C 0 = None" "\<not> re_useSM env"
    and "\<And>k xs. re_dec env (re_enc env k xs) = Some (k, xs)"
  shows "\<exists>st. fold_go (run_revent env) es (new_rtest n True pers rf an) = Ret st \<and>
    (\<forall>i a s. i < length (rt_srvs st) \<longrightarrow> rt_srvs st ! i = Some a \<longrightarrow> rt_heap st a = Some s \<longrightarrow>
       (\<forall>j. 1 \<le> j \<longrightarrow> j \<le> rs_lastApplied s \<longrightarrow> server_log st i j = Some (C j)) \<and>
       snapshot_bytes env (rs_lastApplied s) (rs_logs s) = re_enc env (rs_lastApplied s) (prefix_of C (rs_lastApplied s)))"
proof -
  have "follows C (new_rtest n True pers rf an)" by (simp add: follows_def new_rtest_def)
  from contract_run_follows[OF assms(1) this assms(3,4)] obtain st
    where st: "fold_go (run_revent env) es (new_rtest n True pers rf an) = Ret st" "follows C st" by blast
  have "(\<forall>j. 1 \<le> j \<longrightarrow> j \<le> rs_lastApplied s \<longrightarrow> server_log st i j = Some (C j)) \<and>
       snapshot_bytes env (rs_lastApplied s) (rs_logs s) = re_enc env (rs_lastApplied s) (prefix_of C (rs_lastApplied s))"
    if "i < length (rt_srvs st)" "rt_srvs st ! i = Some a" "rt_heap st a = Some s" for i a s
  proof -
    from that(3) st(2) have sf: "srv_follows C s" by (simp add: follows_def)
    show ?thesis using that srv_followsD(4)[OF sf] snapshot_of_follower[OF sf assms(2) order_refl]
      by (simp add: server_log_def)
  qed
  with st(1) show ?thesis by blast
qed

subsection \<open>Agreement on a command\<close>

text \<open>How many servers hold the command at the index.\<close>

definition committed_by :: "('c, 'r) rtest \<Rightarrow> int \<Rightarrow> 'c anyv \<Rightarrow> nat" where
  "committed_by st index cmd = length (filter (\<lambda>p. plog st p index = Some cmd) (rt_srvs st))"

lemma nCommitted_loop:
  assumes "fold_go (\<lambda>p (count, cmd). go_bind (obj st p) (\<lambda>rs.
     if rs_applyErr rs \<noteq> [] then fail_check env d (rs_applyErr rs) (rs_applyErr rs) st
     else go_bind (Logs index p st) (\<lambda>l. case l of
       None \<Rightarrow> Ret (count, cmd)
     | Some cmd1 \<Rightarrow> if count > 0 \<and> cmd \<noteq> cmd1 then (let text = txt cmd cmd1 in fail_check env d' text text st)
         else Ret (count + 1, cmd1)))) ps (c, v) = Ret (n, cmd)"
  shows "n = c + length (filter (\<lambda>p. plog st p index \<noteq> None) ps) \<and>
    (\<forall>p\<in>set ps. plog st p index \<noteq> None \<longrightarrow> plog st p index = Some cmd) \<and> (c > 0 \<longrightarrow> cmd = v)"
  using assms
proof (induction ps arbitrary: c v)
  case (Cons p ps)
  from Cons.prems obtain a s where s: "p = Some a" "rt_heap st a = Some s" "rs_applyErr s = []"
    by (auto simp: go_simps split: if_splits)
  show ?case
  proof (cases "rs_logs s index")
    case None
    with Cons.IH[of c v] Cons.prems s show ?thesis by simp
  next
    case (Some w)
    with Cons.prems s have "\<not> (c > 0 \<and> v \<noteq> w)" by (auto simp: Let_def go_simps split: if_splits)
    with Cons.IH[of "c + 1" w] Cons.prems s Some show ?thesis by (auto simp: Let_def)
  qed
qed simp

lemma nCommitted_Ret:
  assumes "nCommitted env index st = Ret (n, cmd)"
  shows "n = committed_by st index cmd"
    and "p \<in> set (rt_srvs st) \<Longrightarrow> plog st p index = Some x \<Longrightarrow> x = cmd"
proof -
  have *: "n = length (filter (\<lambda>p. plog st p index \<noteq> None) (rt_srvs st)) \<and>
    (\<forall>p\<in>set (rt_srvs st). plog st p index \<noteq> None \<longrightarrow> plog st p index = Some cmd)"
    using nCommitted_loop[OF assms[unfolded nCommitted_def]] by simp
  then have "filter (\<lambda>p. plog st p index \<noteq> None) (rt_srvs st) = filter (\<lambda>p. plog st p index = Some cmd) (rt_srvs st)"
    by (intro filter_cong) auto
  with * show "n = committed_by st index cmd" by (simp add: committed_by_def)
  show "p \<in> set (rt_srvs st) \<Longrightarrow> plog st p index = Some x \<Longrightarrow> x = cmd" using * by force
qed

text \<open>Nothing but the loops on the clock can fail to return.\<close>

lemma checker_returns [go_returns]: "returns (AnnotateCheckerEnd t d e c an)" "returns (AnnotateCheckerBegin t d an)"
    "returns (AnnotateCheckerFailure t d e an)" "returns (AnnotateCheckerSuccess t d e an)"
  by (auto simp: AnnotateCheckerEnd_def AnnotateCheckerBegin_def AnnotateCheckerFailure_def AnnotateCheckerSuccess_def
      with_finfo_def Let_def split: option.splits)

lemma rt_annotate_returns [go_returns]: "(\<And>t a. returns (f t a)) \<Longrightarrow> returns (rt_annotate env f st)"
  unfolding rt_annotate_def by (rule returns_bind) simp_all

lemma fail_check_returns [go_returns]: "returns (fail_check env d e m st)"
  unfolding fail_check_def by (intro go_returns) simp

lemma obj_returns [go_returns]: "returns (obj st p)"
  unfolding obj_def by (intro go_returns) simp_all

lemma Logs_returns [go_returns]: "returns (Logs k p st)"
  unfolding Logs_def by (intro go_returns) simp

lemma rfsrv_Raft_returns [go_returns]: "returns (rfsrv_Raft p st)"
  unfolding rfsrv_Raft_def by (intro go_returns) simp

lemma nCommitted_returns [go_returns]: "returns (nCommitted env index st)"
  unfolding nCommitted_def Let_def by (intro go_returns) simp_all

text \<open>
  The clock moves forward at every reading, and the readings are counted: no goroutine turns the
  count back.
\<close>

definition clock_ok :: "('c, 'r) renv \<Rightarrow> bool" where
  "clock_ok env \<longleftrightarrow> (\<forall>k. re_clk env k < re_clk env (Suc k)) \<and> (\<forall>k st. rt_reads st \<le> rt_reads (re_others env k st))"

lemma pause_reads: "clock_ok env \<Longrightarrow> rt_reads st \<le> rt_reads (pause env st)"
  by (simp add: clock_ok_def pause_def)

lemma clk_mono: "clock_ok env \<Longrightarrow> j \<le> k \<Longrightarrow> re_clk env j \<le> re_clk env k"
  by (rule lift_Suc_mono_le) (auto simp: clock_ok_def less_imp_le)

lemma now_less:
  assumes "clock_ok env" "Suc (rt_reads st) \<le> rt_reads st'"
  shows "now env st < now env st'"
proof -
  have "re_clk env (rt_reads st) < re_clk env (Suc (rt_reads st))" using assms(1) by (simp add: clock_ok_def)
  with clk_mono[OF assms] show ?thesis by (simp add: now_def)
qed

lemma tick_simps [simp]: "rt_reads (tick st) = Suc (rt_reads st)" "rt_srvs (tick st) = rt_srvs st"
  by (simp_all add: tick_def)

text \<open>At least \<open>k\<close> servers, and at least one, hold the command at the index, and no server another one.\<close>

definition agreed_on :: "('c, 'r) rtest \<Rightarrow> int \<Rightarrow> 'c anyv \<Rightarrow> nat \<Rightarrow> bool" where
  "agreed_on st index cmd k \<longleftrightarrow> max 1 k \<le> committed_by st index cmd \<and>
     (\<forall>p\<in>set (rt_srvs st). plog st p index = None \<or> plog st p index = Some cmd)"

lemma agreed_tick [simp]: "agreed_on (tick st) = agreed_on st" "committed_by (tick st) = committed_by st"
    "agreed_on (st\<lparr>rt_ann := a\<rparr>) = agreed_on st"
  by (simp_all add: agreed_on_def committed_by_def fun_eq_iff)

lemma rt_annotate_RetD:
  assumes "rt_annotate env f st = Ret st'"
  shows "agreed_on st' = agreed_on st" "rt_reads st \<le> rt_reads st'"
proof -
  from assms obtain a where "st' = tick (st\<lparr>rt_ann := a\<rparr>)" by (auto simp: rt_annotate_def go_simps)
  then show "agreed_on st' = agreed_on st" "rt_reads st \<le> rt_reads st'" by simp_all
qed

lemma agree_loop_spec:
  assumes ok: "clock_ok env"
  shows "\<exists>r. agree_loop env t1 index cmd expected st = Some r \<and> returns r \<and>
    (\<forall>b st'. r = Ret (b, st') \<longrightarrow> rt_reads st \<le> rt_reads st' \<and> (b \<longrightarrow> agreed_on st' index cmd expected))"
proof (induction "nat (t1 + 2000000000 - now env st)" arbitrary: st rule: less_induct)
  case less
  show ?case
  proof (cases "elapsed env t1 st < 2000000000")
    case False
    then show ?thesis by (subst agree_loop.simps) simp
  next
    case True
    show ?thesis
    proof (cases "nCommitted env index (tick st)")
      case (Ret r)
      obtain n v where nv: "r = (n, v)" by fastforce
      have n: "n = committed_by st index v" "p \<in> set (rt_srvs st) \<Longrightarrow> plog st p index = None \<or> plog st p index = Some v" for p
        using nCommitted_Ret[OF Ret[unfolded nv]] by (simp, cases "plog st p index") simp_all
      show ?thesis
      proof (cases "n > 0 \<and> n \<ge> expected \<and> v = cmd")
        case True': True
        with n have "agreed_on st index cmd expected" by (auto simp: agreed_on_def)
        with True True' Ret nv show ?thesis by (subst agree_loop.simps) simp
      next
        case False
        let ?st = "pause env (tick st)"
        have reads: "Suc (rt_reads st) \<le> rt_reads ?st" using pause_reads[OF ok, of "tick st"] by simp
        have "nat (t1 + 2000000000 - now env ?st) < nat (t1 + 2000000000 - now env st)"
          using now_less[OF ok reads] True by (simp add: elapsed_def)
        from less.hyps[OF this] obtain r' where r': "agree_loop env t1 index cmd expected ?st = Some r'" "returns r'"
          "\<forall>b st'. r' = Ret (b, st') \<longrightarrow> rt_reads ?st \<le> rt_reads st' \<and> (b \<longrightarrow> agreed_on st' index cmd expected)" by blast
        have "agree_loop env t1 index cmd expected st = Some r'"
          using True Ret nv False r'(1) by (subst agree_loop.simps) auto
        with r' reads show ?thesis by fastforce
      qed
    qed (use True nCommitted_returns[of env index "tick st"] in \<open>subst agree_loop.simps, simp\<close>)+
  qed
qed

lemma try_starts_spec:
  assumes ok: "clock_ok env"
  shows "returns (try_starts env cmd k starts st) \<and>
    (\<forall>r st'. try_starts env cmd k starts st = Ret (r, st') \<longrightarrow> rt_reads st \<le> rt_reads st')"
proof (induction k arbitrary: starts st)
  case (Suc k)
  let ?st = "pause env st" and ?s = "(starts + 1) mod length (rt_srvs (pause env st))"
  have "returns (try_starts env cmd (Suc k) starts st)"
    unfolding try_starts.simps Let_def is_connected_def
    by (intro go_returns) (use Suc in auto)
  moreover have "rt_reads st \<le> rt_reads st'" if "try_starts env cmd (Suc k) starts st = Ret (r, st')" for r st'
  proof -
    from that[unfolded try_starts.simps Let_def go_bind_Ret_iff] obtain rf where rf: "(case rf of None \<Rightarrow> try_starts env cmd k ?s ?st
        | Some r' \<Rightarrow> (case re_Start env r' cmd (rt_raft ?st) of ((index1, _, ok), w) \<Rightarrow>
            if ok then Ret ((index1, ?s), ?st\<lparr>rt_raft := w\<rparr>) else try_starts env cmd k ?s (?st\<lparr>rt_raft := w\<rparr>))) = Ret (r, st')"
      by blast
    have "rt_reads ?st \<le> rt_reads st'"
    proof (cases rf)
      case None
      with rf Suc[of ?s ?st] show ?thesis by simp
    next
      case (Some r')
      obtain i t b w where "re_Start env r' cmd (rt_raft ?st) = ((i, t, b), w)" by (metis prod.collapse)
      with rf Some Suc[of ?s "?st\<lparr>rt_raft := w\<rparr>"] show ?thesis by (cases b) auto
    qed
    then show ?thesis using pause_reads[OF ok, of st] by simp
  qed
  ultimately show ?case by blast
qed simp

lemma one_round_spec:
  assumes ok: "clock_ok env"
  shows "returns (one_round env cmd expected retry starts st)"
    and "one_round env cmd expected retry starts st = Ret (r, st') \<Longrightarrow>
      rt_reads st \<le> rt_reads st' \<and> (\<forall>index. r = Agreed index \<longrightarrow> index \<noteq> -1 \<and> agreed_on st' index cmd expected)"
proof -
  define al where "al t1 index st = the (agree_loop env t1 index cmd expected st)" for t1 index st
  have al: "\<And>t1 index st. agree_loop env t1 index cmd expected st = Some (al t1 index st)"
      "\<And>t1 index st. returns (al t1 index st)"
      "\<And>t1 index st b st'. al t1 index st = Ret (b, st') \<Longrightarrow> rt_reads st \<le> rt_reads st' \<and> (b \<longrightarrow> agreed_on st' index cmd expected)"
    unfolding al_def using agree_loop_spec[OF ok, of _ _ cmd expected] by (metis option.sel)+
  show "returns (one_round env cmd expected retry starts st)"
    unfolding one_round_def one_failed_def al(1) option.case
    by (intro go_returns al(2) conjunct1[OF try_starts_spec[OF ok]]) simp_all
  assume r: "one_round env cmd expected retry starts st = Ret (r, st')"
  then obtain index starts' st1 where t: "try_starts env cmd (length (rt_srvs st)) starts st = Ret ((index, starts'), st1)"
    by (auto simp: one_round_def go_bind_Ret_iff)
  with try_starts_spec[OF ok] have s1: "rt_reads st \<le> rt_reads st1" by blast
  show "rt_reads st \<le> rt_reads st' \<and> (\<forall>index. r = Agreed index \<longrightarrow> index \<noteq> -1 \<and> agreed_on st' index cmd expected)"
  proof (cases "index = -1")
    case True
    with r t pause_reads[OF ok, of st1] s1 show ?thesis by (auto simp: one_round_def)
  next
    case False
    from r have r': "go_bind (al (now env st1) index (tick st1)) (\<lambda>(agreed, st2).
        if agreed then go_bind (rt_annotate env (\<lambda>t. AnnotateCheckerSuccess t (''agreement of '' @ text8 env cmd @ '' reached'') ''OK'') st2)
               (\<lambda>st3. Ret (Agreed index, st3))
           else if \<not> retry then one_failed env cmd ''failed after submitting command'' st2
           else Ret (Again starts', st2)) = Ret (r, st')"
      by (simp add: one_round_def t False al(1))
    then obtain b st2 where b: "al (now env st1) index (tick st1) = Ret (b, st2)" by (auto simp: go_bind_Ret_iff)
    from al(3)[OF b] s1 have s2: "rt_reads st \<le> rt_reads st2" "b \<longrightarrow> agreed_on st2 index cmd expected" by simp_all
    show ?thesis
    proof (cases b)
      case True
      with r' b have "r = Agreed index" "rt_annotate env (\<lambda>t. AnnotateCheckerSuccess t (''agreement of '' @ text8 env cmd @ '' reached'') ''OK'') st2 = Ret st'"
        by (auto simp: go_bind_Ret_iff)
      with rt_annotate_RetD[OF this(2)] s2 True False show ?thesis by simp
    next
      case False': False
      with r' b s2 show ?thesis by (auto simp: one_failed_def split: if_splits)
    qed
  qed
qed

lemma one_loop_spec:
  assumes ok: "clock_ok env"
  shows "\<exists>r. one_loop env t0 cmd expected retry starts st = Some r \<and> returns r \<and>
    (\<forall>index st'. r = Ret (index, st') \<longrightarrow> index = -1 \<and> checkFinished st' \<or> index \<noteq> -1 \<and> agreed_on st' index cmd expected)"
proof (induction "nat (t0 + 10000000000 - now env st)" arbitrary: st starts rule: less_induct)
  case less
  show ?case
  proof (cases "elapsed env t0 st < 10000000000 \<and> \<not> checkFinished (tick st)")
    case False
    then show ?thesis by (subst one_loop.simps) (auto simp: one_failed_def intro: go_returns)
  next
    case True
    show ?thesis
    proof (cases "one_round env cmd expected retry starts (tick st)")
      case (Ret r)
      obtain q st1 where q: "r = (q, st1)" by fastforce
      from one_round_spec(2)[OF ok Ret[unfolded q]] have sp: "Suc (rt_reads st) \<le> rt_reads st1"
        "\<forall>index. q = Agreed index \<longrightarrow> index \<noteq> -1 \<and> agreed_on st1 index cmd expected" by simp_all
      show ?thesis
      proof (cases q)
        case (Agreed index)
        with True Ret q sp show ?thesis by (subst one_loop.simps) simp
      next
        case (Again starts')
        have "nat (t0 + 10000000000 - now env st1) < nat (t0 + 10000000000 - now env st)"
          using now_less[OF ok sp(1)] True by (simp add: elapsed_def)
        from less.hyps[OF this, of starts'] True Ret q Again show ?thesis by (subst one_loop.simps) simp
      qed
    qed (use True one_round_spec(1)[OF ok, of cmd expected retry starts "tick st"] in \<open>subst one_loop.simps, simp\<close>)+
  qed
qed

text \<open>
  Property C21: \<^verbatim>\<open>one\<close> always comes back once the clock has advanced far enough, whatever the peers and the
  other goroutines do. If it returns an index, then at that moment at least as many servers as
  asked for, and at least one, hold the submitted command at that index, and no server holds
  another one; it returns -1 only when the test has been marked finished.
\<close>

theorem one_returns_agreed_index:
  assumes "clock_ok env"
  shows "returns (one env cmd expected retry st) \<and>
    (one env cmd expected retry st = Ret (index, st') \<longrightarrow>
       index = -1 \<and> checkFinished st' \<or> index \<noteq> -1 \<and> agreed_on st' index cmd expected)"
proof -
  define ol where "ol t0 st = the (one_loop env t0 cmd expected retry 0 st)" for t0 st
  have ol: "one_loop env t0 cmd expected retry 0 st = Some (ol t0 st)" "returns (ol t0 st)"
      "ol t0 st = Ret (index, st') \<Longrightarrow> index = -1 \<and> checkFinished st' \<or> index \<noteq> -1 \<and> agreed_on st' index cmd expected" for t0 st index st'
    unfolding ol_def using one_loop_spec[OF assms, of t0 cmd expected retry 0 st] by (metis option.sel)+
  have "returns (one env cmd expected retry st)"
    unfolding one_def ol(1) option.case by (intro go_returns ol(2))
  moreover have "index = -1 \<and> checkFinished st' \<or> index \<noteq> -1 \<and> agreed_on st' index cmd expected"
    if o: "one env cmd expected retry st = Ret (index, st')"
  proof -
    from o obtain u where "ol (now env u) (tick u) = Ret (index, st')" by (auto simp: one_def go_bind_Ret_iff ol(1))
    then show ?thesis by (rule ol(3))
  qed
  ultimately show ?thesis by blast
qed

subsection \<open>Examples\<close>

text \<open>
  A codec for the examples: commands are bytes, an integer is written in unary with a sign, and an
  entry with a byte that tells nil from a value.
\<close>

definition enc_entry :: "byte anyv \<Rightarrow> byte list" where
  "enc_entry v = (case v of None \<Rightarrow> [0] | Some b \<Rightarrow> [1, b])"

definition ex_enc :: "int \<Rightarrow> byte anyv list \<Rightarrow> byte list" where
  "ex_enc k xs = replicate (nat \<bar>k\<bar>) 1 @ (if k < 0 then 2 else 0) # concat (map enc_entry xs)"

fun dec_entries :: "byte list \<Rightarrow> byte anyv list option" where
  "dec_entries [] = Some []"
| "dec_entries [b] = (if b = 0 then Some [None] else None)"
| "dec_entries (b # c # bs) = (if b = 0 then map_option (Cons None) (dec_entries (c # bs)) else map_option (Cons (Some c)) (dec_entries bs))"

fun dec_unary :: "int \<Rightarrow> byte list \<Rightarrow> (int \<times> byte anyv list) option" where
  "dec_unary k [] = None"
| "dec_unary k (b # bs) = (if b = 1 then dec_unary (k + 1) bs else map_option (Pair (if b = 2 then - k else k)) (dec_entries bs))"

lemma dec_entries_nil: "dec_entries (0 # bs) = map_option (Cons None) (dec_entries bs)"
  by (cases bs) auto

lemma dec_entries_enc: "dec_entries (concat (map enc_entry xs)) = Some xs"
proof (induction xs)
  case (Cons x xs)
  show ?case
  proof (cases x)
    case None
    then have "enc_entry x = [0]" by (simp add: enc_entry_def)
    with Cons None show ?thesis by (simp add: dec_entries_nil)
  next
    case (Some b)
    with Cons show ?thesis by (simp add: enc_entry_def)
  qed
qed simp

lemma dec_unary_replicate: "dec_unary k (replicate n 1 @ bs) = dec_unary (k + int n) bs"
  by (induction n arbitrary: k) (auto simp: algebra_simps)

lemma ex_codec: "dec_unary 0 (ex_enc k xs) = Some (k, xs)" "ex_enc k xs \<noteq> []"
  by (auto simp: ex_enc_def dec_unary_replicate dec_entries_enc)

text \<open>
  A peer that accepts nothing, made by \<^const>\<open>Make\<close>, with a \<^verbatim>\<open>Snapshot\<close> that saves what it is given to the
  persister at address 0; nothing else happens while the harness pauses.
\<close>

definition ex_renv :: "(byte, Raft list) renv" where
  "ex_renv = \<lparr>re_Make = (\<lambda>ends srv p (rfs, pers). (length rfs, (case Make ends srv p pers of Ret rf \<Rightarrow> rfs @ [rf] | _ \<Rightarrow> rfs), pers)),
     re_GetState = (\<lambda>r rfs. Raft_GetState (rfs ! r)), re_Start = (\<lambda>r c rfs. (Raft_Start c (rfs ! r), rfs)),
     re_Snapshot = (\<lambda>r idx b (rfs, pers). (rfs, pers(0 \<mapsto> Save None (Some b) MakePersister))),
     re_useSM = False, re_enc = ex_enc, re_dec = dec_unary 0, re_show = (\<lambda>v. []), re_clk = int, re_vis = [], re_opened = False,
     re_order = (\<lambda>m. m), re_others = (\<lambda>k st. st)\<rparr>"

definition ex_rtest :: "bool \<Rightarrow> (byte, Raft list) rtest" where
  "ex_rtest snapshot = new_rtest 2 snapshot (\<lambda>a. Some MakePersister) [] (mkAnnotation, Some (mkFrameworkInfo 2))"

definition cmd_msg :: "int \<Rightarrow> 'c \<Rightarrow> 'c ApplyMsg" where
  "cmd_msg k v = \<lparr>CommandValid = True, Command = Some v, CommandIndex = k, SnapshotValid = False, Snapshot = None, SnapshotTerm = 0, SnapshotIndex = 0\<rparr>"

definition ex_C :: "int \<Rightarrow> byte anyv" where
  "ex_C k = (if 1 \<le> k then Some (of_int k) else None)"

definition snap_msg :: "int \<Rightarrow> byte list \<Rightarrow> 'c ApplyMsg" where
  "snap_msg k b = \<lparr>CommandValid = False, Command = None, CommandIndex = 0, SnapshotValid = True, Snapshot = Some b, SnapshotTerm = 0, SnapshotIndex = k\<rparr>"

definition ex_revents :: "byte revent list" where
  "ex_revents = [MkSrv [] 0 0, MkSrv [] 1 1] @ map (\<lambda>k. Deliver 0 (cmd_msg (int k) (of_nat k))) [1..<10] @
     [Deliver 1 (cmd_msg 1 1), KillSrv 0, MkSrv [] 0 0]"

text \<open>
  With snapshots: server 0 comes back on a snapshot of the first eight commands, applies the ninth,
  which makes it snapshot, is killed and comes back on that snapshot; server 1 receives a snapshot.
\<close>

definition ex_snap_pers :: "nat \<rightharpoonup> persister" where
  "ex_snap_pers a = Some (if a = 0 then Save None (Some (ex_enc 8 (prefix_of ex_C 8))) MakePersister else MakePersister)"

definition ex_snap_revents :: "byte revent list" where
  "ex_snap_revents = [MkSrv [] 0 0, MkSrv [] 1 1, Deliver 1 (cmd_msg 1 1), Deliver 0 (cmd_msg 9 9), KillSrv 0, MkSrv [] 0 0,
     Deliver 1 (snap_msg 2 (ex_enc 2 (prefix_of ex_C 2)))]"

theorem applied_logs_agree_witness:
  "\<exists>st. fold_go (run_revent ex_renv) (take 12 ex_revents) (new_rtest 2 False (\<lambda>a. Some MakePersister) [] (mkAnnotation, Some (mkFrameworkInfo 2))) = Ret st \<and>
     server_log st 0 9 = Some (Some 9) \<and> server_log st 0 3 \<noteq> None \<and> server_log st 1 1 = Some (Some 1) \<and> server_log st 0 1 = server_log st 1 1"
proof -
  have run: "case fold_go (run_revent ex_renv) (take 12 ex_revents) (ex_rtest False) of
    Ret st \<Rightarrow> server_log st 0 9 = Some (Some 9) \<and> server_log st 1 1 = Some (Some 1) | _ \<Rightarrow> False" by code_simp
  then obtain st where st: "fold_go (run_revent ex_renv) (take 12 ex_revents) (ex_rtest False) = Ret st"
    "server_log st 0 9 = Some (Some 9)" "server_log st 1 1 = Some (Some 1)" by (auto split: go.splits)
  note agree = applied_logs_agree[OF st(1)[unfolded ex_rtest_def]]
  from agree[of 0 9 "Some 9" 1 undefined 1] st obtain y where y: "server_log st 0 1 = Some y" by auto
  with agree[of 0 1 y 1 "Some 1"] agree[of 0 9 "Some 9" 1 undefined 3] st show ?thesis by (auto simp: ex_rtest_def)
qed

theorem correct_raft_passes_apply_checks_witness:
  "contract_run ex_renv ex_C ex_snap_revents (new_rtest 2 True ex_snap_pers [] (mkAnnotation, Some (mkFrameworkInfo 2))) \<and>
   (\<exists>st. fold_go (run_revent ex_renv) ex_snap_revents (new_rtest 2 True ex_snap_pers [] (mkAnnotation, Some (mkFrameworkInfo 2))) = Ret st)"
proof -
  have c: "contract_run ex_renv ex_C ex_snap_revents (new_rtest 2 True ex_snap_pers [] (mkAnnotation, Some (mkFrameworkInfo 2)))"
    by code_simp
  have e: "ex_C 0 = None" "\<not> re_useSM ex_renv" by (simp_all add: ex_renv_def ex_C_def)
  have d: "re_dec ex_renv (re_enc ex_renv k xs) = Some (k, xs)" for k xs by (simp add: ex_renv_def ex_codec)
  from correct_raft_passes_apply_checks[OF c e d] c show ?thesis by blast
qed

text \<open>Two servers that hold the command at index 1, and peers that claim to have put it there.\<close>

definition ex_one_env :: "(byte, Raft list) renv" where
  "ex_one_env = ex_renv\<lparr>re_Start := (\<lambda>r c rfs. ((1, 1, True), rfs))\<rparr>"

definition ex_one_st :: "(byte, Raft list) rtest" where
  "ex_one_st = (ex_rtest False)\<lparr>rt_srvs := [Some 0, Some 1], rt_next := 2,
     rt_heap := [0 \<mapsto> (new_obj 0 (Some 0) (Some 0))\<lparr>rs_logs := [1 \<mapsto> Some 7]\<rparr>, 1 \<mapsto> (new_obj 1 (Some 1) (Some 1))\<lparr>rs_logs := [1 \<mapsto> Some 7]\<rparr>]\<rparr>"

declare agree_loop.simps [code] one_loop.simps [code]

theorem one_returns_agreed_index_witness:
  "clock_ok ex_one_env \<and> returns (one ex_one_env (Some 7) 2 False ex_one_st) \<and>
   (\<exists>st'. one ex_one_env (Some 7) 2 False ex_one_st = Ret (1, st') \<and> agreed_on st' 1 (Some 7) 2)"
proof -
  have ok: "clock_ok ex_one_env" by (simp add: clock_ok_def ex_one_env_def ex_renv_def)
  have "case one ex_one_env (Some 7) 2 False ex_one_st of Ret (i, st') \<Rightarrow> i = 1 | _ \<Rightarrow> False" by code_simp
  then obtain st' where st': "one ex_one_env (Some 7) 2 False ex_one_st = Ret (1, st')" by (auto split: go.splits)
  with one_returns_agreed_index[OF ok, of "Some 7" 2 False ex_one_st 1 st'] ok show ?thesis by auto
qed

text \<open>
  The reader of a killed instance checks its messages against the log of the instance that replaced
  it: a command that is in order for the old instance, and that every server agrees with, ends the
  process.
\<close>

lemma stale_reader_is_fatal:
  "case fold_go (run_revent ex_renv) [MkSrv [] 0 0, MkSrv [] 1 1, Deliver 0 (cmd_msg 1 7), KillSrv 0, MkSrv [] 0 0, Deliver 0 (cmd_msg 2 9)]
     (ex_rtest False) of Fatal m \<Rightarrow> m = ''apply error: %v'' | _ \<Rightarrow> False"
  by code_simp

end
