(* ===== verification/Rsm_Harness.thy ===== *)
theory Rsm_Harness
  imports Tester_Config Kv_Model
begin

text \<open>
  The test server and the tests of the replicated state machine (\<^verbatim>\<open>kvraft1/rsm/server.go\<close>,
  \<^verbatim>\<open>kvraft1/rsm/test.go\<close>) and the skeleton of the state machine package (\<^verbatim>\<open>kvraft1/rsm/rsm.go\<close>). What
  makes replication work is a contract of \<^verbatim>\<open>StateMachine\<close>, an interface of the package: it is stated
  as a locale and the counter of the test server is shown to meet it.
\<close>

subsection \<open>The state machine package\<close>

text \<open>\<open>'f\<close> is what \<^verbatim>\<open>raft.Make\<close> returns.\<close>

record 'f RSM =
  rsm_me :: nat
  rsm_maxraftstate :: int
  rsm_rf :: "'f option"

definition MakeRSM :: "bool \<Rightarrow> 'f \<Rightarrow> nat \<Rightarrow> int \<Rightarrow> 'f RSM" where
  "MakeRSM useRaftStateMachine raft me maxraftstate =
     \<lparr>rsm_me = me, rsm_maxraftstate = maxraftstate, rsm_rf = (if \<not> useRaftStateMachine then Some raft else None)\<rparr>"

definition RSM_Raft :: "'f RSM \<Rightarrow> 'f option" where
  "RSM_Raft rsm = rsm_rf rsm"

definition Submit :: "'req \<Rightarrow> 'f RSM \<Rightarrow> string \<times> 'rep option" where
  "Submit req rsm = (ErrWrongLeader, None)"

subsection \<open>The counting server\<close>

text \<open>The requests and replies of the tests; \<open>ReqOther\<close> stands for a request of any other type.\<close>

datatype rsm_req = Inc | Null | Dec | ReqOther

datatype rsm_rep = IncRep int | NullRep

record 'f rsmSrv =
  rm_me :: nat
  rm_rsm :: "'f RSM option"
  rm_counter :: int

definition makeRsmSrv :: "bool \<Rightarrow> 'f \<Rightarrow> nat \<Rightarrow> int \<Rightarrow> 'f rsmSrv" where
  "makeRsmSrv useSM raft srv maxraftstate = \<lparr>rm_me = srv, rm_rsm = Some (MakeRSM useSM raft srv maxraftstate), rm_counter = 0\<rparr>"

definition DoOp :: "rsm_req \<Rightarrow> 'f rsmSrv \<Rightarrow> (rsm_rep \<times> 'f rsmSrv) go" where
  "DoOp req rs = (case req of
     Inc \<Rightarrow> (let rs' = rs\<lparr>rm_counter := rm_counter rs + 1\<rparr> in Ret (IncRep (rm_counter rs'), rs'))
   | Null \<Rightarrow> Ret (NullRep, rs)
   | _ \<Rightarrow> Fatal ''DoOp should execute only Inc and not %T'')"

text \<open>
  \<open>enc\<close> and \<open>dec\<close>: the encoding of an integer by \<^verbatim>\<open>labgob\<close>, and decoding into a variable that holds a value already. The warning
  that \<^verbatim>\<open>Decode\<close> prints when this value is not 0 (\<^verbatim>\<open>checkDefault\<close>, see \<^verbatim>\<open>Lab_Gob\<close>) changes nothing here. The counter is unbounded.
\<close>

definition rsm_Snapshot :: "(int \<Rightarrow> byte list) \<Rightarrow> 'f rsmSrv \<Rightarrow> byte list" where
  "rsm_Snapshot enc rs = enc (rm_counter rs)"

definition Restore :: "(byte list \<Rightarrow> int \<Rightarrow> int option) \<Rightarrow> byte list \<Rightarrow> 'f rsmSrv \<Rightarrow> 'f rsmSrv go" where
  "Restore dec data rs = (case dec data (rm_counter rs) of
     None \<Rightarrow> Fatal ''%v couldn't decode counter'' | Some c \<Rightarrow> Ret (rs\<lparr>rm_counter := c\<rparr>))"

definition rsmSrv_Kill :: "'f rsmSrv \<Rightarrow> 'f rsmSrv" where
  "rsmSrv_Kill rs = rs\<lparr>rm_rsm := None\<rparr>"

definition rsmSrv_Raft :: "'f rsmSrv \<Rightarrow> 'f option go" where
  "rsmSrv_Raft rs = (case rm_rsm rs of None \<Rightarrow> Panic ''nil pointer dereference'' | Some rsm \<Rightarrow> Ret (RSM_Raft rsm))"

subsection \<open>The tests\<close>

definition NSRV :: nat where
  "NSRV = 3"

definition NSEC :: int where
  "NSEC = 10"

text \<open>
  A test: its servers (nil before they are made), the connections of its group, the remembered
  leader, what the replicas do, the annotations and the clock.
\<close>

record ('f, 'w) rsm_test =
  mt_srvs :: "'f rsmSrv option list"
  mt_connected :: "bool list"
  mt_leader :: nat
  mt_w :: 'w
  mt_ann :: ann
  mt_reads :: nat
  mt_pauses :: nat

text \<open>
  \<open>me_Submit\<close>: what \<^verbatim>\<open>Submit\<close> on the server of an index returns and does. \<open>me_others\<close>: what the other
  goroutines do during a pause.
\<close>

record ('f, 'w) rsm_env =
  me_Submit :: "nat \<Rightarrow> rsm_req \<Rightarrow> 'w \<Rightarrow> (string \<times> rsm_rep option) \<times> 'w"
  me_clk :: "nat \<Rightarrow> int"
  me_others :: "nat \<Rightarrow> ('f, 'w) rsm_test \<Rightarrow> ('f, 'w) rsm_test"

definition inPartition :: "nat \<Rightarrow> nat list option \<Rightarrow> bool" where
  "inPartition s p = (case p of None \<Rightarrow> True | Some is \<Rightarrow> list_ex (\<lambda>i. s = i) is)"

definition mt_pause :: "('f, 'w) rsm_env \<Rightarrow> ('f, 'w) rsm_test \<Rightarrow> ('f, 'w) rsm_test" where
  "mt_pause env st = (me_others env (mt_pauses st) st)\<lparr>mt_pauses := Suc (mt_pauses st)\<rparr>"

definition mt_tick :: "('f, 'w) rsm_test \<Rightarrow> ('f, 'w) rsm_test" where
  "mt_tick st = st\<lparr>mt_reads := Suc (mt_reads st)\<rparr>"

text \<open>One pass over all servers, from \<open>index\<close> on.\<close>

fun try_submit :: "('f, 'w) rsm_env \<Rightarrow> nat list option \<Rightarrow> rsm_req \<Rightarrow> nat \<Rightarrow> nat \<Rightarrow> ('f, 'w) rsm_test \<Rightarrow>
    (rsm_rep option option \<times> ('f, 'w) rsm_test) go" where
  "try_submit env p req 0 index st = Ret (None, st)"
| "try_submit env p req (Suc k) index st =
     go_bind (go_nth (mt_connected st) index) (\<lambda>c.
     go_bind (if c then go_bind (go_nth (mt_srvs st) index) (\<lambda>s. case s of
          None \<Rightarrow> Panic ''nil pointer dereference'' | Some s \<Rightarrow> Ret (rm_rsm s \<noteq> None \<and> inPartition index p)) else Ret False) (\<lambda>ask.
       if ask then
         (case me_Submit env index req (mt_w st) of ((err, rep), w) \<Rightarrow>
           let st1 = mt_pause env (st\<lparr>mt_w := w\<rparr>) in
           if err = OK then Ret (Some rep, st1\<lparr>mt_leader := index\<rparr>)
           else try_submit env p req k ((index + 1) mod length (mt_srvs st)) st1)
       else try_submit env p req k ((index + 1) mod length (mt_srvs st)) st))"

partial_function (option) onePartition :: "('f, 'w) rsm_env \<Rightarrow> int \<Rightarrow> nat list option \<Rightarrow> rsm_req \<Rightarrow> ('f, 'w) rsm_test \<Rightarrow>
    (rsm_rep option \<times> ('f, 'w) rsm_test) go option" where
  "onePartition env t0 p req st =
     (if me_clk env (mt_reads st) - t0 < NSEC * 1000000000 then
        (case try_submit env p req (length (mt_srvs (mt_tick st))) (mt_leader (mt_tick st)) (mt_tick st) of
           Ret r \<Rightarrow> (case fst r of
             Some rep \<Rightarrow> Some (Ret (rep, snd r))
           | None \<Rightarrow> onePartition env t0 p req (mt_pause env (snd r)))
         | Fatal e \<Rightarrow> Some (Fatal e) | Panic e \<Rightarrow> Some (Panic e) | Diverge \<Rightarrow> Some Diverge)
      else Some (Ret (None, mt_tick st)))"

definition run_onePartition :: "('f, 'w) rsm_env \<Rightarrow> nat list option \<Rightarrow> rsm_req \<Rightarrow> ('f, 'w) rsm_test \<Rightarrow> (rsm_rep option \<times> ('f, 'w) rsm_test) go" where
  "run_onePartition env p req st = (case onePartition env (me_clk env (mt_reads st)) p req (mt_tick st) of None \<Rightarrow> Diverge | Some r \<Rightarrow> r)"

text \<open>A reply of the wrong type makes the type assertion panic.\<close>

definition oneInc :: "('f, 'w) rsm_env \<Rightarrow> ('f, 'w) rsm_test \<Rightarrow> (int option \<times> ('f, 'w) rsm_test) go" where
  "oneInc env st = go_bind (run_onePartition env None Inc st) (\<lambda>(rep, st'). case rep of
     None \<Rightarrow> Ret (None, st') | Some (IncRep n) \<Rightarrow> Ret (Some n, st') | _ \<Rightarrow> Panic ''interface conversion'')"

definition oneNull :: "('f, 'w) rsm_env \<Rightarrow> ('f, 'w) rsm_test \<Rightarrow> (unit option \<times> ('f, 'w) rsm_test) go" where
  "oneNull env st = go_bind (run_onePartition env None Null st) (\<lambda>(rep, st'). case rep of
     None \<Rightarrow> Ret (None, st') | Some NullRep \<Rightarrow> Ret (Some (), st') | _ \<Rightarrow> Panic ''interface conversion'')"

definition countValue :: "int \<Rightarrow> ('f, 'w) rsm_test \<Rightarrow> nat go" where
  "countValue v st = fold_go (\<lambda>s i. case s of
     None \<Rightarrow> Panic ''nil pointer dereference''
   | Some s \<Rightarrow> Ret (if rm_counter s = v then i + 1 else i)) (mt_srvs st) 0"

fun counter_loop :: "('f, 'w) rsm_env \<Rightarrow> nat \<Rightarrow> int \<Rightarrow> nat \<Rightarrow> nat \<Rightarrow> ('f, 'w) rsm_test \<Rightarrow> (bool \<times> nat \<times> ('f, 'w) rsm_test) go" where
  "counter_loop env 0 v nsrv n st = Ret (False, n, st)"
| "counter_loop env (Suc k) v nsrv n st = go_bind (countValue v st) (\<lambda>n'.
     if n' \<ge> nsrv then Ret (True, n', st) else counter_loop env k v nsrv n' (mt_pause env st))"

definition mt_annotate :: "('f, 'w) rsm_env \<Rightarrow> (int \<Rightarrow> ann \<Rightarrow> ann go) \<Rightarrow> ('f, 'w) rsm_test \<Rightarrow> ('f, 'w) rsm_test go" where
  "mt_annotate env f st = go_bind (f (me_clk env (mt_reads st)) (mt_ann st)) (\<lambda>a. Ret (mt_tick (st\<lparr>mt_ann := a\<rparr>)))"

definition checkCounter :: "('f, 'w) rsm_env \<Rightarrow> int \<Rightarrow> nat \<Rightarrow> ('f, 'w) rsm_test \<Rightarrow> ('f, 'w) rsm_test go" where
  "checkCounter env v nsrv st = go_bind (counter_loop env 30 v nsrv 0 st) (\<lambda>(ok, n, st').
     if ok then (let text = ''all '' @ itoa (int nsrv) @ '' servers have counter value '' @ itoa v
       in mt_annotate env (\<lambda>t. AnnotateCheckerSuccess t text text) st')
     else (let err = ''checkCounter: only '' @ itoa (int n) @ '' srvs have '' @ itoa v @ '' instead of '' @ itoa (int nsrv)
       in go_bind (mt_annotate env (\<lambda>t. AnnotateCheckerFailure t err err) st') (\<lambda>_. Fatal err)))"

text \<open>
  \<^verbatim>\<open>Leader\<close>: the first server with a service that is a Raft peer and says it leads. A service is
  given by the answer of \<^verbatim>\<open>GetState\<close>, \<open>None\<close> for a service of another type.
\<close>

fun leader_from :: "nat \<Rightarrow> (int \<times> bool) option list list \<Rightarrow> bool \<times> nat" where
  "leader_from i [] = (False, 0)"
| "leader_from i (ss # sss) =
     (if list_ex (\<lambda>s. case s of Some (_, isLeader) \<Rightarrow> isLeader | None \<Rightarrow> False) ss then (True, i) else leader_from (Suc i) sss)"

definition Leader :: "(int \<times> bool) option list list \<Rightarrow> bool \<times> nat" where
  "Leader services = leader_from 0 services"

definition disconnectLeader :: "('f, 'w) rsm_test \<Rightarrow> ('s, 'v) gs \<Rightarrow> (nat \<times> ('s, 'v) gs) go" where
  "disconnectLeader ts g = go_bind (DisconnectAll (mt_leader ts) g) (\<lambda>g'. Ret (mt_leader ts, g'))"

definition rsm_connect :: "nat \<Rightarrow> ('s, 'v) gs \<Rightarrow> ('s, 'v) gs go" where
  "rsm_connect i g = ConnectOne i g"

subsection \<open>The contract of a state machine\<close>

text \<open>Executing a log of requests, in order.\<close>

fun run_ops :: "('req \<Rightarrow> 's \<Rightarrow> ('rep \<times> 's) go) \<Rightarrow> 'req list \<Rightarrow> 's \<Rightarrow> ('rep list \<times> 's) go" where
  "run_ops do [] s = Ret ([], s)"
| "run_ops do (r # rs) s = go_bind (do r s) (\<lambda>(rep, s1). go_bind (run_ops do rs s1) (\<lambda>(reps, s2). Ret (rep # reps, s2)))"

text \<open>
  \<open>same\<close>: two replicas hold the same replicated state, whatever else they hold. Operations depend
  only on it, and restoring a snapshot reproduces it in any replica.
\<close>

locale state_machine =
  fixes do_op :: "'req \<Rightarrow> 's \<Rightarrow> ('rep \<times> 's) go"
    and snapshot :: "'s \<Rightarrow> byte list"
    and restore :: "byte list \<Rightarrow> 's \<Rightarrow> 's go"
    and same :: "'s \<Rightarrow> 's \<Rightarrow> bool"
  assumes do_op_same: "same s t \<Longrightarrow> do_op r s = Ret (rep, s') \<Longrightarrow> \<exists>t'. do_op r t = Ret (rep, t') \<and> same s' t'"
    and restore_snapshot: "\<exists>t'. restore (snapshot s) t = Ret t' \<and> same s t'"
begin

lemma run_ops_same: "same s t \<Longrightarrow> run_ops do_op rs s = Ret (reps, s') \<Longrightarrow> \<exists>t'. run_ops do_op rs t = Ret (reps, t') \<and> same s' t'"
proof (induction rs arbitrary: s t reps)
  case (Cons r rs)
  from Cons.prems obtain rep s1 reps' where s1: "do_op r s = Ret (rep, s1)" "run_ops do_op rs s1 = Ret (reps', s')" "reps = rep # reps'"
    by (auto simp: go_bind_Ret_iff)
  from do_op_same[OF Cons.prems(1) s1(1)] obtain t1 where t1: "do_op r t = Ret (rep, t1)" "same s1 t1" by blast
  from Cons.IH[OF t1(2) s1(2)] t1 s1(3) show ?case by auto
qed simp

lemma run_ops_append: "run_ops do_op (xs @ ys) s = Ret (reps, s') \<Longrightarrow>
    \<exists>r1 r2 s1. run_ops do_op xs s = Ret (r1, s1) \<and> run_ops do_op ys s1 = Ret (r2, s') \<and> reps = r1 @ r2"
  by (induction xs arbitrary: s reps) (fastforce simp: go_bind_Ret_iff)+

text \<open>A replica that starts from a snapshot of a prefix of the log answers the rest as one that ran it all.\<close>

lemma catch_up:
  assumes "run_ops do_op (xs @ ys) s = Ret (reps, s')"
  shows "\<exists>r1 s1 t1 t'. run_ops do_op xs s = Ret (r1, s1) \<and> restore (snapshot s1) t = Ret t1 \<and>
    run_ops do_op ys t1 = Ret (drop (length xs) reps, t') \<and> same s' t'"
proof -
  from run_ops_append[OF assms] obtain r1 r2 s1 where s1: "run_ops do_op xs s = Ret (r1, s1)" "run_ops do_op ys s1 = Ret (r2, s')" "reps = r1 @ r2"
    by blast
  have "length r1 = length xs" if "run_ops do_op xs s = Ret (r1, s1)" for xs s r1 s1
    using that by (induction xs arbitrary: s r1) (auto simp: go_bind_Ret_iff)
  with s1 have d: "drop (length xs) reps = r2" by simp
  from restore_snapshot obtain t1 where t1: "restore (snapshot s1) t = Ret t1" "same s1 t1" by blast
  from run_ops_same[OF t1(2) s1(2)] s1(1) t1(1) d show ?thesis by blast
qed

end

text \<open>
  The codec of integers, \<^verbatim>\<open>labgob\<close>: it decodes what it encoded, whatever the variable held before (unlike a field of a structure, an integer that is
  sent on its own is sent even if it is 0).
\<close>

locale int_codec =
  fixes enc :: "int \<Rightarrow> byte list"
    and dec :: "byte list \<Rightarrow> int \<Rightarrow> int option"
  assumes dec_enc: "dec (enc c) old = Some c"

definition same_counter :: "'f rsmSrv \<Rightarrow> 'f rsmSrv \<Rightarrow> bool" where
  "same_counter s t \<longleftrightarrow> rm_counter s = rm_counter t"

text \<open>The counting server is a state machine, over every such codec.\<close>

sublocale int_codec \<subseteq> counter: state_machine DoOp "rsm_Snapshot enc" "Restore dec" same_counter
  by unfold_locales
    (auto simp: DoOp_def same_counter_def rsm_Snapshot_def Restore_def dec_enc Let_def split: rsm_req.splits)

context int_codec
begin

lemma counter_catch_up:
  fixes rs t :: "'a rsmSrv"
  assumes "run_ops DoOp (pre @ suf) rs = Ret (reps, rs')"
  shows "\<exists>r1 rs1 t1 t'. run_ops DoOp pre rs = Ret (r1, rs1) \<and> Restore dec (rsm_Snapshot enc rs1) t = Ret t1 \<and>
    run_ops DoOp suf t1 = Ret (drop (length pre) reps, t') \<and> rm_counter t' = rm_counter rs'"
  using counter.catch_up[OF assms, of t] by (auto simp: same_counter_def)

end

text \<open>A codec in unary, with a sign byte first.\<close>

definition unary_enc :: "int \<Rightarrow> byte list" where
  "unary_enc c = (if c < 0 then 1 else 0) # replicate (nat \<bar>c\<bar>) 1"

definition unary_dec :: "byte list \<Rightarrow> int \<Rightarrow> int option" where
  "unary_dec bs old = (case bs of [] \<Rightarrow> None | b # us \<Rightarrow> Some (if b = 1 then - int (length us) else int (length us)))"

interpretation unary: int_codec unary_enc unary_dec
  by unfold_locales (simp add: unary_enc_def unary_dec_def)

definition incs :: "rsm_req list \<Rightarrow> int" where
  "incs log = int (length (filter (\<lambda>r. r = Inc) log))"

lemma incs_simps [simp]: "incs [] = 0" "incs (r # log) = (if r = Inc then 1 else 0) + incs log"
  by (simp_all add: incs_def)

lemma run_ops_counter:
  assumes "set log \<subseteq> {Inc, Null}"
  shows "\<exists>reps rs'. run_ops DoOp log rs = Ret (reps, rs') \<and> rm_counter rs' = rm_counter rs + incs log \<and> length reps = length log \<and>
    (\<forall>i<length log. reps ! i = (if log ! i = Inc then IncRep (rm_counter rs + incs (take (Suc i) log)) else NullRep))"
  using assms
proof (induction log arbitrary: rs)
  case (Cons r log)
  define rs1 where "rs1 = (if r = Inc then rs\<lparr>rm_counter := rm_counter rs + 1\<rparr> else rs)"
  have c1: "rm_counter rs1 = rm_counter rs + (if r = Inc then 1 else 0)" by (simp add: rs1_def)
  have op: "DoOp r rs = Ret (if r = Inc then IncRep (rm_counter rs + 1) else NullRep, rs1)"
    using Cons.prems by (auto simp: DoOp_def rs1_def)
  from Cons.IH[of rs1] Cons.prems obtain reps rs' where ih: "run_ops DoOp log rs1 = Ret (reps, rs')" "rm_counter rs' = rm_counter rs1 + incs log"
    "length reps = length log" "\<forall>i<length log. reps ! i = (if log ! i = Inc then IncRep (rm_counter rs1 + incs (take (Suc i) log)) else NullRep)"
    by auto
  let ?rep = "if r = Inc then IncRep (rm_counter rs + 1) else NullRep"
  have "(?rep # reps) ! i = (if (r # log) ! i = Inc then IncRep (rm_counter rs + incs (take (Suc i) (r # log))) else NullRep)"
    if "i < length (r # log)" for i
    using that ih(4) c1 by (cases i) (auto simp: add_ac)
  then show ?case using op ih(1,2,3) c1 by simp
qed simp

text \<open>
  Property C39: replicas of the counting server agree. A replica that executes a log of increments and
  null operations answers the \<open>i\<close>-th increment with the number of increments so far; any other
  replica that restores its snapshot taken after a prefix of the log and executes the rest gives
  the same answers and ends with the same counter, provided the codec decodes what it encoded, whatever the counter was.
\<close>

theorem counter_replicas_agree:
  fixes rs t :: "'f rsmSrv"
  assumes "int_codec enc dec" "set (pre @ suf) \<subseteq> {Inc, Null}"
  shows "\<exists>reps rs' r1 rs1 t1 t'. run_ops DoOp (pre @ suf) rs = Ret (reps, rs') \<and>
     rm_counter rs' = rm_counter rs + incs (pre @ suf) \<and>
     (\<forall>i<length (pre @ suf). reps ! i = (if (pre @ suf) ! i = Inc then IncRep (rm_counter rs + incs (take (Suc i) (pre @ suf))) else NullRep)) \<and>
     run_ops DoOp pre rs = Ret (r1, rs1) \<and> Restore dec (rsm_Snapshot enc rs1) t = Ret t1 \<and>
     run_ops DoOp suf t1 = Ret (drop (length pre) reps, t') \<and> rm_counter t' = rm_counter rs'"
proof -
  from run_ops_counter[OF assms(2), of rs] obtain reps rs' where run: "run_ops DoOp (pre @ suf) rs = Ret (reps, rs')"
    "rm_counter rs' = rm_counter rs + incs (pre @ suf)"
    "\<forall>i<length (pre @ suf). reps ! i = (if (pre @ suf) ! i = Inc then IncRep (rm_counter rs + incs (take (Suc i) (pre @ suf))) else NullRep)"
    by blast
  from int_codec.counter_catch_up[OF assms(1) run(1), of t] run show ?thesis by blast
qed

theorem counter_replicas_agree_witness:
  "\<exists>reps rs' r1 rs1 t1 t'. run_ops DoOp ([Inc, Null] @ [Inc]) (makeRsmSrv False () 0 1000) = Ret (reps, rs') \<and> rm_counter rs' = 2 \<and>
     reps ! 2 = IncRep 2 \<and> run_ops DoOp [Inc, Null] (makeRsmSrv False () 0 1000) = Ret (r1, rs1) \<and>
     Restore unary_dec (rsm_Snapshot unary_enc rs1) (makeRsmSrv False () 1 1000) = Ret t1 \<and>
     run_ops DoOp [Inc] t1 = Ret (drop 2 reps, t') \<and> rm_counter t' = rm_counter rs'"
proof -
  have s: "set ([Inc, Null] @ [Inc]) \<subseteq> {Inc, Null}" by simp
  from counter_replicas_agree[OF unary.int_codec_axioms s, of "makeRsmSrv False () 0 1000" "makeRsmSrv False () 1 1000"]
  obtain reps rs' r1 rs1 t1 t' where *: "run_ops DoOp ([Inc, Null] @ [Inc]) (makeRsmSrv False () 0 1000) = Ret (reps, rs')"
    "rm_counter rs' = rm_counter (makeRsmSrv False () 0 1000) + incs ([Inc, Null] @ [Inc])"
    "\<forall>i<length ([Inc, Null] @ [Inc]). reps ! i = (if ([Inc, Null] @ [Inc]) ! i = Inc
       then IncRep (rm_counter (makeRsmSrv False () 0 1000) + incs (take (Suc i) ([Inc, Null] @ [Inc]))) else NullRep)"
    "run_ops DoOp [Inc, Null] (makeRsmSrv False () 0 1000) = Ret (r1, rs1)"
    "Restore unary_dec (rsm_Snapshot unary_enc rs1) (makeRsmSrv False () 1 1000) = Ret t1"
    "run_ops DoOp [Inc] t1 = Ret (drop (length [Inc, Null]) reps, t')" "rm_counter t' = rm_counter rs'" by blast
  from *(3)[rule_format, of 2] have "reps ! 2 = IncRep 2" by (simp add: makeRsmSrv_def)
  moreover have "rm_counter rs' = 2" using *(2) by (simp add: makeRsmSrv_def)
  moreover have "run_ops DoOp [Inc] t1 = Ret (drop 2 reps, t')" using *(6) by (simp add: numeral_2_eq_2 del: run_ops.simps)
  ultimately show ?thesis using *(1,4,5,7) by blast
qed

text \<open>What the checks of the tests count and find.\<close>

lemma countValue_count:
  assumes "None \<notin> set (mt_srvs st)"
  shows "countValue v st = Ret (length (filter (\<lambda>s. rm_counter (the s) = v) (mt_srvs st)))"
proof -
  have "fold_go (\<lambda>s i. case s of None \<Rightarrow> Panic ''nil pointer dereference''
     | Some s \<Rightarrow> Ret (if rm_counter s = v then i + 1 else i)) ss n = Ret (n + length (filter (\<lambda>s. rm_counter (the s) = v) ss))"
    if "None \<notin> set ss" for ss :: "'a rsmSrv option list" and n
    using that
  proof (induction ss arbitrary: n)
    case (Cons a ss)
    then show ?case by (cases a) auto
  qed simp
  then show ?thesis using assms by (simp add: countValue_def)
qed

lemma leader_from_first:
  "leader_from i services = (True, l) \<Longrightarrow> i \<le> l \<and> l < i + length services \<and>
     (\<exists>t. Some (t, True) \<in> set (services ! (l - i))) \<and> (\<forall>j<l - i. \<forall>t. Some (t, True) \<notin> set (services ! j))"
proof (induction services arbitrary: i)
  case (Cons ss sss)
  show ?case
  proof (cases "list_ex (\<lambda>s. case s of Some (_, isLeader) \<Rightarrow> isLeader | None \<Rightarrow> False) ss")
    case True
    with Cons.prems show ?thesis by (auto simp: list_ex_iff split: option.splits)
  next
    case False
    with Cons.IH[of "Suc i"] Cons.prems have ih: "Suc i \<le> l" "l < Suc i + length sss" "\<exists>t. Some (t, True) \<in> set (sss ! (l - Suc i))"
      "\<forall>j<l - Suc i. \<forall>t. Some (t, True) \<notin> set (sss ! j)" by auto
    have none: "Some (t, True) \<notin> set ss" for t using False by (fastforce simp: list_ex_iff)
    have "l - i = Suc (l - Suc i)" using ih(1) by simp
    then show ?thesis using ih none by (auto simp: nth_Cons split: nat.splits)
  qed
qed simp

end
