(* ===== verification/Map_Reduce.thy ===== *)
theory Map_Reduce
  imports Go_Stdlib
begin

text \<open>
  The MapReduce lab: the hash that chooses a reduce task (\<^verbatim>\<open>mr/worker.go\<close>), the sequential reference
  implementation (\<^verbatim>\<open>main/mrsequential.go\<close>) and its applications (\<^verbatim>\<open>mrapps\<close>). The order in which
  \<^verbatim>\<open>sort.Sort\<close> leaves pairs of equal keys is open, so the sorting function is described by an
  interface; the file system and the loaded plugin are arguments. The table of Unicode letters is
  an argument of the applications that split text into words.
\<close>

subsection \<open>Words\<close>

text \<open>\<^verbatim>\<open>strings.FieldsFunc\<close> with the separators that are not letters.\<close>

definition words :: "(nat \<Rightarrow> bool) \<Rightarrow> string \<Rightarrow> string list" where
  "words isLetter s = map (\<lambda>w. concat (map snd w)) (fields_func (\<lambda>(r, _). \<not> isLetter r) (runes s))"

subsection \<open>mr: pairs and the choice of a reduce task\<close>

record KeyValue =
  Key :: string
  Value :: string

definition kv :: "string \<Rightarrow> string \<Rightarrow> KeyValue" where
  "kv k v = \<lparr>Key = k, Value = v\<rparr>"

definition ihash :: "string \<Rightarrow> int" where
  "ihash key = uint (fnv32a key AND 0x7fffffff)"

text \<open>The example call of the lab: the worker sends 99 and the coordinator answers one more.\<close>

definition Example :: "int \<Rightarrow> int" where
  "Example x = x + 1"

definition coordinatorSock :: "int \<Rightarrow> string" where
  "coordinatorSock uid = ''/var/tmp/5840-mr-'' @ itoa uid"

subsection \<open>Applications\<close>

type_synonym mapf = "string \<Rightarrow> string \<Rightarrow> KeyValue list go"
type_synonym reducef = "string \<Rightarrow> string list \<Rightarrow> string go"

definition wc_Map :: "(nat \<Rightarrow> bool) \<Rightarrow> mapf" where
  "wc_Map isLetter filename contents = Ret (map (\<lambda>w. kv w ''1'') (words isLetter contents))"

definition wc_Reduce :: reducef where
  "wc_Reduce key values = Ret (itoa (int (length values)))"

text \<open>\<open>order\<close>: the order in which \<^verbatim>\<open>range\<close> visits the map of words seen.\<close>

definition indexer_Map :: "(string list \<Rightarrow> string list) \<Rightarrow> (nat \<Rightarrow> bool) \<Rightarrow> mapf" where
  "indexer_Map order isLetter document value =
     (let m = fold (\<lambda>w. AList.update w True) (words isLetter value) []
      in Ret (map (\<lambda>w. kv w document) (order (gm_keys m))))"

definition indexer_Reduce :: reducef where
  "indexer_Reduce key values = (let values' = sort values
     in Ret (itoa (int (length values')) @ '' '' @ strings_join values' '',''))"

text \<open>
  \<^verbatim>\<open>crash.go\<close> draws a number below 1000 before each task; \<^verbatim>\<open>nocrash.go\<close> draws it too and ignores it.
\<close>

definition crash_maybeCrash :: "nat \<Rightarrow> unit go" where
  "crash_maybeCrash rr = (if rr < 330 then Fatal ''exit status 1'' else Ret ())"

definition nocrash_maybeCrash :: "nat \<Rightarrow> unit go" where
  "nocrash_maybeCrash rr = (if False \<and> rr < 500 then Fatal ''exit status 1'' else Ret ())"

definition crash_Map :: "nat \<Rightarrow> mapf" where
  "crash_Map rr filename contents = go_bind (crash_maybeCrash rr) (\<lambda>_. Ret [kv ''a'' filename,
     kv ''b'' (itoa (int (length filename))), kv ''c'' (itoa (int (length contents))), kv ''d'' ''xyzzy''])"

definition nocrash_Map :: "nat \<Rightarrow> mapf" where
  "nocrash_Map rr filename contents = go_bind (nocrash_maybeCrash rr) (\<lambda>_. Ret [kv ''a'' filename,
     kv ''b'' (itoa (int (length filename))), kv ''c'' (itoa (int (length contents))), kv ''d'' ''xyzzy''])"

definition crash_Reduce :: "nat \<Rightarrow> reducef" where
  "crash_Reduce rr key values = go_bind (crash_maybeCrash rr) (\<lambda>_. Ret (strings_join (sort values) '' ''))"

definition nocrash_Reduce :: "nat \<Rightarrow> reducef" where
  "nocrash_Reduce rr key values = go_bind (nocrash_maybeCrash rr) (\<lambda>_. Ret (strings_join (sort values) '' ''))"

definition early_exit_Map :: mapf where
  "early_exit_Map filename contents = Ret [kv filename ''1'']"

definition early_exit_Reduce :: reducef where
  "early_exit_Reduce key values = Ret (itoa (int (length values)))"

definition rtiming_Map :: mapf where
  "rtiming_Map filename contents = Ret (map (\<lambda>c. kv [c] ''1'') ''abcdefghij'')"

definition mtiming_Reduce :: reducef where
  "mtiming_Reduce key values = Ret (strings_join (sort values) '' '')"

subsection \<open>The sequential implementation\<close>

text \<open>
  \<open>plugins\<close>: what loading a file gives, \<open>None\<close> if it cannot be loaded, and the symbols found in it.
  \<open>files\<close>: \<open>None\<close> if the file cannot be opened, \<open>Some None\<close> if it cannot be read.
\<close>

type_synonym plugin = "mapf option \<times> reducef option"

definition loadPlugin :: "(string \<Rightarrow> plugin option) \<Rightarrow> string \<Rightarrow> (mapf \<times> reducef) go" where
  "loadPlugin plugins filename = (case plugins filename of
     None \<Rightarrow> Fatal ''cannot load plugin %v''
   | Some (xmapf, xreducef) \<Rightarrow> (case xmapf of
       None \<Rightarrow> Fatal ''cannot find Map in %v''
     | Some mapf \<Rightarrow> (case xreducef of
         None \<Rightarrow> Fatal ''cannot find Reduce in %v''
       | Some reducef \<Rightarrow> Ret (mapf, reducef))))"

definition map_phase :: "(string \<Rightarrow> string option option) \<Rightarrow> mapf \<Rightarrow> string list \<Rightarrow> KeyValue list go" where
  "map_phase files mapf names = fold_go (\<lambda>filename intermediate. case files filename of
     None \<Rightarrow> Fatal ''cannot open %v''
   | Some None \<Rightarrow> Fatal ''cannot read %v''
   | Some (Some content) \<Rightarrow> go_bind (mapf filename content) (\<lambda>kva. Ret (intermediate @ kva))) names []"

function reduce_loop :: "reducef \<Rightarrow> KeyValue list \<Rightarrow> string go" where
  "reduce_loop reducef [] = Ret []"
| "reduce_loop reducef (e # es) =
     (let same = takeWhile (\<lambda>x. Key x = Key e) es; rest = dropWhile (\<lambda>x. Key x = Key e) es in
      go_bind (reducef (Key e) (map Value (e # same))) (\<lambda>output.
      go_bind (reduce_loop reducef rest) (\<lambda>out.
        Ret (Key e @ '' '' @ output @ ''\<newline>'' @ out))))"
  by pat_completeness auto
termination
  by (relation "measure (\<lambda>(_, es). length es)") (auto simp: length_dropWhile_le less_Suc_eq_le)

text \<open>The contents of \<^verbatim>\<open>mr-out-0\<close>.\<close>

definition mrsequential :: "(KeyValue list \<Rightarrow> KeyValue list) \<Rightarrow> (string \<Rightarrow> plugin option) \<Rightarrow> (string \<Rightarrow> string option option) \<Rightarrow>
    string list \<Rightarrow> string go" where
  "mrsequential sorter plugins files args =
     (if length args < 3 then Fatal ''Usage: mrsequential xxx.so inputfiles...''
      else go_bind (loadPlugin plugins (args ! 1)) (\<lambda>(mapf, reducef).
        go_bind (map_phase files mapf (drop 2 args)) (\<lambda>intermediate. reduce_loop reducef (sorter intermediate))))"

subsection \<open>Sorting\<close>

text \<open>What \<^verbatim>\<open>sort.Sort\<close> promises for \<^verbatim>\<open>ByKey\<close>: the same pairs, in increasing order of their keys.\<close>

locale key_sorter =
  fixes sorter :: "KeyValue list \<Rightarrow> KeyValue list"
  assumes sorter_mset: "mset (sorter es) = mset es"
    and sorter_sorted: "sorted (map Key (sorter es))"
begin

lemma sorter_set [simp]: "set (sorter es) = set es"
  using sorter_mset by (metis set_mset_mset)

lemma sorter_values: "mset (map Value (filter (\<lambda>e. Key e = k) (sorter es))) = mset (map Value (filter (\<lambda>e. Key e = k) es))"
  by (simp add: sorter_mset)

end

text \<open>Insertion sort and every other sorting function meet it, for instance the stable one of the library.\<close>

interpretation stable: key_sorter "sort_key Key"
  by unfold_locales simp_all

lemma remdups_adj_sorted:
  fixes xs :: "'a::linorder list"
  assumes "sorted xs"
  shows "remdups_adj xs = sorted_list_of_set (set xs)"
proof -
  have "distinct (remdups_adj xs)" using assms by (induction xs rule: remdups_adj.induct) auto
  moreover have "sorted (remdups_adj xs)" using assms by (simp add: sorted_remdups_adj)
  ultimately show ?thesis by (metis remdups_adj_set sorted_list_of_set.idem_if_sorted_distinct)
qed

lemma image_neq: "(\<forall>x\<in>S. f x \<noteq> a) \<Longrightarrow> k \<in> f ` S \<Longrightarrow> k \<noteq> a"
  by blast

lemma takeWhile_sorted_key:
  assumes "sorted (map Key (e # es))"
  shows "takeWhile (\<lambda>x. Key x = Key e) es = filter (\<lambda>x. Key x = Key e) es"
    "k \<noteq> Key e \<Longrightarrow> filter (\<lambda>x. Key x = k) (dropWhile (\<lambda>x. Key x = Key e) es) = filter (\<lambda>x. Key x = k) es"
proof -
  show "takeWhile (\<lambda>x. Key x = Key e) es = filter (\<lambda>x. Key x = Key e) es" using assms
  proof (induction es)
    case (Cons a es)
    then have "Key a \<noteq> Key e \<Longrightarrow> x \<in> set es \<Longrightarrow> Key x \<noteq> Key e" for x by force
    then show ?case using Cons by (auto simp: filter_empty_conv)
  qed simp
  show "k \<noteq> Key e \<Longrightarrow> filter (\<lambda>x. Key x = k) (dropWhile (\<lambda>x. Key x = Key e) es) = filter (\<lambda>x. Key x = k) es"
    by (induction es) auto
qed

text \<open>
  The loop over the sorted pairs: each key once, in increasing order, with the values of its pairs.
\<close>

definition report_line :: "(string \<Rightarrow> string list \<Rightarrow> string) \<Rightarrow> KeyValue list \<Rightarrow> string \<Rightarrow> string" where
  "report_line g es k = k @ '' '' @ g k (map Value (filter (\<lambda>e. Key e = k) es)) @ ''\<newline>''"

lemma reduce_loop_sorted:
  assumes "sorted (map Key es)"
  shows "reduce_loop (\<lambda>k vs. Ret (g k vs)) es = Ret (concat (map (report_line g es) (remdups_adj (map Key es))))"
  using assms
proof (induction "\<lambda>k vs. Ret (g k vs)" es rule: reduce_loop.induct)
  case (2 e es)
  let ?rest = "dropWhile (\<lambda>x. Key x = Key e) es"
  have srt: "sorted (map Key ?rest)"
    using 2(2) by (metis append_assoc map_append sorted_append takeWhile_dropWhile_id list.simps(9) sorted_simps(2))
  let ?P = "\<lambda>x. Key x = Key e"
  have "takeWhile ?P es @ filter ?P ?rest = filter ?P (takeWhile ?P es @ ?rest)"
    by (simp only: filter_append) (auto dest: set_takeWhileD intro!: filter_True[symmetric])
  also have "\<dots> = takeWhile ?P es @ []"
    by (simp only: takeWhile_dropWhile_id takeWhile_sorted_key(1)[OF 2(2), symmetric] append_Nil2)
  finally have "filter ?P ?rest = []" by (simp only: same_append_eq)
  then have ne: "\<forall>x\<in>set ?rest. Key x \<noteq> Key e" by (rule filter_empty_conv[THEN iffD1])
  have "report_line g ?rest k = report_line g (e # es) k" if "k \<in> set (remdups_adj (map Key ?rest))" for k
  proof -
    from that have "k \<in> Key ` set ?rest" by simp
    then have "k \<noteq> Key e" by (rule image_neq[OF ne])
    then show ?thesis by (simp add: report_line_def takeWhile_sorted_key(2)[OF 2(2)])
  qed
  then have rest: "map (report_line g ?rest) (remdups_adj (map Key ?rest)) = map (report_line g (e # es)) (remdups_adj (map Key ?rest))"
    by (rule map_cong[OF refl])
  have keys: "remdups_adj (Key e # map Key es) = Key e # remdups_adj (map Key ?rest)"
    by (simp add: remdups_adj_Cons' dropWhile_map comp_def eq_commute)
  have hd: "report_line g (e # es) (Key e) = Key e @ '' '' @ g (Key e) (map Value (e # takeWhile ?P es)) @ ''\<newline>''"
    by (simp add: report_line_def takeWhile_sorted_key(1)[OF 2(2)])
  show ?case
    by (simp only: reduce_loop.simps Let_def go_bind.simps 2(1)[OF refl refl refl srt] rest keys hd list.map concat.simps append_assoc)
qed simp

context key_sorter
begin

text \<open>
  The reduce phase after sorting, for a reduce function that does not depend on the order of the
  values: a line for each key, in increasing order.
\<close>

lemma reduce_sorted:
  assumes "\<And>k vs vs'. mset vs = mset vs' \<Longrightarrow> g k vs = g k vs'"
  shows "reduce_loop (\<lambda>k vs. Ret (g k vs)) (sorter es) = Ret (concat (map (report_line g es) (sorted_list_of_set (Key ` set es))))"
proof -
  have "report_line g (sorter es) = report_line g es"
    using assms[OF sorter_values] by (simp add: report_line_def fun_eq_iff)
  then show ?thesis
    by (simp add: reduce_loop_sorted[OF sorter_sorted] remdups_adj_sorted[OF sorter_sorted])
qed

end

lemma map_phase_all:
  assumes "\<And>f. f \<in> set names \<Longrightarrow> files f = Some (Some (content f)) \<and> mapf f (content f) = Ret (h f (content f))"
  shows "map_phase files mapf names = Ret (concat (map (\<lambda>f. h f (content f)) names))"
proof -
  have "fold_go (\<lambda>filename intermediate. case files filename of
     None \<Rightarrow> Fatal ''cannot open %v''
   | Some None \<Rightarrow> Fatal ''cannot read %v''
   | Some (Some content) \<Rightarrow> go_bind (mapf filename content) (\<lambda>kva. Ret (intermediate @ kva))) names acc
     = Ret (acc @ concat (map (\<lambda>f. h f (content f)) names))" for acc
    using assms by (induction names arbitrary: acc) auto
  then show ?thesis by (simp add: map_phase_def)
qed

subsection \<open>Word count and index\<close>

text \<open>
  What counting the words of some documents means: a line for each word that occurs, in increasing
  order, with the number of its occurrences.
\<close>

definition word_count :: "string list \<Rightarrow> string" where
  "word_count ws = concat (map (\<lambda>w. w @ '' '' @ itoa (int (count_list ws w)) @ ''\<newline>'') (sorted_list_of_set (set ws)))"

text \<open>
  Property C20: the sequential MapReduce with the word-count application writes, for every word of the
  input files and for nothing else, one line with the number of its occurrences in all files, in
  increasing order of the words, whatever order the sort leaves equal keys in.
\<close>

theorem mrsequential_counts_words:
  assumes "key_sorter sorter" "plugins p = Some (Some (wc_Map isLetter), Some wc_Reduce)" "names \<noteq> []"
    and "\<And>f. f \<in> set names \<Longrightarrow> files f = Some (Some (content f))"
  shows "mrsequential sorter plugins files (prog # p # names) =
    Ret (word_count (concat (map (\<lambda>f. words isLetter (content f)) names)))"
proof -
  let ?ws = "concat (map (\<lambda>f. words isLetter (content f)) names)"
  let ?g = "\<lambda>(k::string) (vs::string list). itoa (int (length vs))"
  have "map_phase files (wc_Map isLetter) names = Ret (concat (map (\<lambda>f. map (\<lambda>w. kv w ''1'') (words isLetter (content f))) names))"
    by (rule map_phase_all[where h = "\<lambda>f c. map (\<lambda>w. kv w ''1'') (words isLetter c)"]) (simp add: assms(4) wc_Map_def)
  then have mp: "map_phase files (wc_Map isLetter) names = Ret (map (\<lambda>w. kv w ''1'') ?ws)" by (simp add: map_concat comp_def)
  have red: "wc_Reduce = (\<lambda>k vs. Ret (?g k vs))" by (simp add: wc_Reduce_def fun_eq_iff)
  have len: "length (map Value (filter (\<lambda>e. Key e = w) (map (\<lambda>w. kv w ''1'') ws))) = count_list ws w" for w ws
    by (induction ws) (auto simp: kv_def)
  have "reduce_loop wc_Reduce (sorter (map (\<lambda>w. kv w ''1'') ?ws)) =
      Ret (concat (map (report_line ?g (map (\<lambda>w. kv w ''1'') ?ws)) (sorted_list_of_set (Key ` set (map (\<lambda>w. kv w ''1'') ?ws)))))"
    unfolding red by (rule key_sorter.reduce_sorted[OF assms(1)]) (metis size_mset)
  also have "Key ` set (map (\<lambda>w. kv w ''1'') ?ws) = set ?ws" by (force simp: kv_def)
  finally show ?thesis
    using assms(2,3) mp len by (cases names) (simp_all add: mrsequential_def loadPlugin_def word_count_def report_line_def)
qed

definition ex_letter :: "nat \<Rightarrow> bool" where
  "ex_letter r \<longleftrightarrow> 97 \<le> r \<and> r \<le> 122"

definition ex_file :: "string \<Rightarrow> string" where
  "ex_file f = (if f = ''x'' then ''b a, b'' else ''ab b!'')"

theorem mrsequential_counts_words_witness:
  "mrsequential (sort_key Key) (\<lambda>p. Some (Some (wc_Map ex_letter), Some wc_Reduce)) (\<lambda>f. Some (Some (ex_file f)))
     [''mrsequential'', ''wc.so'', ''x'', ''y''] = Ret ''a 1\<newline>ab 1\<newline>b 3\<newline>''"
proof -
  have "word_count (concat (map (\<lambda>f. words ex_letter (ex_file f)) [''x'', ''y''])) = ''a 1\<newline>ab 1\<newline>b 3\<newline>''" by code_simp
  moreover have "mrsequential (sort_key Key) (\<lambda>p. Some (Some (wc_Map ex_letter), Some wc_Reduce)) (\<lambda>f. Some (Some (ex_file f)))
      [''mrsequential'', ''wc.so'', ''x'', ''y''] = Ret (word_count (concat (map (\<lambda>f. words ex_letter (ex_file f)) [''x'', ''y''])))"
    by (rule mrsequential_counts_words[OF stable.key_sorter_axioms]) simp_all
  ultimately show ?thesis by simp
qed

text \<open>
  The index: a line for each word with the number of input files that hold it and their names in
  increasing order, whatever order the map of words is visited in.
\<close>

definition index_of :: "(string \<Rightarrow> string set) \<Rightarrow> string list \<Rightarrow> string" where
  "index_of ws names = concat (map (\<lambda>w. let docs = sort (filter (\<lambda>f. w \<in> ws f) names)
     in w @ '' '' @ itoa (int (length docs)) @ '' '' @ strings_join docs '','' @ ''\<newline>'') (sorted_list_of_set (\<Union>f\<in>set names. ws f)))"

lemma keys_update: "fst ` set (AList.update k v m) = insert k (fst ` set m)"
  by (rule set_eqI) (simp only: gm_has_update insert_iff)

lemma seen_words: "distinct (gm_keys m) \<Longrightarrow> distinct (gm_keys (fold (\<lambda>w. AList.update w True) ws m)) \<and>
    set (gm_keys (fold (\<lambda>w. AList.update w True) ws m)) = set (gm_keys m) \<union> set ws"
  by (induction ws arbitrary: m) (simp_all add: distinct_update keys_update)

lemma filter_distinct_eq: "distinct xs \<Longrightarrow> filter (\<lambda>x. x = w) xs = (if w \<in> set xs then [w] else [])"
  by (induction xs) (auto simp: filter_empty_conv)

lemma docs_of_word:
  assumes "\<And>f. distinct (seen f)"
  shows "map Value (filter (\<lambda>e. Key e = w) (concat (map (\<lambda>f. map (\<lambda>w. kv w f) (seen f)) names))) = filter (\<lambda>f. w \<in> set (seen f)) names"
proof -
  have "map Value (filter (\<lambda>e. Key e = w) (map (\<lambda>w. kv w f) (seen f))) = (if w \<in> set (seen f) then [f] else [])" for f
    using filter_distinct_eq[OF assms, of w f] by (simp add: filter_map comp_def kv_def)
  then show ?thesis by (induction names) simp_all
qed

lemma mrsequential_indexes:
  assumes "key_sorter sorter" "plugins p = Some (Some (indexer_Map order isLetter), Some indexer_Reduce)" "names \<noteq> []"
    and files: "\<And>f. f \<in> set names \<Longrightarrow> files f = Some (Some (content f))" and order: "\<And>ws. mset (order ws) = mset ws"
  shows "mrsequential sorter plugins files (prog # p # names) = Ret (index_of (\<lambda>f. set (words isLetter (content f))) names)"
proof -
  let ?seen = "\<lambda>f. order (gm_keys (fold (\<lambda>w. AList.update w True) (words isLetter (content f)) []))"
  let ?g = "\<lambda>(k::string) (vs::string list). itoa (int (length (sort vs))) @ '' '' @ strings_join (sort vs) '',''"
  let ?es = "concat (map (\<lambda>f. map (\<lambda>w. kv w f) (?seen f)) names)"
  have seen: "distinct (?seen f)" "set (?seen f) = set (words isLetter (content f))" for f
    using seen_words[of "[]" "words isLetter (content f)"] order mset_eq_imp_distinct_iff mset_eq_setD by (metis append_Nil distinct.simps(1) list.map(1) set_append)+
  have "map_phase files (indexer_Map order isLetter) names = Ret ?es"
    by (rule map_phase_all[where h = "\<lambda>f c. map (\<lambda>w. kv w f) (order (gm_keys (fold (\<lambda>w. AList.update w True) (words isLetter c) [])))"])
      (simp add: files indexer_Map_def)
  moreover have "reduce_loop indexer_Reduce (sorter ?es) = Ret (concat (map (report_line ?g ?es) (sorted_list_of_set (Key ` set ?es))))"
  proof -
    have red: "indexer_Reduce = (\<lambda>k vs. Ret (?g k vs))" by (simp add: indexer_Reduce_def fun_eq_iff)
    show ?thesis unfolding red
      by (rule key_sorter.reduce_sorted[OF assms(1)]) (metis sorted_list_of_multiset_mset)
  qed
  moreover have "Key ` set ?es = (\<Union>f\<in>set names. set (words isLetter (content f)))"
    by (simp add: image_UN image_image kv_def seen(2))
  moreover have "report_line ?g ?es = (\<lambda>w. let docs = sort (filter (\<lambda>f. w \<in> set (words isLetter (content f))) names)
     in w @ '' '' @ itoa (int (length docs)) @ '' '' @ strings_join docs '','' @ ''\<newline>'')"
    by (rule ext) (simp add: report_line_def docs_of_word[OF seen(1)] seen(2) Let_def)
  moreover have "\<not> length (prog # p # names) < 3" using assms(3) by (cases names) simp_all
  ultimately show ?thesis
    using assms(2) by (simp add: mrsequential_def loadPlugin_def index_of_def del: length_Cons)
qed

text \<open>The hash is not negative, so it is a task number modulo a positive number of tasks.\<close>

lemma ihash_bounds: "0 \<le> ihash key" "ihash key < 2 ^ 31"
proof -
  have "fnv32a key AND 0x7fffffff = take_bit 31 (fnv32a key)"
    by (simp add: take_bit_eq_mask mask_eq_exp_minus_1)
  then show "0 \<le> ihash key" "ihash key < 2 ^ 31" 
    using take_bit_int_less_exp[of 31 "uint (fnv32a key)"] by (simp_all add: ihash_def unsigned_take_bit_eq)
qed

text \<open>Crashes apart, the crashing application computes what the quiet one does.\<close>

lemma crash_agrees:
  "crash_Map rr f c = Ret kvs \<Longrightarrow> nocrash_Map rr' f c = Ret kvs"
  "crash_Reduce rr k vs = Ret out \<Longrightarrow> nocrash_Reduce rr' k vs = Ret out"
  by (auto simp: crash_Map_def nocrash_Map_def crash_Reduce_def nocrash_Reduce_def crash_maybeCrash_def nocrash_maybeCrash_def split: if_splits)

end
