(* ===== verification/Lab_Gob.thy ===== *)
theory Lab_Gob
  imports Go_Stdlib
begin

text \<open>
  The wrapper around \<^verbatim>\<open>encoding/gob\<close> that warns about fields it would drop and about decoding into
  values that are already set (\<^verbatim>\<open>labgob/labgob.go\<close>). The types of a program, which may refer to each
  other and to themselves, are the entries of a list, and a type is its position. The codec itself
  and the table of upper-case runes are parameters.
\<close>

unbundle bit_operations_syntax

subsection \<open>Types\<close>

text \<open>
  The kinds that the code tells apart: a struct with the names and types of its fields, the kinds
  with an element type, maps with the types of their elements and keys, and all others.
\<close>

datatype tkind =
    Struct "(string \<times> nat) list"
  | Slice nat
  | Array nat
  | Ptr nat
  | MapOf nat nat
  | OtherKind

record type_info =
  ti_name :: string
  ti_kind :: tkind

type_synonym tenv = "type_info list"

text \<open>
  The package's variables: the number of warnings, the types seen so far (the map is nil at first)
  and, last, the lines printed.
\<close>

record gob_state =
  gs_errorCount :: int
  gs_checked :: "nat list option"
  gs_out :: "string list"

definition checked_of :: "gob_state \<Rightarrow> nat list" where
  "checked_of s = (case gs_checked s of None \<Rightarrow> [] | Some c \<Rightarrow> c)"

subsection \<open>Checking types\<close>

definition starts_upper :: "(nat \<Rightarrow> bool) \<Rightarrow> string \<Rightarrow> bool" where
  "starts_upper isUpper name = isUpper (fst (decode_rune name))"

definition complain :: "string \<Rightarrow> string \<Rightarrow> gob_state \<Rightarrow> gob_state" where
  "complain fname tname s = s\<lparr>gs_errorCount := gs_errorCount s + 1,
     gs_out := gs_out s @ [''labgob error: lower-case field '' @ fname @ '' of '' @ tname @ '' in RPC or persist/snapshot will break your Raft\<newline>'']\<rparr>"

text \<open>
  \<^verbatim>\<open>checkType\<close> calls itself on the types a type is made of; the first argument bounds the depth of
  the calls. The type of a nil value is nil, and asking for its kind panics.
\<close>

fun checkType :: "nat \<Rightarrow> (nat \<Rightarrow> bool) \<Rightarrow> tenv \<Rightarrow> nat \<Rightarrow> gob_state \<Rightarrow> gob_state go" where
  "checkType 0 isUpper env t s = Diverge"
| "checkType (Suc n) isUpper env t s = go_bind (go_nth env t) (\<lambda>ti.
     if List.member (checked_of s) t then Ret (s\<lparr>gs_checked := Some (checked_of s)\<rparr>)
     else let s1 = s\<lparr>gs_checked := Some (t # checked_of s)\<rparr> in
       (case ti_kind ti of
          Struct fs \<Rightarrow> fold_go (\<lambda>(fname, ft) s.
            checkType n isUpper env ft (if starts_upper isUpper fname = False then complain fname (ti_name ti) s else s)) fs s1
        | Slice e \<Rightarrow> checkType n isUpper env e s1
        | Array e \<Rightarrow> checkType n isUpper env e s1
        | Ptr e \<Rightarrow> checkType n isUpper env e s1
        | MapOf e k \<Rightarrow> go_bind (checkType n isUpper env e s1) (checkType n isUpper env k)
        | OtherKind \<Rightarrow> Ret s1))"

text \<open>\<open>t\<close>: the dynamic type of the value, \<open>None\<close> for nil.\<close>

definition checkValue :: "(nat \<Rightarrow> bool) \<Rightarrow> tenv \<Rightarrow> nat option \<Rightarrow> gob_state \<Rightarrow> gob_state go" where
  "checkValue isUpper env t s = (case t of
     None \<Rightarrow> Panic ''nil pointer dereference'' | Some t \<Rightarrow> checkType (Suc (length env)) isUpper env t s)"

subsection \<open>Checking values\<close>

text \<open>
  A value as \<^verbatim>\<open>reflect\<close> shows it: a struct with its fields (their names, whether they are embedded,
  and their values), a pointer, a value of a basic kind with the name of its type and whether it is
  deeply equal to the zero value of its type, or a value of another kind.
\<close>

datatype gval =
    VStruct "(string \<times> bool \<times> gval) list"
  | VPtr "gval option"
  | VBasic string bool
  | VOther

text \<open>
  How \<^verbatim>\<open>reflect\<close> has obtained a value: through exported fields only, through an unexported embedded
  field last, or through an unexported field. Reading a value of the last two kinds as an
  interface panics; what is reached through exported fields of an embedded struct is free again.
\<close>

datatype access = Free | EmbedRO | StickyRO

definition field_access :: "(nat \<Rightarrow> bool) \<Rightarrow> access \<Rightarrow> string \<Rightarrow> bool \<Rightarrow> access" where
  "field_access isUpper ac fname embedded =
     (if ac = StickyRO then StickyRO
      else if starts_upper isUpper fname then Free
      else if embedded then EmbedRO else StickyRO)"

definition warn_default :: "string \<Rightarrow> string \<Rightarrow> gob_state \<Rightarrow> gob_state" where
  "warn_default name tname s =
     (let what = (if name = [] then tname else name);
          out = (if gs_errorCount s < 1 then [''labgob warning: Decoding into a non-default variable/field '' @ what @ '' may not work\<newline>''] else [])
      in s\<lparr>gs_errorCount := gs_errorCount s + 1, gs_out := gs_out s @ out\<rparr>)"

function checkDefault1 :: "(nat \<Rightarrow> bool) \<Rightarrow> access \<Rightarrow> gval \<Rightarrow> nat \<Rightarrow> string \<Rightarrow> gob_state \<Rightarrow> gob_state go" where
  "checkDefault1 isUpper ac v depth name s =
     (if depth > 3 then Ret s
      else case v of
        VStruct fs \<Rightarrow> fold_go (\<lambda>(fname, embedded, fv) s.
          checkDefault1 isUpper (field_access isUpper ac fname embedded) fv (depth + 1)
            (if name \<noteq> [] then name @ ''.'' @ fname else fname) s) fs s
      | VPtr None \<Rightarrow> Ret s
      | VPtr (Some p) \<Rightarrow> checkDefault1 isUpper ac p (depth + 1) name s
      | VBasic tname zero \<Rightarrow>
          if ac \<noteq> Free then Panic ''reflect.Value.Interface: cannot return value obtained from unexported field or method''
          else if \<not> zero then Ret (warn_default name tname s) else Ret s
      | VOther \<Rightarrow> Ret s)"
  by auto
termination by (relation "measure (\<lambda>(_, _, _, depth, _, _). 4 - depth)") auto

declare checkDefault1.simps [simp del]

definition checkDefault :: "(nat \<Rightarrow> bool) \<Rightarrow> gval option \<Rightarrow> gob_state \<Rightarrow> gob_state go" where
  "checkDefault isUpper value s = (case value of None \<Rightarrow> Ret s | Some v \<Rightarrow> checkDefault1 isUpper Free v 1 [] s)"

subsection \<open>Encoding, decoding, registering\<close>

text \<open>
  \<open>gob\<close>: what the codec, or the registry, then does with the value or the target and its own state.
  A value is given by its dynamic type and how \<^verbatim>\<open>reflect\<close> shows it.
\<close>

type_synonym dyn = "(nat \<times> gval) option"

definition Encode :: "(nat \<Rightarrow> bool) \<Rightarrow> tenv \<Rightarrow> (dyn \<Rightarrow> 'g \<Rightarrow> 'r \<times> 'g) \<Rightarrow> dyn \<Rightarrow> gob_state \<times> 'g \<Rightarrow> ('r \<times> gob_state \<times> 'g) go" where
  "Encode isUpper env gob e sg = (case sg of (s, g) \<Rightarrow>
     go_bind (checkValue isUpper env (map_option fst e) s) (\<lambda>s'. case gob e g of (r, g') \<Rightarrow> Ret (r, s', g')))"

definition Decode :: "(nat \<Rightarrow> bool) \<Rightarrow> tenv \<Rightarrow> (dyn \<Rightarrow> 'g \<Rightarrow> 'r \<times> 'g) \<Rightarrow> dyn \<Rightarrow> gob_state \<times> 'g \<Rightarrow> ('r \<times> gob_state \<times> 'g) go" where
  "Decode isUpper env gob e sg = (case sg of (s, g) \<Rightarrow>
     go_bind (checkValue isUpper env (map_option fst e) s) (\<lambda>s1.
     go_bind (checkDefault isUpper (map_option snd e) s1) (\<lambda>s2. case gob e g of (r, g') \<Rightarrow> Ret (r, s2, g'))))"

definition Register :: "(nat \<Rightarrow> bool) \<Rightarrow> tenv \<Rightarrow> (dyn \<Rightarrow> 'g \<Rightarrow> 'g) \<Rightarrow> dyn \<Rightarrow> gob_state \<times> 'g \<Rightarrow> (gob_state \<times> 'g) go" where
  "Register isUpper env gob value sg = (case sg of (s, g) \<Rightarrow>
     go_bind (checkValue isUpper env (map_option fst value) s) (\<lambda>s'. Ret (s', gob value g)))"

definition RegisterName :: "(nat \<Rightarrow> bool) \<Rightarrow> tenv \<Rightarrow> (string \<Rightarrow> dyn \<Rightarrow> 'g \<Rightarrow> 'g) \<Rightarrow> string \<Rightarrow> dyn \<Rightarrow> gob_state \<times> 'g \<Rightarrow> (gob_state \<times> 'g) go" where
  "RegisterName isUpper env gob name value sg = (case sg of (s, g) \<Rightarrow>
     go_bind (checkValue isUpper env (map_option fst value) s) (\<lambda>s'. Ret (s', gob name value g)))"

subsection \<open>What a type check visits and reports\<close>

text \<open>The types that a type is made of, and the names of its fields that begin in lower case.\<close>

definition parts :: "tenv \<Rightarrow> nat \<Rightarrow> nat list" where
  "parts env t = (case ti_kind (env ! t) of
     Struct fs \<Rightarrow> map snd fs | Slice e \<Rightarrow> [e] | Array e \<Rightarrow> [e] | Ptr e \<Rightarrow> [e] | MapOf e k \<Rightarrow> [e, k] | OtherKind \<Rightarrow> [])"

definition lower_fields :: "(nat \<Rightarrow> bool) \<Rightarrow> tenv \<Rightarrow> nat \<Rightarrow> nat" where
  "lower_fields isUpper env t = (case ti_kind (env ! t) of
     Struct fs \<Rightarrow> length (filter (\<lambda>f. \<not> starts_upper isUpper (fst f)) fs) | _ \<Rightarrow> 0)"

definition wf_tenv :: "tenv \<Rightarrow> bool" where
  "wf_tenv env \<longleftrightarrow> list_all (\<lambda>t. list_all (\<lambda>u. u < length env) (parts env t)) [0..<length env]"

text \<open>All types that a type is made of, directly or through others.\<close>

inductive made_of :: "tenv \<Rightarrow> nat \<Rightarrow> nat \<Rightarrow> bool" for env where
  itself: "made_of env t t"
| part: "u \<in> set (parts env t) \<Longrightarrow> made_of env u v \<Longrightarrow> made_of env t v"

text \<open>
  What visiting the types \<open>ts\<close> does, with \<open>extra\<close> warnings of the caller's own: it adds types, each
  made from one of \<open>ts\<close> and with all its parts seen, \<open>ts\<close> among the seen, and it reports each
  lower-case field of each added type once.
\<close>

definition added :: "gob_state \<Rightarrow> gob_state \<Rightarrow> nat set" where
  "added s s' = set (checked_of s') - set (checked_of s)"

definition visits :: "(nat \<Rightarrow> bool) \<Rightarrow> tenv \<Rightarrow> nat list \<Rightarrow> nat \<Rightarrow> gob_state \<Rightarrow> gob_state \<Rightarrow> bool" where
  "visits isUpper env ts extra s s' \<longleftrightarrow>
     set (checked_of s) \<union> set ts \<subseteq> set (checked_of s') \<and>
     (\<forall>u\<in>added s s'. u < length env \<and> (\<exists>t\<in>set ts. made_of env t u) \<and> set (parts env u) \<subseteq> set (checked_of s')) \<and>
     gs_errorCount s' = gs_errorCount s + int extra + (\<Sum>u\<in>added s s'. int (lower_fields isUpper env u)) \<and>
     int (length (gs_out s')) - gs_errorCount s' = int (length (gs_out s)) - gs_errorCount s"

definition unseen :: "tenv \<Rightarrow> gob_state \<Rightarrow> nat" where
  "unseen env s = card ({..<length env} - set (checked_of s))"

lemma visits_refl: "set ts \<subseteq> set (checked_of s) \<Longrightarrow> visits isUpper env ts 0 s s"
  by (simp add: visits_def added_def)

lemma visits_trans:
  assumes a: "visits isUpper env ts1 e1 s s1" and b: "visits isUpper env ts2 e2 s1 s2"
  shows "visits isUpper env (ts1 @ ts2) (e1 + e2) s s2"
proof -
  have sub: "set (checked_of s) \<subseteq> set (checked_of s1)" "set (checked_of s1) \<subseteq> set (checked_of s2)"
    using a b by (auto simp: visits_def)
  then have un: "added s s2 = added s s1 \<union> added s1 s2" and disj: "added s s1 \<inter> added s1 s2 = {}"
    and fin: "finite (added s s1)" "finite (added s1 s2)"
    by (auto simp: added_def)
  have "\<forall>u\<in>added s s2. u < length env \<and> (\<exists>t\<in>set (ts1 @ ts2). made_of env t u) \<and> set (parts env u) \<subseteq> set (checked_of s2)"
  proof
    fix u assume "u \<in> added s s2"
    then consider "u \<in> added s s1" | "u \<in> added s1 s2" using un by blast
    then show "u < length env \<and> (\<exists>t\<in>set (ts1 @ ts2). made_of env t u) \<and> set (parts env u) \<subseteq> set (checked_of s2)"
    proof cases
      case 1
      then have "u < length env \<and> (\<exists>t\<in>set ts1. made_of env t u) \<and> set (parts env u) \<subseteq> set (checked_of s1)"
        using a unfolding visits_def by blast
      with sub(2) show ?thesis by auto
    next
      case 2
      then have "u < length env \<and> (\<exists>t\<in>set ts2. made_of env t u) \<and> set (parts env u) \<subseteq> set (checked_of s2)"
        using b unfolding visits_def by blast
      then show ?thesis by auto
    qed
  qed
  moreover have "(\<Sum>u\<in>added s s2. int (lower_fields isUpper env u)) =
      (\<Sum>u\<in>added s s1. int (lower_fields isUpper env u)) + (\<Sum>u\<in>added s1 s2. int (lower_fields isUpper env u))"
    unfolding un by (rule sum.union_disjoint[OF fin disj])
  ultimately show ?thesis using a b sub by (auto simp: visits_def)
qed

lemma unseen_mono: "set (checked_of s) \<subseteq> set (checked_of s') \<Longrightarrow> unseen env s' \<le> unseen env s"
  unfolding unseen_def by (rule card_mono) auto

lemma visits_root:
  assumes "t < length env" "t \<notin> set (checked_of s)"
    and v: "visits isUpper env (parts env t) (lower_fields isUpper env t) (s\<lparr>gs_checked := Some (t # checked_of s)\<rparr>) s'"
  shows "visits isUpper env [t] 0 s s'"
proof -
  let ?s1 = "s\<lparr>gs_checked := Some (t # checked_of s)\<rparr>"
  have c1: "checked_of ?s1 = t # checked_of s" by (simp add: checked_of_def)
  have sub: "insert t (set (checked_of s)) \<union> set (parts env t) \<subseteq> set (checked_of s')" using v c1 by (simp add: visits_def)
  then have ad: "added s s' = insert t (added ?s1 s')" and new: "t \<notin> added ?s1 s'" "finite (added ?s1 s')"
    using assms(2) by (auto simp: added_def c1)
  have "\<forall>u\<in>added s s'. u < length env \<and> (\<exists>t\<in>set [t]. made_of env t u) \<and> set (parts env u) \<subseteq> set (checked_of s')"
    unfolding ad using v assms(1) sub by (auto simp: visits_def intro: made_of.intros)
  moreover have "(\<Sum>u\<in>added s s'. int (lower_fields isUpper env u)) =
      int (lower_fields isUpper env t) + (\<Sum>u\<in>added ?s1 s'. int (lower_fields isUpper env u))"
    unfolding ad by (rule sum.insert[OF new(2,1)])
  ultimately show ?thesis using v sub by (simp add: visits_def)
qed

lemma visits_complain: "visits isUpper env [] 1 s (complain f t s)"
  by (simp add: visits_def added_def complain_def checked_of_def)

lemma visit_fields:
  assumes visit: "\<And>t s. t < length env \<Longrightarrow> unseen env s < n \<Longrightarrow> \<exists>s'. checkType n isUpper env t s = Ret s' \<and> visits isUpper env [t] 0 s s'"
    and "\<forall>f\<in>set fs. snd f < length env" "unseen env s < n"
  shows "\<exists>s'. fold_go (\<lambda>(fname, ft) s. checkType n isUpper env ft
      (if starts_upper isUpper fname = False then complain fname tname s else s)) fs s = Ret s' \<and>
    visits isUpper env (map snd fs) (length (filter (\<lambda>f. \<not> starts_upper isUpper (fst f)) fs)) s s'"
  using assms(2,3)
proof (induction fs arbitrary: s)
  case Nil
  then show ?case by (simp add: visits_refl)
next
  case (Cons f fs)
  obtain fname ft where f: "f = (fname, ft)" by (cases f)
  define e where "e = (if starts_upper isUpper fname then 0 else 1 :: nat)"
  define s1 where "s1 = (if starts_upper isUpper fname = False then complain fname tname s else s)"
  have v1: "visits isUpper env [] e s s1"
    using visits_complain[of isUpper env s fname tname] visits_refl[of "[]" s] by (auto simp: e_def s1_def)
  then have u1: "unseen env s1 < n" using Cons.prems(2) unseen_mono[of s s1 env] by (simp add: visits_def)
  from visit[OF _ u1, of ft] Cons.prems(1) f obtain s2 where s2: "checkType n isUpper env ft s1 = Ret s2" "visits isUpper env [ft] 0 s1 s2" by auto
  have "unseen env s2 < n" using u1 s2(2) unseen_mono[of s1 s2 env] by (simp add: visits_def)
  from Cons.IH[OF _ this] Cons.prems(1) obtain s' where s':
    "fold_go (\<lambda>(fname, ft) s. checkType n isUpper env ft (if starts_upper isUpper fname = False then complain fname tname s else s)) fs s2 = Ret s'"
    "visits isUpper env (map snd fs) (length (filter (\<lambda>f. \<not> starts_upper isUpper (fst f)) fs)) s2 s'" by auto
  have "visits isUpper env (([] @ [ft]) @ map snd fs) (e + 0 + length (filter (\<lambda>f. \<not> starts_upper isUpper (fst f)) fs)) s s'"
    by (rule visits_trans[OF visits_trans[OF v1 s2(2)] s'(2)])
  with s2(1) s'(1) show ?case by (auto simp: f s1_def e_def)
qed

lemma checkType_visits:
  assumes wf: "wf_tenv env"
  shows "t < length env \<Longrightarrow> unseen env s < n \<Longrightarrow> \<exists>s'. checkType n isUpper env t s = Ret s' \<and> visits isUpper env [t] 0 s s'"
proof (induction n arbitrary: t s)
  case (Suc n)
  show ?case
  proof (cases "t \<in> set (checked_of s)")
    case True
    have "visits isUpper env [t] 0 s (s\<lparr>gs_checked := Some (checked_of s)\<rparr>)"
      using True by (simp add: visits_def added_def checked_of_def)
    with True Suc.prems show ?thesis by simp
  next
    case False
    let ?s1 = "s\<lparr>gs_checked := Some (t # checked_of s)\<rparr>"
    have c1: "checked_of ?s1 = t # checked_of s" by (simp add: checked_of_def)
    have u1: "unseen env ?s1 < n"
    proof -
      have "{..<length env} - set (checked_of ?s1) \<subset> {..<length env} - set (checked_of s)"
        using False Suc.prems(1) by (auto simp: c1)
      from psubset_card_mono[OF _ this] Suc.prems(2) show ?thesis by (simp add: unseen_def)
    qed
    have parts: "u < length env" if "u \<in> set (parts env t)" for u
      using wf Suc.prems(1) that by (auto simp: wf_tenv_def list_all_iff)
    have "\<exists>s'. checkType (Suc n) isUpper env t s = Ret s' \<and> visits isUpper env (parts env t) (lower_fields isUpper env t) ?s1 s'"
    proof (cases "ti_kind (env ! t)")
      case (Struct fs)
      with parts have "\<forall>f\<in>set fs. snd f < length env" by (auto simp: parts_def)
      from visit_fields[OF Suc.IH this u1, where tname = "ti_name (env ! t)"] Struct False Suc.prems(1)
      show ?thesis by (simp add: parts_def lower_fields_def Let_def)
    next
      case (MapOf e k)
      with parts have ek: "e < length env" "k < length env" by (auto simp: parts_def)
      from Suc.IH[OF ek(1) u1] obtain s2 where s2: "checkType n isUpper env e ?s1 = Ret s2" "visits isUpper env [e] 0 ?s1 s2" by blast
      have "unseen env s2 < n" using u1 s2(2) unseen_mono[of ?s1 s2 env] by (simp add: visits_def)
      from Suc.IH[OF ek(2) this] obtain s' where s': "checkType n isUpper env k s2 = Ret s'" "visits isUpper env [k] 0 s2 s'" by blast
      from visits_trans[OF s2(2) s'(2)] MapOf False Suc.prems(1) s2(1) s'(1)
      show ?thesis by (simp add: parts_def lower_fields_def Let_def)
    qed (use Suc.IH[OF _ u1] parts False Suc.prems(1) in \<open>auto simp: parts_def lower_fields_def Let_def visits_refl\<close>)
    with visits_root[OF Suc.prems(1) False] show ?thesis by blast
  qed
qed simp

text \<open>The seen types are closed when all parts of a seen type are seen, as between two calls.\<close>

definition closed_seen :: "tenv \<Rightarrow> gob_state \<Rightarrow> bool" where
  "closed_seen env s \<longleftrightarrow> (\<forall>u\<in>set (checked_of s). set (parts env u) \<subseteq> set (checked_of s))"

lemma closed_seen_made_of: "made_of env t u \<Longrightarrow> closed_seen env s \<Longrightarrow> t \<in> set (checked_of s) \<Longrightarrow> u \<in> set (checked_of s)"
  by (induction rule: made_of.induct) (auto simp: closed_seen_def)

text \<open>
  Property C40: checking a type comes back, even for types that contain themselves. It marks exactly
  the types that the type is made of as seen, prints one line and counts one error for every
  lower-case field of the structs among them that were not seen before, and checking the type
  again reports nothing.
\<close>

theorem checkValue_reports_each_field_once:
  assumes "wf_tenv env" "t < length env" "closed_seen env s"
  shows "\<exists>s'. checkValue isUpper env (Some t) s = Ret s' \<and>
    set (checked_of s') = set (checked_of s) \<union> {u. made_of env t u} \<and> closed_seen env s' \<and>
    gs_errorCount s' = gs_errorCount s + (\<Sum>u | made_of env t u \<and> u \<notin> set (checked_of s). int (lower_fields isUpper env u)) \<and>
    int (length (gs_out s')) - int (length (gs_out s)) = gs_errorCount s' - gs_errorCount s \<and>
    checkValue isUpper env (Some t) s' = Ret s'"
proof -
  have "unseen env s \<le> length env" unfolding unseen_def by (metis card_lessThan card_mono finite_lessThan Diff_subset)
  then have "unseen env s < Suc (length env)" by simp
  from checkType_visits[OF assms(1,2) this, of isUpper] obtain s' where
    run: "checkValue isUpper env (Some t) s = Ret s'" and v: "visits isUpper env [t] 0 s s'" by (auto simp: checkValue_def)
  have t: "t \<in> set (checked_of s')" and old: "set (checked_of s) \<subseteq> set (checked_of s')" using v by (auto simp: visits_def)
  have new: "made_of env t u" "set (parts env u) \<subseteq> set (checked_of s')" if "u \<in> added s s'" for u
    using v that by (auto simp: visits_def)
  have cl: "closed_seen env s'"
    using assms(3) old new(2) by (fastforce simp: closed_seen_def added_def)
  then have all: "made_of env t u \<Longrightarrow> u \<in> set (checked_of s')" for u using closed_seen_made_of[OF _ cl t] by blast
  have ad: "added s s' = {u. made_of env t u \<and> u \<notin> set (checked_of s)}"
    using new(1) all by (auto simp: added_def)
  have seen: "set (checked_of s') = set (checked_of s) \<union> {u. made_of env t u}"
    using ad old all by (auto simp: added_def)
  obtain c where "gs_checked s' = Some c" using t by (cases "gs_checked s'") (simp_all add: checked_of_def)
  then have "s'\<lparr>gs_checked := Some (checked_of s')\<rparr> = s'" by (simp add: checked_of_def)
  then have again: "checkValue isUpper env (Some t) s' = Ret s'" using t assms(2) by (simp add: checkValue_def)
  show ?thesis using run seen cl again v by (auto simp: visits_def ad)
qed

text \<open>Two types that contain each other, the second with a lower-case field.\<close>

definition ex_tenv :: tenv where
  "ex_tenv = [\<lparr>ti_name = ''T'', ti_kind = Struct [(''Next'', 1), (''M'', 2)]\<rparr>, \<lparr>ti_name = [], ti_kind = Ptr 3\<rparr>,
     \<lparr>ti_name = [], ti_kind = MapOf 3 4\<rparr>, \<lparr>ti_name = ''U'', ti_kind = Struct [(''Back'', 0), (''no'', 4)]\<rparr>, \<lparr>ti_name = ''int'', ti_kind = OtherKind\<rparr>]"

definition ascii_upper :: "nat \<Rightarrow> bool" where
  "ascii_upper r \<longleftrightarrow> 65 \<le> r \<and> r \<le> 90"

definition gob_start :: gob_state where
  "gob_start = \<lparr>gs_errorCount = 0, gs_checked = None, gs_out = []\<rparr>"

theorem checkValue_reports_each_field_once_witness:
  "wf_tenv ex_tenv \<and> closed_seen ex_tenv gob_start \<and>
   (\<exists>s'. checkValue ascii_upper ex_tenv (Some 0) gob_start = Ret s' \<and> gs_errorCount s' = 1 \<and> closed_seen ex_tenv s' \<and>
      checkValue ascii_upper ex_tenv (Some 0) s' = Ret s' \<and> made_of ex_tenv 0 4 \<and> 4 \<in> set (checked_of s'))"
proof -
  have wf: "wf_tenv ex_tenv" by code_simp
  have cl: "closed_seen ex_tenv gob_start" by (simp add: closed_seen_def checked_of_def gob_start_def)
  have l: "0 < length ex_tenv" by (simp add: ex_tenv_def)
  have "case checkValue ascii_upper ex_tenv (Some 0) gob_start of Ret s' \<Rightarrow> gs_errorCount s' = 1 \<and> 4 \<in> set (checked_of s') | _ \<Rightarrow> False"
    by code_simp
  then obtain s' where run: "checkValue ascii_upper ex_tenv (Some 0) gob_start = Ret s'" "gs_errorCount s' = 1" "4 \<in> set (checked_of s')"
    by (auto split: go.splits)
  from checkValue_reports_each_field_once[OF wf l cl, of ascii_upper] run(1)
  have "set (checked_of s') = set (checked_of gob_start) \<union> {u. made_of ex_tenv 0 u}" "closed_seen ex_tenv s'"
    "checkValue ascii_upper ex_tenv (Some 0) s' = Ret s'" by auto
  with run wf cl show ?thesis by (auto simp: checked_of_def gob_start_def)
qed

subsection \<open>What a check of a target reports\<close>

text \<open>A value all of whose basic parts are zero, and which \<^verbatim>\<open>reflect\<close> may read.\<close>

fun fresh_value :: "(nat \<Rightarrow> bool) \<Rightarrow> gval \<Rightarrow> bool" where
  "fresh_value isUpper (VStruct fs) = list_all (\<lambda>(fname, _, v). starts_upper isUpper fname \<and> fresh_value isUpper v) fs"
| "fresh_value isUpper (VPtr None) = True"
| "fresh_value isUpper (VPtr (Some v)) = fresh_value isUpper v"
| "fresh_value isUpper (VBasic tname zero) = zero"
| "fresh_value isUpper VOther = True"

lemma fresh_value_silent: "fresh_value isUpper v \<Longrightarrow> checkDefault1 isUpper Free v depth name s = Ret s"
proof (induction v arbitrary: depth name s)
  case (VStruct fs)
  have "fold_go (\<lambda>(fname, embedded, fv) s. checkDefault1 isUpper (field_access isUpper Free fname embedded) fv (depth + 1)
      (if name \<noteq> [] then name @ ''.'' @ fname else fname) s) fs s = Ret s"
    using VStruct by (induction fs) (fastforce simp: field_access_def snds.simps)+
  then show ?case by (simp add: checkDefault1.simps[of _ _ "VStruct fs"])
next
  case (VPtr p)
  then show ?case by (cases p) (simp_all add: checkDefault1.simps[of _ _ "VPtr p" for p])
qed (simp_all add: checkDefault1.simps)

text \<open>
  The check of a target does not warn about a lower-case field of a basic kind but panics: \<^verbatim>\<open>reflect\<close>
  refuses to hand out the value of an unexported field.
\<close>

lemma lower_case_target_panics:
  assumes "\<not> starts_upper isUpper f"
  shows "checkDefault isUpper (Some (VPtr (Some (VStruct [(f, False, VBasic t zero)])))) s =
    Panic ''reflect.Value.Interface: cannot return value obtained from unexported field or method''"
  using assms by (simp add: checkDefault_def checkDefault1.simps field_access_def)

end
