(* ===== verification/Tester_Running.thy ===== *)
theory Tester_Running
  imports Tester_Config
begin

text \<open>
  Groups that run (\<^verbatim>\<open>tester1/srv.go\<close>, \<^verbatim>\<open>tester1/group.go\<close>): every server of the group has been started, is on the network under
  its name and is linked to all servers of the group. Making and starting a group brings it into this state, and spares the groups
  that run already: no end, no server and no link of theirs is touched.
\<close>

definition srv_up :: "('s, 'v) gs \<Rightarrow> nat \<Rightarrow> bool" where
  "srv_up g i \<longleftrightarrow> (case g of (sg, st) \<Rightarrow> i < length (sg_srvs sg) \<and> sr_svcs (sg_srvs sg ! i) \<noteq> None \<and>
     (\<exists>a. lookup_server (t_net st) (ServerName (sg_gid sg) (int i)) = Some a \<and> t_heap st a \<noteq> None))"

definition grp_up :: "nat \<Rightarrow> ('s, 'v) gs \<Rightarrow> bool" where
  "grp_up n g \<longleftrightarrow> length (sg_srvs (fst g)) = n \<and> (\<forall>a<n. srv_up g a \<and> (\<forall>b<n. grp_link g a b))"

subsection \<open>Server names\<close>

lemma ServerName_inj:
  assumes "ServerName g (int i) = ServerName h (int j)"
  shows "g = h \<and> i = j"
proof -
  have "itoa g @ CHR ''-'' # utoa i = itoa h @ CHR ''-'' # utoa j"
    using assms by (simp add: ServerName_def itoa_def[of "int _"])
  then have "itoa g = itoa h \<and> utoa i = utoa j"
    by (rule last_split) (rule utoa_no_minus)+
  then show ?thesis by (auto dest: itoa_inj utoa_inj)
qed

lemma ServerName_eq [simp]: "ServerName g (int i) = ServerName h (int j) \<longleftrightarrow> g = h \<and> i = j"
  by (auto dest: ServerName_inj)

subsection \<open>What an operation of another group leaves alone\<close>

text \<open>
  From \<open>st\<close> to \<open>st'\<close> only the group \<open>gid\<close> was touched: the ends with one of the first \<open>d\<close> names drawn, and the servers of
  all other groups, are as they were.
\<close>

definition spares :: "(nat \<Rightarrow> string) \<Rightarrow> nat \<Rightarrow> tgid \<Rightarrow> ('s, 'v) tstate \<Rightarrow> ('s, 'v) tstate \<Rightarrow> bool" where
  "spares rand d gid st st' \<longleftrightarrow> (\<forall>e. e \<notin> rand ` {d..} \<longrightarrow> is_enabled (t_net st') e = is_enabled (t_net st) e) \<and>
     (\<forall>h i. h \<noteq> gid \<longrightarrow> lookup_server (t_net st') (ServerName h (int i)) = lookup_server (t_net st) (ServerName h (int i))) \<and>
     (\<forall>a. t_heap st a \<noteq> None \<longrightarrow> t_heap st' a \<noteq> None) \<and> t_draws st \<le> t_draws st'"

lemma spares_refl: "spares rand d gid st st"
  by (simp add: spares_def)

lemma spares_trans: "spares rand d gid st st1 \<Longrightarrow> spares rand d gid st1 st2 \<Longrightarrow> spares rand d gid st st2"
  by (simp add: spares_def)

text \<open>A group with other names of ends keeps running.\<close>

lemma grp_up_spared:
  assumes up: "grp_up n (sg, st)" and sp: "spares rand d gid st st'" and g: "sg_gid sg \<noteq> gid" and inj: "inj rand"
    and ends: "\<forall>s\<in>set (sg_srvs sg). set (end_names s) \<subseteq> rand ` {..<d}" and len: "\<forall>s\<in>set (sg_srvs sg). length (end_names s) = n"
  shows "grp_up n (sg, st')"
proof -
  have n: "length (sg_srvs sg) = n" using up by (simp add: grp_up_def)
  have "is_enabled (t_net st') (grp_end sg a b) = is_enabled (t_net st) (grp_end sg a b)" if "a < n" "b < n" for a b
  proof -
    have "sg_srvs sg ! a \<in> set (sg_srvs sg)" using that n by simp
    then have "end_names (sg_srvs sg ! a) ! b \<in> rand ` {..<d}" using ends len that(2) by (metis nth_mem subset_iff)
    then have "grp_end sg a b \<notin> rand ` {d..}" using inj by (auto simp: grp_end_def inj_eq)
    then show ?thesis using sp by (simp add: spares_def)
  qed
  then have link: "grp_link (sg, st') a b = grp_link (sg, st) a b" if "a < n" "b < n" for a b using that by (simp add: grp_link_def)
  have "srv_up (sg, st) a \<Longrightarrow> srv_up (sg, st') a" for a using sp g by (auto simp: srv_up_def spares_def)
  then show ?thesis using up link by (simp add: grp_up_def)
qed

subsection \<open>Making and starting\<close>

text \<open>What holds along a loop that returned.\<close>

lemma fold_go_along:
  assumes "fold_go f xs s = Ret s'" "P vis s" "\<And>vis x s s'. P vis s \<Longrightarrow> f x s = Ret s' \<Longrightarrow> P (vis @ [x]) s'"
  shows "P (vis @ xs) s'"
  using assms(1,2)
proof (induction xs arbitrary: s vis)
  case (Cons x xs)
  then obtain s1 where "f x s = Ret s1" "fold_go f xs s1 = Ret s'" by (auto simp: go_bind_Ret_iff)
  then show ?case using Cons.IH[of s1 "vis @ [x]"] assms(3)[OF Cons.prems(2)] by simp
qed simp

lemmas fold_go_along_Nil = fold_go_along [where vis = "[]", simplified]

lemma make_ends_spares:
  assumes "make_ends rand gid j k st = Ret (ns, st')" "d \<le> t_draws st"
  shows "set ns \<subseteq> rand ` {d..} \<and> spares rand d h st st' \<and> rn_servers (t_net st') = rn_servers (t_net st)"
  using assms
proof (induction k arbitrary: j st ns)
  case (Suc k)
  let ?n = "rand (t_draws st)"
  obtain net ms where r: "MakeEnd ?n (t_net st) = Ret (?n, net)" "ns = ?n # ms"
    "make_ends rand gid (Suc j) k (st\<lparr>t_net := Connect ?n (ServerName gid (int j)) net, t_draws := Suc (t_draws st)\<rparr>) = Ret (ms, st')"
    using Suc.prems(1) by (auto simp: Let_def go_bind_Ret_iff MakeEnd_def split: if_splits)
  have n: "rn_servers net = rn_servers (t_net st)" "rn_enabled net = (rn_enabled (t_net st))(?n \<mapsto> False)"
    using r(1) by (auto simp: MakeEnd_def split: if_splits)
  have "?n \<in> rand ` {d..}" using Suc.prems(2) by simp
  then have "spares rand d h st (st\<lparr>t_net := Connect ?n (ServerName gid (int j)) net, t_draws := Suc (t_draws st)\<rparr>)"
    using n by (auto simp: spares_def is_enabled_def Connect_def lookup_server_def)
  then show ?case using Suc.IH[OF r(3)] Suc.prems(2) r(2) n(1) spares_trans by (fastforce simp: Connect_def)
qed (simp add: spares_refl)

text \<open>What holds of a group while it is made: its ends are new, and the others have been spared since \<open>st0\<close>.\<close>

definition own :: "(nat \<Rightarrow> string) \<Rightarrow> ('s, 'v) tstate \<Rightarrow> tgid \<Rightarrow> ('s, 'v) gs \<Rightarrow> bool" where
  "own rand st0 gid g \<longleftrightarrow> sg_gid (fst g) = gid \<and> (\<forall>s\<in>set (sg_srvs (fst g)). set (end_names s) \<subseteq> rand ` {t_draws st0..}) \<and>
     spares rand (t_draws st0) gid st0 (snd g)"

lemma makeSrvGrp_own:
  assumes "makeSrvGrp rand gid n mks st = Ret (sg, st')"
  shows "own rand st gid (sg, st')"
proof -
  have ms: "(\<forall>s\<in>set ss. set (end_names s) \<subseteq> rand ` {d..}) \<and> spares rand d gid st st'"
    if "make_servers rand gid n k st = Ret (ss, st')" "d \<le> t_draws st" for k d ss and st st' :: "('a, 'b) tstate"
    using that
  proof (induction k arbitrary: st ss)
    case (Suc k)
    then obtain ns st1 ss' where r: "make_ends rand gid 0 n st = Ret (ns, st1)" "make_servers rand gid n k st1 = Ret (ss', st')"
      "ss = \<lparr>sr_saved = None, sr_svcs = None, sr_endNames = Some ns, sr_clntEnds = ns\<rparr> # ss'"
      by (auto simp: go_bind_Ret_iff makeServer_def)
    from make_ends_spares[OF r(1) Suc.prems(2), of gid] have m: "set ns \<subseteq> rand ` {d..}" "spares rand d gid st st1" by simp_all
    then have "d \<le> t_draws st1" using Suc.prems(2) by (simp add: spares_def)
    from Suc.IH[OF r(2) this] show ?case using m r(3) spares_trans[OF m(2)] by simp
  qed (simp add: spares_refl)
  from assms obtain ss where s: "make_servers rand gid n n st = Ret (ss, st')" "sg_srvs sg = ss" "sg_gid sg = gid"
    by (auto simp: makeSrvGrp_def go_bind_Ret_iff)
  from ms[OF s(1) order_refl] show ?thesis by (simp add: own_def s(2,3))
qed

lemma StartServer_run:
  assumes "StartServer rand i (sg, st) = Ret (sg', st')"
  shows "\<exists>srv st1 a. i < length (sg_srvs sg) \<and> sg' = sg\<lparr>sg_srvs := (sg_srvs sg)[i := srv]\<rparr> \<and> sr_svcs srv \<noteq> None \<and>
    make_ends rand (sg_gid sg) 0 (length (end_names (sg_srvs sg ! i))) st = Ret (end_names srv, st1) \<and>
    t_net st' = AddServer (ServerName (sg_gid sg) (int i)) a (t_net st1) \<and> t_heap st' a \<noteq> None \<and>
    (\<forall>b. t_heap st1 b \<noteq> None \<longrightarrow> t_heap st' b \<noteq> None) \<and> t_draws st' = t_draws st1"
  using assms
  by (fastforce simp: StartServer_def startServer_def makeServer_def copy_persister_def new_persister_def go_bind_Ret_iff go_nth_def
      Let_def case_prod_unfold end_names_def split: if_splits)

lemma StartServer_own:
  assumes "own rand st0 gid g" "StartServer rand i g = Ret g'"
  shows "own rand st0 gid g' \<and> srv_up g' i \<and> length (sg_srvs (fst g')) = length (sg_srvs (fst g)) \<and> (\<forall>j. srv_up g j \<longrightarrow> srv_up g' j)"
proof -
  obtain sg st sg' st' where g: "g = (sg, st)" "g' = (sg', st')" by fastforce
  note o = assms(1)[unfolded g own_def, simplified]
  from StartServer_run[OF assms(2)[unfolded g]] obtain srv st1 a where
    r: "i < length (sg_srvs sg)" "sg' = sg\<lparr>sg_srvs := (sg_srvs sg)[i := srv]\<rparr>" "sr_svcs srv \<noteq> None"
    "make_ends rand (sg_gid sg) 0 (length (end_names (sg_srvs sg ! i))) st = Ret (end_names srv, st1)"
    "t_net st' = AddServer (ServerName (sg_gid sg) (int i)) a (t_net st1)" "t_heap st' a \<noteq> None"
    "\<forall>b. t_heap st1 b \<noteq> None \<longrightarrow> t_heap st' b \<noteq> None" "t_draws st' = t_draws st1" by blast
  let ?d = "t_draws st0"
  have d: "?d \<le> t_draws st" using o by (simp add: spares_def)
  note m = make_ends_spares[OF r(4) d, of gid]
  have "spares rand ?d gid st1 st'" using r(5,7,8) o by (auto simp: spares_def AddServer_def is_enabled_def lookup_server_def)
  then have "spares rand ?d gid st0 st'" using o m spares_trans by blast
  moreover have "\<forall>s\<in>set (sg_srvs sg'). set (end_names s) \<subseteq> rand ` {?d..}"
  proof
    fix s assume "s \<in> set (sg_srvs sg')"
    then have "s = srv \<or> s \<in> set (sg_srvs sg)" using r(2) set_update_subset_insert[of "sg_srvs sg" i srv] by auto
    then show "set (end_names s) \<subseteq> rand ` {?d..}" using o m by blast
  qed
  ultimately have "own rand st0 gid g'" using o r(2) by (simp add: own_def g)
  moreover have "srv_up g' i" using r by (auto simp: srv_up_def g AddServer_def lookup_server_def)
  moreover have "srv_up g' j" if up: "srv_up g j" for j
  proof (cases "j = i")
    case False
    have "lookup_server (t_net st') (ServerName (sg_gid sg) (int j)) = lookup_server (t_net st) (ServerName (sg_gid sg) (int j))"
      using False m r(5) by (simp add: AddServer_def lookup_server_def)
    moreover have "t_heap st b \<noteq> None \<longrightarrow> t_heap st' b \<noteq> None" for b using m r(7) by (simp add: spares_def)
    ultimately show ?thesis using up False r(2) by (auto simp: srv_up_def g)
  qed (use \<open>srv_up g' i\<close> in simp)
  ultimately show ?thesis using r(2) by (simp add: g)
qed

text \<open>Connecting a server of the group enables ends of the group and nothing else.\<close>

definition only_enables :: "string set \<Rightarrow> ('s, 'v) tstate \<Rightarrow> ('s, 'v) tstate \<Rightarrow> bool" where
  "only_enables es st st' \<longleftrightarrow> (\<forall>e. e \<notin> es \<longrightarrow> is_enabled (t_net st') e = is_enabled (t_net st) e) \<and>
     rn_servers (t_net st') = rn_servers (t_net st) \<and> t_heap st' = t_heap st \<and> t_draws st' = t_draws st"

lemma only_enables_end: "only_enables es st0 st \<Longrightarrow> e \<in> es \<Longrightarrow> only_enables es st0 (enable_end e b st)"
  by (auto simp: only_enables_def enable_end_def Enable_def is_enabled_def)

lemma go_nth_mem: "go_nth xs i = Ret x \<Longrightarrow> x \<in> set xs"
  by (auto simp: go_nth_def split: if_splits)

lemma grp_connect_only:
  assumes "grp_connect i to (sg, st) = Ret (sg', st')"
  shows "(\<exists>c. sg' = sg\<lparr>sg_connected := c\<rparr>) \<and> only_enables (\<Union>s\<in>set (sg_srvs sg). set (end_names s)) st st'"
proof -
  let ?es = "\<Union>s\<in>set (sg_srvs sg). set (end_names s)"
  from assms obtain s st1 where r: "set_connected i True sg = Ret sg'" "go_nth (sg_srvs sg') i = Ret s" "srv_connect (sg_connected sg') s to st = Ret st1"
    "fold_go (\<lambda>j st. go_bind (IsConnected sg' j) (\<lambda>c.
         if c then go_bind (go_nth (sg_srvs sg') j) (\<lambda>sj. go_bind (go_nth (end_names sj) i) (\<lambda>e. Ret (enable_end e True st)))
         else Ret st)) to st1 = Ret st'"
    by (auto simp: grp_connect_def go_bind_Ret_iff)
  have sg': "\<exists>c. sg' = sg\<lparr>sg_connected := c\<rparr>" using r(1) by (auto simp: set_connected_def split: if_splits)
  then have srvs: "sg_srvs sg' = sg_srvs sg" by auto
  have s: "s \<in> set (sg_srvs sg)" using go_nth_mem[OF r(2)] srvs by simp
  have "only_enables ?es st st1"
    by (rule fold_go_along_Nil[OF r(3)[unfolded srv_connect_def], of "\<lambda>_. only_enables ?es st"])
      (use s in \<open>auto simp: only_enables_def[of _ st st] go_bind_Ret_iff split: if_splits dest!: go_nth_mem intro!: only_enables_end\<close>)
  then have "only_enables ?es st st'"
    by (intro fold_go_along_Nil[OF r(4), of "\<lambda>_. only_enables ?es st"])
      (use srvs in \<open>auto simp: go_bind_Ret_iff split: if_splits dest!: go_nth_mem intro!: only_enables_end\<close>)
  then show ?thesis using sg' by blast
qed

lemma ConnectOne_own:
  assumes "own rand st0 gid g" "ConnectOne i g = Ret g'"
  shows "own rand st0 gid g' \<and> length (sg_srvs (fst g')) = length (sg_srvs (fst g)) \<and> (\<forall>j. srv_up g j \<longrightarrow> srv_up g' j)"
proof -
  obtain sg st sg' st' where g: "g = (sg, st)" "g' = (sg', st')" by fastforce
  from grp_connect_only[of i "grp_all sg" sg st sg' st'] assms(2) obtain c where
    c: "sg' = sg\<lparr>sg_connected := c\<rparr>" and e: "only_enables (\<Union>s\<in>set (sg_srvs sg). set (end_names s)) st st'"
    by (auto simp: ConnectOne_def g)
  have o: "\<forall>s\<in>set (sg_srvs sg). set (end_names s) \<subseteq> rand ` {t_draws st0..}" "spares rand (t_draws st0) gid st0 st"
    using assms(1) by (simp_all add: own_def g)
  have "spares rand (t_draws st0) gid st st'" using e o(1) by (fastforce simp: spares_def only_enables_def lookup_server_def)
  from spares_trans[OF o(2) this] have "own rand st0 gid g'" using assms(1) c by (simp add: own_def g)
  moreover have "srv_up g j \<longrightarrow> srv_up g' j" for j using c e by (auto simp: srv_up_def g only_enables_def lookup_server_def)
  ultimately show ?thesis using c by (simp add: g)
qed

lemma StartServers_own:
  assumes "own rand st0 gid g" "StartServers rand g = Ret g'"
  shows "own rand st0 gid g' \<and> length (sg_srvs (fst g')) = length (sg_srvs (fst g)) \<and> (\<forall>i<length (sg_srvs (fst g)). srv_up g' i)"
proof -
  let ?n = "length (sg_srvs (fst g))"
  obtain g1 where g1: "fold_go (StartServer rand) [0..<?n] g = Ret g1" "fold_go ConnectOne [0..<length (sg_srvs (fst g1))] g1 = Ret g'"
    using assms(2) by (auto simp: StartServers_def grp_start_def ConnectAll_def go_bind_Ret_iff)
  have a: "own rand st0 gid g1 \<and> length (sg_srvs (fst g1)) = ?n \<and> (\<forall>i\<in>set [0..<?n]. srv_up g1 i)"
    by (rule fold_go_along_Nil[OF g1(1), of "\<lambda>vis g. own rand st0 gid g \<and> length (sg_srvs (fst g)) = ?n \<and> (\<forall>i\<in>set vis. srv_up g i)"])
      (use assms(1) in \<open>auto dest: StartServer_own\<close>)
  have "own rand st0 gid g' \<and> length (sg_srvs (fst g')) = ?n \<and> (\<forall>i<?n. srv_up g' i)"
    by (rule fold_go_along_Nil[OF g1(2), of "\<lambda>_ g. own rand st0 gid g \<and> length (sg_srvs (fst g)) = ?n \<and> (\<forall>i<?n. srv_up g i)"])
      (use a in \<open>auto dest: ConnectOne_own\<close>)
  then show ?thesis .
qed

text \<open>
  Making and starting a group on a network with fresh names: it runs, its ends have new names, and the groups from before are spared.
\<close>

lemma makeSrvGrp_StartServers_up:
  assumes "fresh_names rand st" "makeSrvGrp rand gid n mks st = Ret (sg, st1)" "StartServers rand (sg, st1) = Ret (sg', st')"
  shows "grp_up n (sg', st') \<and> sg_gid sg' = gid \<and> spares rand (t_draws st) gid st st'"
proof -
  have ok: "grp_ok rand n (sg, st1)" using makeSrvGrp_ok[OF assms(1), of gid n mks] assms(2) by simp
  have links: "\<forall>a<n. \<forall>b<n. grp_link (sg', st') a b" using StartServers_ok[OF ok] assms(3) by auto
  have "length (sg_srvs sg) = n" using grp_ok_wf[OF ok] by (simp add: wf_group_def)
  with StartServers_own[OF makeSrvGrp_own[OF assms(2)] assms(3)] links show ?thesis by (simp add: own_def grp_up_def)
qed

end
