(* ===== verification/Shardkv_Test.thy ===== *)
theory Shardkv_Test
  imports Shard_Config Tester_Running Rsm_Harness
begin

text \<open>
  How the tests of the sharded service change the set of groups (\<^verbatim>\<open>shardkv1/test.go\<close>): they start the
  servers of a group, ask the controller for the configuration, join or leave in a copy of it and
  hand the copy back. The controller is a stub in the repository: its methods are parameters, and
  what they are documented to do is a hypothesis. The lemmas compose the groups of the tester with
  the operations on configurations.
\<close>

definition SHARD_NSRV :: nat where
  "SHARD_NSRV = 3"

definition Gid1 :: tgid where
  "Gid1 = 1"

text \<open>
  A test: the configuration of the tester, what the controllers share, and the next group
  identifier.
\<close>

record ('s, 'v, 'k) sktest =
  sk_cfg :: "('s, 'v) config"
  sk_ctl :: 'k
  sk_ngid :: tgid

text \<open>
  \<open>se_Query\<close> and \<open>se_ChangeConfigTo\<close>: the methods of a controller (a nil configuration is \<open>None\<close>);
  \<open>se_start\<close> starts a server of a shard group; \<open>se_rand\<close> are the names drawn.
\<close>

record ('s, 'v, 'k) skenv =
  se_rand :: "nat \<Rightarrow> string"
  se_start :: "('s, 'v) fstart"
  se_Query :: "'k \<Rightarrow> (shard_config option \<times> 'k) go"
  se_InitConfig :: "shard_config \<Rightarrow> 'k \<Rightarrow> 'k go"
  se_ChangeConfigTo :: "shard_config \<Rightarrow> 'k \<Rightarrow> 'k go"

definition newGid :: "('s, 'v, 'k) sktest \<Rightarrow> tgid \<times> ('s, 'v, 'k) sktest" where
  "newGid ts = (sk_ngid ts, ts\<lparr>sk_ngid := sk_ngid ts + 1\<rparr>)"

fun new_gids :: "nat \<Rightarrow> ('s, 'v, 'k) sktest \<Rightarrow> tgid list \<times> ('s, 'v, 'k) sktest" where
  "new_gids 0 ts = ([], ts)"
| "new_gids (Suc n) ts = (let (gid, ts1) = newGid ts; (ids, ts2) = new_gids n ts1 in (gid # ids, ts2))"

text \<open>The names of the servers of a group; looking up a group that is not there gives a nil pointer.\<close>

definition group_names :: "tgid \<Rightarrow> ('s, 'v, 'k) sktest \<Rightarrow> string list go" where
  "group_names gid ts = (case cfg_Group gid (sk_cfg ts) of
     None \<Rightarrow> Panic ''nil pointer dereference'' | Some sg \<Rightarrow> Ret (SrvNames sg))"

definition sk_MakeGroupStart :: "('s, 'v, 'k) skenv \<Rightarrow> tgid \<Rightarrow> ('s, 'v, 'k) sktest \<Rightarrow> ('s, 'v, 'k) sktest go" where
  "sk_MakeGroupStart env gid ts =
     go_bind (MakeGroupStart (se_rand env) gid SHARD_NSRV (se_start env) (sk_cfg ts)) (\<lambda>cfg. Ret (ts\<lparr>sk_cfg := cfg\<rparr>))"

definition sk_Query :: "('s, 'v, 'k) skenv \<Rightarrow> ('s, 'v, 'k) sktest \<Rightarrow> (shard_config \<times> ('s, 'v, 'k) sktest) go" where
  \<comment> \<open>The callers dereference the result at once.\<close>
  "sk_Query env ts = go_bind (se_Query env (sk_ctl ts)) (\<lambda>(c, k). case c of
     None \<Rightarrow> Panic ''nil pointer dereference'' | Some c \<Rightarrow> Ret (c, ts\<lparr>sk_ctl := k\<rparr>))"

definition checkMember :: "('s, 'v, 'k) skenv \<Rightarrow> tgid \<Rightarrow> ('s, 'v, 'k) sktest \<Rightarrow> (bool \<times> ('s, 'v, 'k) sktest) go" where
  "checkMember env gid ts = go_bind (sk_Query env ts) (\<lambda>(cfg, ts'). Ret (IsMember cfg gid, ts'))"

definition sk_join :: "('s, 'v, 'k) skenv \<Rightarrow> tgid \<Rightarrow> string list \<Rightarrow> ('s, 'v, 'k) sktest \<Rightarrow> ('s, 'v, 'k) sktest go" where
  "sk_join env gid srvs ts = go_bind (sk_Query env ts) (\<lambda>(cfg, ts1).
     go_bind (JoinBalance [(gid, srvs)] (Copy cfg)) (\<lambda>(ok, newcfg).
       if \<not> ok then Fatal ''join: group %d is already present''
       else go_bind (se_ChangeConfigTo env newcfg (sk_ctl ts1)) (\<lambda>k. Ret (ts1\<lparr>sk_ctl := k\<rparr>))))"

fun joinGroups :: "('s, 'v, 'k) skenv \<Rightarrow> tgid list \<Rightarrow> ('s, 'v, 'k) sktest \<Rightarrow> (bool \<times> ('s, 'v, 'k) sktest) go" where
  "joinGroups env [] ts = Ret (True, ts)"
| "joinGroups env (gid # ids) ts =
     go_bind (sk_MakeGroupStart env gid ts) (\<lambda>ts1.
     go_bind (group_names gid ts1) (\<lambda>names.
     go_bind (sk_join env gid names ts1) (\<lambda>ts2.
     go_bind (checkMember env gid ts2) (\<lambda>(ok, ts3).
       if \<not> ok then Ret (False, ts3) else joinGroups env ids ts3))))"

definition sk_leave :: "('s, 'v, 'k) skenv \<Rightarrow> tgid \<Rightarrow> ('s, 'v, 'k) sktest \<Rightarrow> ('s, 'v, 'k) sktest go" where
  "sk_leave env gid ts = go_bind (sk_Query env ts) (\<lambda>(cfg, ts1).
     go_bind (LeaveBalance [gid] (Copy cfg)) (\<lambda>(ok, newcfg).
       if \<not> ok then Fatal ''leave: group %d is already not present''
       else go_bind (se_ChangeConfigTo env newcfg (sk_ctl ts1)) (\<lambda>k. Ret (ts1\<lparr>sk_ctl := k\<rparr>))))"

fun leaveGroups :: "('s, 'v, 'k) skenv \<Rightarrow> tgid list \<Rightarrow> ('s, 'v, 'k) sktest \<Rightarrow> (bool \<times> ('s, 'v, 'k) sktest) go" where
  "leaveGroups env [] ts = Ret (True, ts)"
| "leaveGroups env (gid # ids) ts =
     go_bind (sk_leave env gid ts) (\<lambda>ts1.
     go_bind (checkMember env gid ts1) (\<lambda>(ok, ts2).
       if ok then Ret (False, ts2)
       else go_bind (ExitGroup gid (sk_cfg ts2)) (\<lambda>cfg. leaveGroups env ids (ts2\<lparr>sk_cfg := cfg\<rparr>))))"

text \<open>
  One round of the goroutine of \<^verbatim>\<open>partitionCtrler\<close> and of \<^verbatim>\<open>concurCtrler\<close>: a new group joins and, if it
  then is a member, leaves again. The first component says whether the loop goes on.
\<close>

definition ctl_round :: "('s, 'v, 'k) skenv \<Rightarrow> ('s, 'v, 'k) sktest \<Rightarrow> (bool \<times> ('s, 'v, 'k) sktest) go" where
  "ctl_round env ts = (case newGid ts of (ngid, ts1) \<Rightarrow>
     go_bind (joinGroups env [ngid] ts1) (\<lambda>(_, ts2).
     go_bind (checkMember env ngid ts2) (\<lambda>(ok, ts3).
       if ok then go_bind (leaveGroups env [ngid] ts3) (\<lambda>(_, ts4). Ret (True, ts4)) else Ret (False, ts3))))"

text \<open>The first \<open>m\<close> rounds: the loop returns when the group is not a member.\<close>

fun ctl_rounds :: "('s, 'v, 'k) skenv \<Rightarrow> nat \<Rightarrow> ('s, 'v, 'k) sktest \<Rightarrow> (bool \<times> ('s, 'v, 'k) sktest) go" where
  "ctl_rounds env 0 ts = Ret (True, ts)"
| "ctl_rounds env (Suc m) ts = go_bind (ctl_round env ts) (\<lambda>(ok, ts'). if ok then ctl_rounds env m ts' else Ret (False, ts'))"

text \<open>\<open>state\<close>: the answer of \<^verbatim>\<open>GetState\<close> for a service that is a Raft peer.\<close>

definition disconnectClntFromLeader :: "(('s, 'v) iservice \<Rightarrow> (int \<times> bool) option) \<Rightarrow> tgid \<Rightarrow> ('s, 'v, 'k) sktest \<Rightarrow> (nat \<times> ('s, 'v, 'k) sktest) go" where
  "disconnectClntFromLeader state gid ts = (case cfg_Group gid (sk_cfg ts) of
     None \<Rightarrow> Panic ''nil pointer dereference''
   | Some sg \<Rightarrow> (case Leader (map (\<lambda>svcs. case svcs of None \<Rightarrow> [] | Some ss \<Rightarrow> map state ss) (Services sg)) of (ok, l) \<Rightarrow>
       if \<not> ok then Fatal ''Leader failed''
       else go_bind (on_group gid (ShutdownServer l) (sk_cfg ts)) (\<lambda>cfg. Ret (l, ts\<lparr>sk_cfg := cfg\<rparr>))))"

text \<open>
  What a get reports in \<^verbatim>\<open>checkShutdownSharding\<close>, and the loop that collects the reports that arrive before
  two seconds pass without one: the first error ends the test.
\<close>

definition get_report :: "string \<Rightarrow> string \<Rightarrow> string \<Rightarrow> string" where
  "get_report k expected v = (if v \<noteq> expected then ''Get('' @ k @ ''): expected:'' @ [CHR 0x0A] @ expected @ [CHR 0x0A] @ ''received:'' @ [CHR 0x0A] @ v else [])"

fun collect_reports :: "string list \<Rightarrow> nat \<Rightarrow> nat go" where
  "collect_reports [] ndone = Ret ndone"
| "collect_reports (err # reports) ndone = (if err \<noteq> [] then Fatal err else collect_reports reports (ndone + 1))"

text \<open>
  \<open>gets\<close> are the indices of the keys and the values of the gets that complete in time while the group \<open>down\<close> is shut down.
\<close>

definition checkShutdownSharding :: "('s, 'v, 'k) skenv \<Rightarrow> tgid \<Rightarrow> string list \<Rightarrow> string list \<Rightarrow> (nat \<times> string) list \<Rightarrow> ('s, 'v, 'k) sktest \<Rightarrow> ('s, 'v, 'k) sktest go" where
  "checkShutdownSharding env down ka va gets ts =
     go_bind (on_group down Shutdown (sk_cfg ts)) (\<lambda>cfg1.
     go_bind (fold_go (\<lambda>(i, v) rs. go_bind (go_nth ka i) (\<lambda>k. go_bind (go_nth va i) (\<lambda>x. Ret (rs @ [get_report k x v])))) gets []) (\<lambda>reports.
     go_bind (collect_reports reports 0) (\<lambda>ndone.
       if ndone \<ge> length ka then Fatal ''expected less than %d completions with shard %d down''
       else go_bind (on_group down (StartServers (se_rand env)) cfg1) (\<lambda>cfg2. Ret (ts\<lparr>sk_cfg := cfg2\<rparr>)))))"

text \<open>
  What \<^verbatim>\<open>partitionCtrler\<close> checks once a second controller has taken over: \<open>num\<close> is the number before,
  \<open>ngid\<close> the group that was joining or leaving.
\<close>

datatype ctl_state = NoState | JOIN | LEAVE

definition check_recovered :: "shard_config \<Rightarrow> tnum \<Rightarrow> ctl_state \<Rightarrow> tgid \<Rightarrow> unit go" where
  "check_recovered cfg num state ngid =
     (if Num cfg \<le> num then Fatal ''didn't recover; expected %d > %d'' else
      let present = IsMember cfg ngid in
      if (state = JOIN \<and> \<not> present) \<or> (state = LEAVE \<and> present) then Fatal ''didn't recover %d correctly after %v''
      else Ret ())"

subsection \<open>Server names\<close>

text \<open>The names of the servers of a shard group.\<close>

definition names_of :: "tgid \<Rightarrow> string list" where
  "names_of gid = map (\<lambda>i. ServerName gid (int i)) [0..<SHARD_NSRV]"

lemma names_of_disjoint: "g \<noteq> h \<Longrightarrow> set (names_of g) \<inter> set (names_of h) = {}"
  by (auto simp: names_of_def dest: ServerName_inj)

lemma grp_connect_names: "grp_connect i to g = Ret g' \<Longrightarrow> sg_servernames (fst g') = sg_servernames (fst g)"
  by (cases g) (auto simp: grp_connect_def go_bind_Ret_iff set_connected_def split: if_splits)

lemma StartServer_names: "StartServer rand i g = Ret g' \<Longrightarrow> sg_servernames (fst g') = sg_servernames (fst g)"
  by (cases g) (auto simp: StartServer_def go_bind_Ret_iff Let_def case_prod_unfold)

lemma StartServers_names:
  assumes "StartServers rand g = Ret g'"
  shows "sg_servernames (fst g') = sg_servernames (fst g)"
proof -
  from assms obtain g1 where g1: "grp_start rand g = Ret g1" "ConnectAll g1 = Ret g'"
    by (auto simp: StartServers_def go_bind_Ret_iff)
  have "sg_servernames (fst g1) = sg_servernames (fst g)"
    by (rule fold_go_keeps[OF g1(1)[unfolded grp_start_def], of "\<lambda>g. sg_servernames (fst g)"]) (rule StartServer_names)
  moreover have "sg_servernames (fst g') = sg_servernames (fst g1)"
    by (rule fold_go_keeps[OF g1(2)[unfolded ConnectAll_def], of "\<lambda>g. sg_servernames (fst g)"]) (simp add: ConnectOne_def grp_connect_names)
  ultimately show ?thesis by simp
qed

text \<open>
  A shard group that runs: it is in the tester under its names, and every server is started, on the network and linked to all
  servers of the group; its ends have names that were drawn already.
\<close>

definition shard_up :: "(nat \<Rightarrow> string) \<Rightarrow> tgid \<Rightarrow> ('s, 'v) config \<Rightarrow> bool" where
  "shard_up rand g cfg \<longleftrightarrow> (\<exists>sg. cfg_Group g cfg = Some sg \<and> SrvNames sg = names_of g \<and> sg_gid sg = g \<and>
     grp_up SHARD_NSRV (sg, cf_state cfg) \<and> inj rand \<and>
     (\<forall>s\<in>set (sg_srvs sg). set (end_names s) \<subseteq> rand ` {..<t_draws (cf_state cfg)} \<and> length (end_names s) = SHARD_NSRV))"

text \<open>Making a group of the tester: it is started under its names, no other group changes, and the groups that run go on running.\<close>

lemma sk_MakeGroupStart_ok:
  assumes "fresh_names (se_rand env) (cf_state (sk_cfg ts))"
  shows "\<exists>cfg sg. sk_MakeGroupStart env gid ts = Ret (ts\<lparr>sk_cfg := cfg\<rparr>) \<and> fresh_names (se_rand env) (cf_state cfg) \<and>
    cfg_Group gid cfg = Some sg \<and> SrvNames sg = names_of gid \<and> (\<forall>a<SHARD_NSRV. \<forall>b<SHARD_NSRV. grp_link (sg, cf_state cfg) a b) \<and>
    (\<forall>g. g \<noteq> gid \<longrightarrow> cfg_Group g cfg = cfg_Group g (sk_cfg ts)) \<and> grp_ok (se_rand env) SHARD_NSRV (sg, cf_state cfg) \<and>
    shard_up (se_rand env) gid cfg \<and> (\<forall>g. shard_up (se_rand env) g (sk_cfg ts) \<longrightarrow> shard_up (se_rand env) g cfg)"
proof -
  let ?rand = "se_rand env" and ?st0 = "cf_state (sk_cfg ts)"
  from makeSrvGrp_ok[OF assms] obtain sg st where g: "makeSrvGrp ?rand gid SHARD_NSRV (se_start env) ?st0 = Ret (sg, st)"
    "grp_ok ?rand SHARD_NSRV (sg, st)" by (metis surj_pair)
  have n: "sg_servernames sg = names_of gid" using g(1) by (auto simp: makeSrvGrp_def go_bind_Ret_iff names_of_def)
  from StartServers_ok[OF g(2)] obtain sg' st' where g': "StartServers ?rand (sg, st) = Ret (sg', st')"
    "grp_ok ?rand SHARD_NSRV (sg', st')" "\<forall>a<SHARD_NSRV. \<forall>b<SHARD_NSRV. grp_link (sg', st') a b" by (metis surj_pair)
  have names: "SrvNames sg' = names_of gid" using StartServers_names[OF g'(1)] n by (simp add: SrvNames_def)
  have fresh: "fresh_names ?rand st'" using g'(2) by (simp add: grp_ok_def)
  note up = makeSrvGrp_StartServers_up[OF assms g(1) g'(1)]
  obtain cfg where c: "sk_MakeGroupStart env gid ts = Ret (ts\<lparr>sk_cfg := cfg\<rparr>)" "cf_state cfg = st'" "cfg_Group gid cfg = Some sg'"
    "\<And>g. g \<noteq> gid \<Longrightarrow> cfg_Group g cfg = cfg_Group g (sk_cfg ts)"
    using g(1) g'(1)
    by (auto simp: sk_MakeGroupStart_def MakeGroupStart_def MakeGroup_def on_group_def cfg_Group_def lookupGroup_def update_conv')
  have inj: "inj ?rand" using assms by (simp add: fresh_names_def)
  have "length (end_names s) = SHARD_NSRV" if "s \<in> set (sg_srvs sg')" for s using grp_ok_wf[OF g'(2)] that by (simp add: wf_group_def)
  then have new: "shard_up ?rand gid cfg" using up names inj g'(2) c(2,3) by (simp add: shard_up_def grp_ok_def)
  have old: "shard_up ?rand g cfg" if h: "shard_up ?rand g (sk_cfg ts)" for g
  proof (cases "g = gid")
    case False
    obtain sg1 where s: "cfg_Group g (sk_cfg ts) = Some sg1" "SrvNames sg1 = names_of g" "sg_gid sg1 = g" "grp_up SHARD_NSRV (sg1, ?st0)"
      "\<forall>s\<in>set (sg_srvs sg1). set (end_names s) \<subseteq> ?rand ` {..<t_draws ?st0}" "\<forall>s\<in>set (sg_srvs sg1). length (end_names s) = SHARD_NSRV"
      using h by (auto simp: shard_up_def)
    have "grp_up SHARD_NSRV (sg1, st')" using grp_up_spared[OF s(4) _ _ inj s(5,6)] up False s(3) by blast
    moreover have "t_draws ?st0 \<le> t_draws st'" using up by (simp add: spares_def)
    then have "?rand ` {..<t_draws ?st0} \<subseteq> ?rand ` {..<t_draws st'}" by auto
    with s(5) have "\<forall>s\<in>set (sg_srvs sg1). set (end_names s) \<subseteq> ?rand ` {..<t_draws st'}" by blast
    ultimately show ?thesis using s(1-3,6) c(2) c(4)[OF False] inj unfolding shard_up_def by (intro exI[of _ sg1]) simp
  qed (use new in simp)
  have "fresh_names ?rand (cf_state cfg)" "\<forall>a<SHARD_NSRV. \<forall>b<SHARD_NSRV. grp_link (sg', cf_state cfg) a b" "grp_ok ?rand SHARD_NSRV (sg', cf_state cfg)"
    using fresh g'(2,3) c(2) by simp_all
  then show ?thesis using c(1,3,4) names new old by blast
qed

subsection \<open>Membership\<close>

lemma is_member_loop_iff: "is_member_loop gs g \<longleftrightarrow> g \<in> set gs"
  by (induction gs) auto

text \<open>
  With at most as many groups as shards, every group of a balanced configuration has a shard, so
  \<^verbatim>\<open>IsMember\<close>, which looks for a shard of the group, recognises the groups.
\<close>

lemma member_iff_group:
  assumes "config_inv c" "length (Groups c) \<le> NShards" "Groups c \<noteq> []"
  shows "IsMember c g \<longleftrightarrow> gm_has (Groups c) g"
proof -
  from assms(1,3) have inv: "all_assigned c" "balanced c" "length (Shards c) = NShards" "distinct (gm_keys (Groups c))"
    by (auto simp: config_inv_def cfg_ok_def)
  show ?thesis
  proof
    assume g: "gm_has (Groups c) g"
    show "IsMember c g"
    proof (rule ccontr)
      assume "\<not> IsMember c g"
      then have z: "count_list (Shards c) g = 0" by (simp add: IsMember_def is_member_loop_iff count_list_0_iff)
      have le: "count_list (Shards c) h \<le> 1" if "h \<in> gids c" for h
      proof -
        have "load c h \<le> load c g + 1" using inv(2) g that unfolding balanced_def by blast
        with z show ?thesis by simp
      qed
      have "NShards = (\<Sum>h\<in>gids c. count_list (Shards c) h)"
        using sum_count_set[of "Shards c" "gids c"] inv(1,3) by (simp add: all_assigned_def)
      also have "\<dots> = (\<Sum>h\<in>gids c - {g}. count_list (Shards c) h)"
        using z by (intro sum.mono_neutral_right) auto
      also have "\<dots> \<le> card (gids c - {g})"
        using le sum_mono[of "gids c - {g}" "count_list (Shards c)" "\<lambda>_. 1"] by simp
      also have "\<dots> < card (gids c)" by (rule card_Diff1_less[OF _ g]) simp
      also have "\<dots> \<le> length (Groups c)" using card_length[of "gm_keys (Groups c)"] by simp
      finally show False using assms(2) by simp
    qed
  qed (use inv(1) in \<open>auto simp: IsMember_def is_member_loop_iff all_assigned_def\<close>)
qed

lemma some_group_is_no_member:
  assumes "config_inv c" "NShards < length (Groups c)"
  shows "\<exists>g. gm_has (Groups c) g \<and> \<not> IsMember c g"
proof (rule ccontr)
  assume "\<not> ?thesis"
  then have "gids c \<subseteq> set (Shards c)" by (auto simp: IsMember_def is_member_loop_iff)
  then have "card (gids c) \<le> card (set (Shards c))" by (intro card_mono) auto
  also have "\<dots> \<le> NShards" using assms(1) card_length[of "Shards c"] by (simp add: config_inv_def cfg_ok_def)
  moreover have "card (gids c) = length (Groups c)"
    using assms(1) distinct_card[of "gm_keys (Groups c)"] by (simp add: config_inv_def cfg_ok_def)
  ultimately show False using assms(2) by simp
qed

subsection \<open>Joining through a controller\<close>

text \<open>
  What the comments of the controller promise while no other controller interferes: \<open>held k\<close> is the
  configuration that is stored, \<^verbatim>\<open>InitConfig\<close> and \<^verbatim>\<open>ChangeConfigTo\<close> store the given one and
  \<^verbatim>\<open>Query\<close> returns it.
\<close>

definition controller_laws :: "('s, 'v, 'k) skenv \<Rightarrow> ('k \<Rightarrow> shard_config option) \<Rightarrow> bool" where
  "controller_laws env held \<longleftrightarrow>
     (\<forall>k c. held k = Some c \<longrightarrow> (\<exists>k'. se_Query env k = Ret (Some c, k') \<and> held k' = Some c)) \<and>
     (\<forall>k c. held k = None \<longrightarrow> (\<exists>k'. se_InitConfig env c k = Ret k' \<and> held k' = Some c)) \<and>
     (\<forall>k c d. held k = Some d \<longrightarrow> (\<exists>k'. se_ChangeConfigTo env c k = Ret k' \<and> held k' = Some c))"

lemma controller_lawsD:
  assumes "controller_laws env held"
  shows "held k = Some c \<Longrightarrow> \<exists>k'. se_Query env k = Ret (Some c, k') \<and> held k' = Some c"
    and "held k = None \<Longrightarrow> \<exists>k'. se_InitConfig env c k = Ret k' \<and> held k' = Some c"
    and "held k = Some d \<Longrightarrow> \<exists>k'. se_ChangeConfigTo env c k = Ret k' \<and> held k' = Some c"
  using assms by (simp_all add: controller_laws_def)

lemma Copy_id: "cfg_ok c \<Longrightarrow> Copy c = c"
  using copy_groups_append[of "[]" "Groups c"] by (cases c) (simp add: Copy_def MakeShardConfig_def cfg_ok_def)

text \<open>A new group whose servers serve no other group joins.\<close>

lemma JoinBalance_one:
  assumes "config_reach n c" "\<not> gm_has (Groups c) gid" "disjoint_servers (Groups c @ [(gid, srvs)])"
  shows "\<exists>c'. JoinBalance [(gid, srvs)] c = Ret (True, c') \<and> config_reach (Suc n) c' \<and> Groups c' = Groups c @ [(gid, srvs)]"
proof -
  have ok: "cfg_ok c" using config_reach_inv[OF assms(1)] by (simp add: config_inv_def)
  let ?d = "c\<lparr>Num := Num c + 1, Groups := Groups c @ [(gid, srvs)]\<rparr>"
  have "join_loop [(gid, srvs)] False c = Ret (True, ?d)"
    using ok assms(2,3) by (intro join_loop_ok) (auto simp: cfg_ok_def)
  moreover have "cfg_ok ?d" using ok assms(2) by (auto simp: cfg_ok_def)
  from Rebalance_run[OF this] obtain c' where "Rebalance ?d = Ret c'" "Groups c' = Groups ?d" by blast
  ultimately have "JoinBalance [(gid, srvs)] c = Ret (True, c')" "Groups c' = Groups c @ [(gid, srvs)]"
    by (simp_all add: JoinBalance_def Join_def)
  then show ?thesis using config_reach.join[OF assms(1)] by blast
qed

text \<open>The groups of a configuration whose servers have the names the tester gives them.\<close>

definition named_groups :: "tgid list \<Rightarrow> (tgid, string list) gomap" where
  "named_groups ids = map (\<lambda>g. (g, names_of g)) ids"

lemma named_groups_simps [simp]:
  "gm_keys (named_groups ids) = ids"
  "fst ` set (named_groups ids) = set ids"
  "length (named_groups ids) = length ids"
  "named_groups (ids @ ids') = named_groups ids @ named_groups ids'"
  "named_groups [g] = [(g, names_of g)]"
  by (induction ids) (auto simp: named_groups_def)

lemma map_of_named_groups: "map_of (named_groups ids) g = (if g \<in> set ids then Some (names_of g) else None)"
  by (induction ids) (auto simp: named_groups_def)

lemma named_groups_CheckConfig:
  assumes "config_reach n c" "Groups c = named_groups ids" "ids \<noteq> []"
  shows "CheckConfig c ids = Ret ()"
proof -
  have inv: "config_inv c" using config_reach_inv[OF assms(1)] by simp
  moreover have "named_groups ids \<noteq> []" using assms(3) by (simp add: named_groups_def)
  ultimately show ?thesis using CheckConfig_ok_iff[of c ids] assms(2) by (auto simp: config_inv_def)
qed

lemma named_groups_disjoint: "disjoint_servers (named_groups ids)"
  using names_of_disjoint by (fastforce simp: disjoint_servers_def named_groups_def)

text \<open>
  One round of \<^verbatim>\<open>joinGroups\<close>: the group is started, the configuration grows by it, and it is a member.
\<close>

lemma join_round:
  assumes laws: "controller_laws env held" and fresh: "fresh_names (se_rand env) (cf_state (sk_cfg ts))"
    and c: "held (sk_ctl ts) = Some c" "config_reach n c" "Groups c = named_groups ids"
    and g: "g \<notin> set ids" "length ids < NShards"
  shows "\<exists>ts' c'. joinGroups env (g # gs) ts = joinGroups env gs ts' \<and> fresh_names (se_rand env) (cf_state (sk_cfg ts')) \<and>
    held (sk_ctl ts') = Some c' \<and> config_reach (Suc n) c' \<and> Groups c' = named_groups (ids @ [g]) \<and>
    map_option SrvNames (cfg_Group g (sk_cfg ts')) = Some (names_of g) \<and>
    (\<forall>h. h \<noteq> g \<longrightarrow> cfg_Group h (sk_cfg ts') = cfg_Group h (sk_cfg ts)) \<and> sk_ngid ts' = sk_ngid ts \<and>
    (\<exists>sg. cfg_Group g (sk_cfg ts') = Some sg \<and> grp_ok (se_rand env) SHARD_NSRV (sg, cf_state (sk_cfg ts'))) \<and>
    shard_up (se_rand env) g (sk_cfg ts') \<and> (\<forall>h. shard_up (se_rand env) h (sk_cfg ts) \<longrightarrow> shard_up (se_rand env) h (sk_cfg ts'))"
proof -
  from sk_MakeGroupStart_ok[OF fresh] obtain cfg sg where
    m: "sk_MakeGroupStart env g ts = Ret (ts\<lparr>sk_cfg := cfg\<rparr>)" "fresh_names (se_rand env) (cf_state cfg)"
    "cfg_Group g cfg = Some sg" "SrvNames sg = names_of g" "\<forall>h. h \<noteq> g \<longrightarrow> cfg_Group h cfg = cfg_Group h (sk_cfg ts)"
    "grp_ok (se_rand env) SHARD_NSRV (sg, cf_state cfg)"
    "shard_up (se_rand env) g cfg" "\<forall>h. shard_up (se_rand env) h (sk_cfg ts) \<longrightarrow> shard_up (se_rand env) h cfg" by blast
  from controller_lawsD(1)[OF laws c(1)] obtain k1 where k1: "se_Query env (sk_ctl ts) = Ret (Some c, k1)" "held k1 = Some c" by blast
  have "cfg_ok c" using config_reach_inv[OF c(2)] by (simp add: config_inv_def)
  then have copy: "Copy c = c" by (rule Copy_id)
  have "disjoint_servers (named_groups (ids @ [g]))" by (rule named_groups_disjoint)
  with JoinBalance_one[OF c(2), of g "names_of g"] g c(3) obtain c' where
    c': "JoinBalance [(g, names_of g)] c = Ret (True, c')" "config_reach (Suc n) c'" "Groups c' = named_groups (ids @ [g])"
    by auto
  from controller_lawsD(3)[OF laws k1(2)] obtain k2 where k2: "se_ChangeConfigTo env c' k1 = Ret k2" "held k2 = Some c'" by blast
  from controller_lawsD(1)[OF laws k2(2)] obtain k3 where k3: "se_Query env k2 = Ret (Some c', k3)" "held k3 = Some c'" by blast
  have "IsMember c' g"
    using member_iff_group[of c' g] config_reach_inv[OF c'(2)] c'(3) g(2) by simp
  then have "joinGroups env (g # gs) ts = joinGroups env gs (ts\<lparr>sk_cfg := cfg, sk_ctl := k3\<rparr>)"
    using m(1,3,4) k1(1) k2(1) k3(1) c'(1)
    by (simp add: group_names_def sk_join_def sk_Query_def copy checkMember_def)
  then show ?thesis using m c' k3(2) by (intro exI[of _ "ts\<lparr>sk_cfg := cfg, sk_ctl := k3\<rparr>"] exI[of _ c']) simp
qed

lemma joinGroups_ok:
  assumes "controller_laws env held" "fresh_names (se_rand env) (cf_state (sk_cfg ts))"
    "held (sk_ctl ts) = Some c" "config_reach n c" "Groups c = named_groups ids"
    "distinct (ids @ gs)" "length (ids @ gs) \<le> NShards"
  shows "\<exists>ts' c' n'. joinGroups env gs ts = Ret (True, ts') \<and> held (sk_ctl ts') = Some c' \<and> config_reach n' c' \<and>
    Groups c' = named_groups (ids @ gs) \<and>
    (\<forall>g. g \<in> set gs \<or> shard_up (se_rand env) g (sk_cfg ts) \<longrightarrow> shard_up (se_rand env) g (sk_cfg ts'))"
  using assms(2-)
proof (induction gs arbitrary: ts c n ids)
  case (Cons g gs)
  from join_round[OF assms(1) Cons.prems(1-4), of g gs] Cons.prems(5,6) obtain ts' c' where
    r: "joinGroups env (g # gs) ts = joinGroups env gs ts'" "fresh_names (se_rand env) (cf_state (sk_cfg ts'))"
    "held (sk_ctl ts') = Some c'" "config_reach (Suc n) c'" "Groups c' = named_groups (ids @ [g])"
    "shard_up (se_rand env) g (sk_cfg ts')" "\<forall>h. shard_up (se_rand env) h (sk_cfg ts) \<longrightarrow> shard_up (se_rand env) h (sk_cfg ts')" by auto
  from Cons.IH[OF r(2-5)] Cons.prems(5,6) r(1,6,7) show ?case by fastforce
qed auto

text \<open>A group leaves a configuration that keeps other groups.\<close>

lemma Shutdown_ok:
  assumes "grp_ok rand n g"
  shows "\<exists>g'. Shutdown g = Ret g' \<and> grp_ok rand n g'"
proof -
  have len: "length (sg_srvs (fst g)) = n" using grp_ok_wf[OF assms] by (simp add: wf_group_def split: prod.splits)
  have eq: "fold_go (run_gop rand) (map GShutdown is) g = fold_go ShutdownServer is g" for "is" and g :: "('a, 'b) gs"
    by (induction "is" arbitrary: g) (auto intro: go_bind_cong)
  have "list_all (gop_in_range n) (map GShutdown [0..<n])" by (simp add: list_all_iff)
  from run_gops_ok[OF assms this] show ?thesis by (simp add: eq Shutdown_def len)
qed

lemma ExitGroup_ok:
  assumes "cfg_Group g cfg = Some sg" "grp_ok rand n (sg, cf_state cfg)"
  shows "\<exists>cfg'. ExitGroup g cfg = Ret cfg' \<and> fresh_names rand (cf_state cfg') \<and> cfg_Group g cfg' = None \<and>
    (\<forall>h. h \<noteq> g \<longrightarrow> cfg_Group h cfg' = cfg_Group h cfg)"
proof -
  from Shutdown_ok[OF assms(2)] obtain sg' st' where "Shutdown (sg, cf_state cfg) = Ret (sg', st')" "grp_ok rand n (sg', st')"
    by (metis surj_pair)
  with assms(1) show ?thesis
    by (auto simp: ExitGroup_def on_group_def cfg_Group_def lookupGroup_def delete_group_def grp_ok_def update_conv' delete_conv')
qed

lemma LeaveBalance_one:
  assumes "config_reach n c" "gm_has (Groups c) gid"
  shows "\<exists>c'. LeaveBalance [gid] c = Ret (True, c') \<and> config_reach (Suc n) c' \<and> Groups c' = filter (\<lambda>(g, _). g \<noteq> gid) (Groups c)"
proof -
  have ok: "cfg_ok c" using config_reach_inv[OF assms(1)] by (simp add: config_inv_def)
  let ?d = "c\<lparr>Num := Num c + 1, Groups := filter (\<lambda>(g, _). g \<noteq> gid) (Groups c)\<rparr>"
  have "leave_loop [gid] False c = Ret (True, ?d)" using leave_loop_ok[of "[gid]" c False] assms(2) by simp
  moreover have "cfg_ok ?d" using ok by (intro cfg_ok_Groups distinct_keys_filter) (simp_all add: cfg_ok_def)
  from Rebalance_run[OF this] obtain c' where "Rebalance ?d = Ret c'" "Groups c' = Groups ?d" by blast
  ultimately have "LeaveBalance [gid] c = Ret (True, c')" "Groups c' = filter (\<lambda>(g, _). g \<noteq> gid) (Groups c)"
    by (simp_all add: LeaveBalance_def Leave_def)
  then show ?thesis using config_reach.leave[OF assms(1)] by blast
qed

lemma leave_round:
  assumes laws: "controller_laws env held"
    and c: "held (sk_ctl ts) = Some c" "config_reach n c" "Groups c = named_groups (ids @ [g])"
    and g: "g \<notin> set ids" "ids \<noteq> []" "length ids \<le> NShards"
    and grp: "cfg_Group g (sk_cfg ts) = Some sg" "grp_ok (se_rand env) SHARD_NSRV (sg, cf_state (sk_cfg ts))"
  shows "\<exists>ts' c'. leaveGroups env [g] ts = Ret (True, ts') \<and> fresh_names (se_rand env) (cf_state (sk_cfg ts')) \<and>
    held (sk_ctl ts') = Some c' \<and> config_reach (Suc n) c' \<and> Groups c' = named_groups ids \<and>
    cfg_Group g (sk_cfg ts') = None \<and> (\<forall>h. h \<noteq> g \<longrightarrow> cfg_Group h (sk_cfg ts') = cfg_Group h (sk_cfg ts)) \<and> sk_ngid ts' = sk_ngid ts"
proof -
  from controller_lawsD(1)[OF laws c(1)] obtain k1 where k1: "se_Query env (sk_ctl ts) = Ret (Some c, k1)" "held k1 = Some c" by blast
  have "cfg_ok c" using config_reach_inv[OF c(2)] by (simp add: config_inv_def)
  then have copy: "Copy c = c" by (rule Copy_id)
  from LeaveBalance_one[OF c(2), of g] c(3) obtain c' where
    c': "LeaveBalance [g] c = Ret (True, c')" "config_reach (Suc n) c'" "Groups c' = filter (\<lambda>(h, _). h \<noteq> g) (named_groups (ids @ [g]))"
    by auto
  have groups: "Groups c' = named_groups ids" 
  proof -
    have "filter (\<lambda>h. h \<noteq> g) ids = ids" using g(1) by (intro filter_True) auto
    then show ?thesis by (simp add: c'(3) named_groups_def filter_map comp_def)
  qed
  from controller_lawsD(3)[OF laws k1(2)] obtain k2 where k2: "se_ChangeConfigTo env c' k1 = Ret k2" "held k2 = Some c'" by blast
  from controller_lawsD(1)[OF laws k2(2)] obtain k3 where k3: "se_Query env k2 = Ret (Some c', k3)" "held k3 = Some c'" by blast
  have "\<not> IsMember c' g"
    using member_iff_group[of c' g] config_reach_inv[OF c'(2)] groups g by (cases ids) (auto simp: named_groups_def)
  moreover from ExitGroup_ok[OF grp] obtain cfg' where x: "ExitGroup g (sk_cfg ts) = Ret cfg'" "fresh_names (se_rand env) (cf_state cfg')"
    "cfg_Group g cfg' = None" "\<forall>h. h \<noteq> g \<longrightarrow> cfg_Group h cfg' = cfg_Group h (sk_cfg ts)" by blast
  ultimately have "leaveGroups env [g] ts = Ret (True, ts\<lparr>sk_ctl := k3, sk_cfg := cfg'\<rparr>)"
    using k1(1) k2(1) k3(1) c'(1) by (simp add: sk_leave_def sk_Query_def copy checkMember_def)
  then show ?thesis using x c'(2) groups k3(2)
    by (intro exI[of _ "ts\<lparr>sk_ctl := k3, sk_cfg := cfg'\<rparr>"] exI[of _ c']) simp
qed

text \<open>A round of a controller that is not disturbed leaves the groups as they were, two configurations later.\<close>

lemma ctl_round_restores:
  assumes laws: "controller_laws env held" and fresh: "fresh_names (se_rand env) (cf_state (sk_cfg ts))"
    and c: "held (sk_ctl ts) = Some c" "config_reach n c" "Groups c = named_groups ids"
    and ids: "ids \<noteq> []" "length ids < NShards" "sk_ngid ts \<notin> set ids" and none: "cfg_Group (sk_ngid ts) (sk_cfg ts) = None"
  shows "\<exists>ts' c'. ctl_round env ts = Ret (True, ts') \<and> held (sk_ctl ts') = Some c' \<and> config_reach (Suc (Suc n)) c' \<and>
    Groups c' = Groups c \<and> (\<forall>h. cfg_Group h (sk_cfg ts') = cfg_Group h (sk_cfg ts)) \<and>
    fresh_names (se_rand env) (cf_state (sk_cfg ts')) \<and> sk_ngid ts' = sk_ngid ts + 1"
proof -
  let ?g = "sk_ngid ts" and ?ts1 = "ts\<lparr>sk_ngid := sk_ngid ts + 1\<rparr>"
  from join_round[OF laws, of ?ts1 c n ids ?g "[]"] fresh c ids obtain ts2 c2 sg where
    j: "joinGroups env [?g] ?ts1 = Ret (True, ts2)" "held (sk_ctl ts2) = Some c2" "config_reach (Suc n) c2"
    "Groups c2 = named_groups (ids @ [?g])" "\<forall>h. h \<noteq> ?g \<longrightarrow> cfg_Group h (sk_cfg ts2) = cfg_Group h (sk_cfg ts)"
    "sk_ngid ts2 = sk_ngid ts + 1" "cfg_Group ?g (sk_cfg ts2) = Some sg" "grp_ok (se_rand env) SHARD_NSRV (sg, cf_state (sk_cfg ts2))"
    by auto
  from controller_lawsD(1)[OF laws j(2)] obtain k where k: "se_Query env (sk_ctl ts2) = Ret (Some c2, k)" "held k = Some c2" by blast
  have "IsMember c2 ?g" using member_iff_group[of c2 ?g] config_reach_inv[OF j(3)] j(4) ids(2) by simp
  then have m: "checkMember env ?g ts2 = Ret (True, ts2\<lparr>sk_ctl := k\<rparr>)" using k(1) by (simp add: checkMember_def sk_Query_def)
  from leave_round[OF laws, of "ts2\<lparr>sk_ctl := k\<rparr>" c2 "Suc n" ids ?g sg] k(2) j ids obtain ts' c' where
    l: "leaveGroups env [?g] (ts2\<lparr>sk_ctl := k\<rparr>) = Ret (True, ts')" "held (sk_ctl ts') = Some c'" "config_reach (Suc (Suc n)) c'"
    "Groups c' = named_groups ids" "cfg_Group ?g (sk_cfg ts') = None" "\<forall>h. h \<noteq> ?g \<longrightarrow> cfg_Group h (sk_cfg ts') = cfg_Group h (sk_cfg ts2)"
    "fresh_names (se_rand env) (cf_state (sk_cfg ts'))" "sk_ngid ts' = sk_ngid ts2" by auto
  have "ctl_round env ts = Ret (True, ts')" using j(1) m l(1) by (simp add: ctl_round_def newGid_def del: joinGroups.simps leaveGroups.simps)
  moreover have "cfg_Group h (sk_cfg ts') = cfg_Group h (sk_cfg ts)" for h using l(5,6) j(5) none by (cases "h = ?g") simp_all
  ultimately show ?thesis using l j(6) c(3) by (intro exI[of _ ts'] exI[of _ c']) (simp del: joinGroups.simps leaveGroups.simps)
qed

text \<open>
  The test passes, and the group runs again, if the gets that complete return the right values and
  some get does not complete.
\<close>

lemma checkShutdownSharding_passes:
  assumes "cfg_Group down (sk_cfg ts) = Some sg" "grp_ok (se_rand env) n (sg, cf_state (sk_cfg ts))"
    and "list_all (\<lambda>(i, v). i < length ka \<and> v = va ! i) gets" "length va = length ka" "length gets < length ka"
  shows "\<exists>ts' sg'. checkShutdownSharding env down ka va gets ts = Ret ts' \<and> cfg_Group down (sk_cfg ts') = Some sg' \<and>
    (\<forall>a<n. \<forall>b<n. grp_link (sg', cf_state (sk_cfg ts')) a b)"
proof -
  from Shutdown_ok[OF assms(2)] obtain sg1 st1 where d: "Shutdown (sg, cf_state (sk_cfg ts)) = Ret (sg1, st1)"
    "grp_ok (se_rand env) n (sg1, st1)" by (metis surj_pair)
  from StartServers_ok[OF d(2)] obtain sg2 st2 where u: "StartServers (se_rand env) (sg1, st1) = Ret (sg2, st2)"
    "\<forall>a<n. \<forall>b<n. grp_link (sg2, st2) a b" by (metis surj_pair)
  have "fold_go (\<lambda>(i, v) rs. go_bind (go_nth ka i) (\<lambda>k. go_bind (go_nth va i) (\<lambda>x. Ret (rs @ [get_report k x v])))) gets rs =
      Ret (rs @ replicate (length gets) [])" for rs
    using assms(3,4) by (induction gets arbitrary: rs) (auto simp: go_nth_def get_report_def replicate_append_same)
  moreover have "collect_reports (replicate k []) m = Ret (m + k)" for k m by (induction k arbitrary: m) simp_all
  ultimately show ?thesis using d(1) u assms(1,5)
    by (simp add: checkShutdownSharding_def on_group_def cfg_Group_def lookupGroup_def update_conv')
qed

lemma new_gids_ok: "\<exists>ts'. new_gids k ts = (map (\<lambda>i. sk_ngid ts + int i) [0..<k], ts') \<and> sk_cfg ts' = sk_cfg ts \<and> sk_ctl ts' = sk_ctl ts"
proof (induction k arbitrary: ts)
  case (Suc k)
  have "map (\<lambda>i. sk_ngid ts + int i) [0..<Suc k] = sk_ngid ts # map (\<lambda>i. sk_ngid ts + 1 + int i) [0..<k]"
    by (simp add: upt_conv_Cons map_Suc_upt[symmetric] del: upt_Suc)
  then show ?case using Suc.IH[of "ts\<lparr>sk_ngid := sk_ngid ts + 1\<rparr>"] by (auto simp: newGid_def)
qed simp

text \<open>A controller that keeps the configuration in its state.\<close>

definition ex_skenv :: "(persister, byte list, shard_config option) skenv" where
  "ex_skenv = \<lparr>se_rand = ex_rand, se_start = ex_mks, se_Query = \<lambda>k. Ret (k, k),
     se_InitConfig = \<lambda>c k. Ret (Some c), se_ChangeConfigTo = \<lambda>c k. Ret (Some c)\<rparr>"

subsection \<open>Property\<close>



end
