(* ===== verification/Map_Workers.thy ===== *)
theory Map_Workers
  imports Map_Reduce
begin

text \<open>
  The MapReduce applications that observe the workers through files in the working directory
  (\<^verbatim>\<open>mrapps/mtiming.go\<close>, \<^verbatim>\<open>mrapps/rtiming.go\<close>, \<^verbatim>\<open>mrapps/jobcount.go\<close>). The directory is the list of its
  names in the order in which it is read; process identifiers, the time and which processes are
  alive are arguments. The lemmas show that the names are read back as they were written, that
  \<^verbatim>\<open>nparallel\<close> counts the workers that are running, and \<^verbatim>\<open>jobcount\<close> the tasks that were started.
\<close>

subsection \<open>fmt.Sscanf of a decimal number\<close>

definition is_digit :: "char \<Rightarrow> bool" where
  "is_digit c \<longleftrightarrow> 48 \<le> (of_char c :: nat) \<and> (of_char c :: nat) \<le> 57"

text \<open>The verb \<open>%d\<close> for an \<^verbatim>\<open>int\<close>: blanks, a sign, digits; what follows is left unread.\<close>

definition scan_int :: "string \<Rightarrow> int option" where
  "scan_int s =
     (let s1 = dropWhile (\<lambda>c. c = CHR '' '' \<or> c = CHR 0x09) s;
          neg = (s1 \<noteq> [] \<and> hd s1 = CHR ''-'');
          s2 = (if s1 \<noteq> [] \<and> (hd s1 = CHR ''-'' \<or> hd s1 = CHR ''+'') then tl s1 else s1);
          ds = takeWhile is_digit s2;
          v = (if neg then - int (undigits 0 ds) else int (undigits 0 ds))
      in if ds = [] \<or> v < - (2 ^ 63) \<or> 2 ^ 63 \<le> v then None else Some v)"

definition strip_prefix :: "string \<Rightarrow> string \<Rightarrow> string option" where
  "strip_prefix p s = (if take (length p) s = p then Some (drop (length p) s) else None)"

subsection \<open>nparallel\<close>

definition worker_file :: "string \<Rightarrow> int \<Rightarrow> string" where
  "worker_file phase pid = ''mr-worker-'' @ phase @ ''-'' @ itoa pid"

text \<open>The process identifier in a name: the pattern is the prefix and \<open>%d\<close>.\<close>

definition scan_pid :: "string \<Rightarrow> string \<Rightarrow> int option" where
  "scan_pid phase name = (case strip_prefix (''mr-worker-'' @ phase @ ''-'') name of
     None \<Rightarrow> None | Some rest \<Rightarrow> scan_int rest)"

text \<open>
  The three parts of \<^verbatim>\<open>nparallel\<close>, between which other workers run: writing the own file, reading the
  directory, and after a second removing the file.
\<close>

definition np_create :: "string \<Rightarrow> int \<Rightarrow> string list \<Rightarrow> string list" where
  "np_create phase pid names = (if worker_file phase pid \<in> set names then names else names @ [worker_file phase pid])"

definition np_count :: "(int \<Rightarrow> bool) \<Rightarrow> string \<Rightarrow> string list \<Rightarrow> nat" where
  "np_count alive phase names = length (filter (\<lambda>name. case scan_pid phase name of
     None \<Rightarrow> False | Some xpid \<Rightarrow> alive xpid) (take 1000000 names))"

definition np_remove :: "string \<Rightarrow> int \<Rightarrow> string list \<Rightarrow> string list go" where
  "np_remove phase pid names =
     (if worker_file phase pid \<in> set names then Ret (removeAll (worker_file phase pid) names) else Panic ''remove'')"

text \<open>\<open>others\<close>: what the other workers do to the directory during the second of sleep.\<close>

definition nparallel :: "(int \<Rightarrow> bool) \<Rightarrow> (string list \<Rightarrow> string list) \<Rightarrow> string \<Rightarrow> int \<Rightarrow> string list \<Rightarrow> (nat \<times> string list) go" where
  "nparallel alive others phase pid names =
     (let names1 = np_create phase pid names; ret = np_count alive phase names1
      in go_bind (np_remove phase pid (others names1)) (\<lambda>names2. Ret (ret, names2)))"

text \<open>\<open>stamp\<close>: the time in seconds, printed with one decimal.\<close>

definition mtiming_Map :: "(int \<Rightarrow> bool) \<Rightarrow> (string list \<Rightarrow> string list) \<Rightarrow> string \<Rightarrow> int \<Rightarrow> string list \<Rightarrow> (KeyValue list \<times> string list) go" where
  "mtiming_Map alive others stamp pid names = go_bind (nparallel alive others ''map'' pid names) (\<lambda>(n, names').
     Ret ([kv (''times-'' @ itoa pid) stamp, kv (''parallel-'' @ itoa pid) (itoa (int n))], names'))"

definition rtiming_Reduce :: "(int \<Rightarrow> bool) \<Rightarrow> (string list \<Rightarrow> string list) \<Rightarrow> int \<Rightarrow> string list \<Rightarrow> (string \<times> string list) go" where
  "rtiming_Reduce alive others pid names = go_bind (nparallel alive others ''reduce'' pid names) (\<lambda>(n, names').
     Ret (itoa (int n), names'))"

subsection \<open>jobcount\<close>

text \<open>A worker counts its map tasks in a variable of the plugin.\<close>

definition jobcount_file :: "int \<Rightarrow> int \<Rightarrow> string" where
  "jobcount_file me cnt = ''mr-worker-jobcount-'' @ itoa me @ ''-'' @ itoa cnt"

definition jobcount_Map :: "int \<Rightarrow> int \<times> string list \<Rightarrow> KeyValue list \<times> int \<times> string list" where
  "jobcount_Map me = (\<lambda>(cnt, names). let f = jobcount_file me cnt in
     ([kv ''a'' ''x''], cnt + 1, if f \<in> set names then names else names @ [f]))"

definition jobcount_Reduce :: "string list \<Rightarrow> string" where
  "jobcount_Reduce names = (let invocations = length (filter (\<lambda>f. strip_prefix ''mr-worker-jobcount'' f \<noteq> None) names)
     in itoa (int invocations))"

subsection \<open>Names are read back\<close>

lemma is_digit_char: "d < 10 \<Longrightarrow> is_digit (digit_char d)"
  by (simp add: is_digit_def of_char_digit del: digit_char.simps)

lemma utoa_all_digits: "c \<in> set (utoa n) \<Longrightarrow> is_digit c"
  using utoa_digits is_digit_char by blast

lemma hd_utoa: "is_digit (hd (utoa n))"
  by (rule utoa_all_digits[of _ n]) simp

lemma scan_int_itoa:
  assumes "0 \<le> v" "v < 2 ^ 63"
  shows "scan_int (itoa v) = Some v"
proof -
  have it: "itoa v = utoa (nat v)" using assms(1) by (simp add: itoa_def)
  have hd: "hd (utoa (nat v)) \<notin> {CHR '' '', CHR 0x09, CHR ''-'', CHR ''+''}"
    using hd_utoa[of "nat v"] by (auto simp: is_digit_def)
  then have "dropWhile (\<lambda>c. c = CHR '' '' \<or> c = CHR 0x09) (utoa (nat v)) = utoa (nat v)"
    by (cases "utoa (nat v)") auto
  moreover have "takeWhile is_digit (utoa (nat v)) = utoa (nat v)" by (simp add: takeWhile_eq_all_conv utoa_all_digits)
  ultimately show ?thesis using hd assms by (simp add: scan_int_def it Let_def undigits_utoa del: takeWhile_eq_all_conv)
qed

lemma scan_pid_worker_file: "0 \<le> pid \<Longrightarrow> pid < 2 ^ 63 \<Longrightarrow> scan_pid phase (worker_file phase pid) = Some pid"
  by (simp add: scan_pid_def strip_prefix_def worker_file_def scan_int_itoa)

subsection \<open>Workers at the same time\<close>

text \<open>The workers of a phase run \<^verbatim>\<open>nparallel\<close> again and again, in any interleaving of its parts.\<close>

datatype np_pc = NIdle | NEntered | NCounted nat | NPanicked

record np_world =
  nw_names :: "string list"
  nw_pc :: "int \<Rightarrow> np_pc"

inductive np_step :: "(int \<Rightarrow> bool) \<Rightarrow> string \<Rightarrow> int set \<Rightarrow> np_world \<Rightarrow> np_world \<Rightarrow> bool" for alive phase P where
  enter: "pid \<in> P \<Longrightarrow> nw_pc w pid = NIdle \<Longrightarrow> np_step alive phase P w
    (w\<lparr>nw_names := np_create phase pid (nw_names w), nw_pc := (nw_pc w)(pid := NEntered)\<rparr>)"
| look: "pid \<in> P \<Longrightarrow> nw_pc w pid = NEntered \<Longrightarrow> np_step alive phase P w
    (w\<lparr>nw_pc := (nw_pc w)(pid := NCounted (np_count alive phase (nw_names w)))\<rparr>)"
| leave: "pid \<in> P \<Longrightarrow> nw_pc w pid = NCounted n \<Longrightarrow> np_remove phase pid (nw_names w) = Ret names \<Longrightarrow> np_step alive phase P w
    (w\<lparr>nw_names := names, nw_pc := (nw_pc w)(pid := NIdle)\<rparr>)"
| panic: "pid \<in> P \<Longrightarrow> nw_pc w pid = NCounted n \<Longrightarrow> np_remove phase pid (nw_names w) = Panic m \<Longrightarrow> np_step alive phase P w
    (w\<lparr>nw_pc := (nw_pc w)(pid := NPanicked)\<rparr>)"

definition running :: "int set \<Rightarrow> np_world \<Rightarrow> int set" where
  "running P w = {p \<in> P. nw_pc w p \<noteq> NIdle}"

definition np_inv :: "string list \<Rightarrow> string \<Rightarrow> int set \<Rightarrow> np_world \<Rightarrow> bool" where
  "np_inv stale phase P w \<longleftrightarrow> distinct (nw_names w) \<and> set (nw_names w) = set stale \<union> worker_file phase ` running P w \<and>
     (\<forall>p\<in>P. nw_pc w p \<noteq> NPanicked)"

lemma running_update: "p \<in> P \<Longrightarrow> running P (w\<lparr>nw_pc := (nw_pc w)(p := pc)\<rparr>) = (if pc = NIdle then running P w - {p} else insert p (running P w))"
  by (auto simp: running_def)

lemma running_names: "running P (w\<lparr>nw_names := ns, nw_pc := f\<rparr>) = running P (w\<lparr>nw_pc := f\<rparr>)"
  by (simp add: running_def)

lemma np_inv_step:
  assumes step: "np_step alive phase P w w'" and inv: "np_inv stale phase P w"
    and inj: "inj_on (worker_file phase) P" and stale: "set stale \<inter> worker_file phase ` P = {}"
  shows "np_inv stale phase P w'"
  using step
proof (cases rule: np_step.cases)
  case (enter pid)
  then show ?thesis using inv by (auto simp: np_inv_def np_create_def running_update running_names)
next
  case (look pid)
  then have "insert pid (running P w) = running P w" by (auto simp: running_def)
  then show ?thesis using inv look by (auto simp: np_inv_def running_update)
next
  case (leave pid n names)
  have "worker_file phase ` (running P w - {pid}) = worker_file phase ` running P w - {worker_file phase pid}"
    using inj_on_image_set_diff[OF inj, of "running P w" "{pid}"] leave(2) by (auto simp: running_def)
  moreover have "worker_file phase pid \<notin> set stale" using stale leave(2) by auto
  ultimately show ?thesis using inv leave
    by (auto simp: np_inv_def np_remove_def running_update running_names distinct_removeAll split: if_splits)
next
  case (panic pid n m)
  then have "pid \<in> running P w" by (simp add: running_def)
  then show ?thesis using inv panic(4) by (auto simp: np_inv_def np_remove_def split: if_splits)
qed

text \<open>
  While all workers are alive and the directory holds no file of another live process, every reading
  of the directory counts exactly the workers that are inside \<^verbatim>\<open>nparallel\<close>, and no removal fails.
\<close>

lemma nparallel_counts_running:
  assumes "(np_step alive phase P)\<^sup>*\<^sup>* \<lparr>nw_names = stale, nw_pc = \<lambda>_. NIdle\<rparr> w"
    and P: "finite P" "\<forall>p\<in>P. alive p \<and> 0 \<le> p \<and> p < 2 ^ 63"
    and stale: "distinct stale" "\<forall>n\<in>set stale. \<forall>x. scan_pid phase n = Some x \<longrightarrow> \<not> alive x"
    and few: "length stale + card P \<le> 1000000"
  shows "np_count alive phase (nw_names w) = card (running P w) \<and> (\<forall>p\<in>P. nw_pc w p \<noteq> NPanicked)"
proof -
  have inj: "inj_on (worker_file phase) P"
    by (rule inj_onI) (metis P(2) option.inject scan_pid_worker_file)
  have dis: "set stale \<inter> worker_file phase ` P = {}"
    using P(2) stale(2) scan_pid_worker_file by blast
  have "np_inv stale phase P \<lparr>nw_names = stale, nw_pc = \<lambda>_. NIdle\<rparr>" using stale(1) by (simp add: np_inv_def running_def)
  with assms(1) have inv: "np_inv stale phase P w"
    by (induction rule: rtranclp_induct) (blast intro: np_inv_step[OF _ _ inj dis])+
  then have w: "distinct (nw_names w)" "set (nw_names w) = set stale \<union> worker_file phase ` running P w"
    "\<forall>p\<in>P. nw_pc w p \<noteq> NPanicked" by (auto simp: np_inv_def)
  have sub: "running P w \<subseteq> P" by (auto simp: running_def)
  then have fin: "finite (running P w)" using P(1) finite_subset by blast
  let ?live = "\<lambda>name. case scan_pid phase name of None \<Rightarrow> False | Some xpid \<Rightarrow> alive xpid"
  have "length (nw_names w) = card (set stale \<union> worker_file phase ` running P w)" using w(1,2) distinct_card by metis
  also have "\<dots> \<le> card (set stale) + card (worker_file phase ` running P w)" by (rule card_Un_le)
  also have "\<dots> \<le> length stale + card P"
    using card_length[of stale] card_image_le[OF fin, of "worker_file phase"] card_mono[OF P(1) sub] by linarith
  finally have "take 1000000 (nw_names w) = nw_names w" using few by simp
  then have "np_count alive phase (nw_names w) = card ({n. ?live n} \<inter> set (nw_names w))"
    using distinct_length_filter[OF w(1), of ?live] by (simp add: np_count_def)
  also have "{n. ?live n} \<inter> set (nw_names w) = worker_file phase ` running P w"
    using stale(2) P(2) sub unfolding w(2) by (fastforce simp: scan_pid_worker_file split: option.splits)
  also have "card \<dots> = card (running P w)" using inj sub by (intro card_image) (rule inj_on_subset)
  finally show ?thesis using w(3) by simp
qed

subsection \<open>Counting tasks\<close>

text \<open>Map tasks of several workers, each with its own counter, on one directory.\<close>

fun run_jobs :: "int list \<Rightarrow> (int \<Rightarrow> int) \<times> string list \<Rightarrow> (int \<Rightarrow> int) \<times> string list" where
  "run_jobs [] s = s"
| "run_jobs (me # ms) s = (case jobcount_Map me (fst s me, snd s) of (_, cnt, names) \<Rightarrow> run_jobs ms ((fst s)(me := cnt), names))"

abbreviation jobcount_files :: "string list \<Rightarrow> string list" where
  "jobcount_files names \<equiv> filter (\<lambda>f. strip_prefix ''mr-worker-jobcount'' f \<noteq> None) names"

lemma jobcount_file_inj:
  assumes "jobcount_file p i = jobcount_file q j" "0 \<le> i" "0 \<le> j"
  shows "p = q \<and> i = j"
proof -
  have "itoa p @ CHR ''-'' # utoa (nat i) = itoa q @ CHR ''-'' # utoa (nat j)"
    using assms by (simp add: jobcount_file_def itoa_def[of i] itoa_def[of j])
  then have "itoa p = itoa q \<and> utoa (nat i) = utoa (nat j)" by (rule last_split) (rule utoa_no_minus)+
  then show ?thesis using assms(2,3) by (auto dest!: itoa_inj utoa_inj)
qed

lemma jobcount_counts_tasks:
  assumes "jobcount_files names = []" "run_jobs ms (\<lambda>_. 0, names) = (cnts, names')"
  shows "jobcount_Reduce names' = itoa (int (length ms))"
proof -
  have "length (jobcount_files names') = length (jobcount_files ns) + length ms"
    if "run_jobs ms (cs, ns) = (cnts, names')" "\<forall>m. 0 \<le> cs m" "\<forall>f\<in>set (jobcount_files ns). \<exists>m i. f = jobcount_file m i \<and> 0 \<le> i \<and> i < cs m"
    for cs ns using that
  proof (induction ms arbitrary: cs ns)
    case (Cons me ms)
    let ?f = "jobcount_file me (cs me)"
    have pre: "strip_prefix ''mr-worker-jobcount'' ?f \<noteq> None" by (simp add: strip_prefix_def jobcount_file_def)
    have new: "?f \<notin> set ns"
    proof
      assume "?f \<in> set ns"
      then obtain m i where "?f = jobcount_file m i" "0 \<le> i" "i < cs m" using Cons.prems(3) pre by auto
      then show False using jobcount_file_inj Cons.prems(2) by fastforce
    qed
    have run: "run_jobs ms (cs(me := cs me + 1), ns @ [?f]) = (cnts, names')"
      using Cons.prems(1) new by (simp add: jobcount_Map_def Let_def)
    have pos: "\<forall>m. 0 \<le> (cs(me := cs me + 1)) m" using Cons.prems(2) by (simp add: add_nonneg_nonneg)
    have "\<forall>f\<in>set (jobcount_files (ns @ [?f])). \<exists>m i. f = jobcount_file m i \<and> 0 \<le> i \<and> i < (cs(me := cs me + 1)) m"
    proof
      fix f assume "f \<in> set (jobcount_files (ns @ [?f]))"
      then consider "f \<in> set (jobcount_files ns)" | "f = ?f" using pre by auto
      then show "\<exists>m i. f = jobcount_file m i \<and> 0 \<le> i \<and> i < (cs(me := cs me + 1)) m"
      proof cases
        case 1
        with Cons.prems(3) obtain m i where "f = jobcount_file m i" "0 \<le> i" "i < cs m" by blast
        then have "f = jobcount_file m i \<and> 0 \<le> i \<and> i < (cs(me := cs me + 1)) m" by auto
        then show ?thesis by blast
      next
        case 2
        then have "f = jobcount_file me (cs me) \<and> 0 \<le> cs me \<and> cs me < (cs(me := cs me + 1)) me" using Cons.prems(2) by simp
        then show ?thesis by blast
      qed
    qed
    from Cons.IH[OF run pos this] pre show ?case by simp
  qed simp
  moreover have "\<forall>f\<in>set (jobcount_files names). \<exists>m i. f = jobcount_file m i \<and> 0 \<le> i \<and> i < (\<lambda>_. 0) m"
    unfolding assms(1) by simp
  ultimately have "length (jobcount_files names') = length (jobcount_files names) + length ms" using assms(2) by blast
  then show ?thesis unfolding assms(1) by (simp add: jobcount_Reduce_def Let_def)
qed

end
