(* ===== verification/Kv_Skeleton.thy ===== *)
theory Kv_Skeleton
  imports Shardkv_Test Kv_Test
begin

text \<open>
  The clerks, servers and the controller as the repository leaves them for the labs to fill in
  (\<^verbatim>\<open>kvsrv1\<close>, \<^verbatim>\<open>kvraft1\<close>, \<^verbatim>\<open>shardkv1\<close>): their state, what their constructors set and what the bodies
  return. The lemmas say what the test framework does with them: it does not accept them.
\<close>

subsection \<open>Messages\<close>

record PutArgs =
  pa_Key :: string
  pa_Value :: string
  pa_Version :: tversion

record PutReply =
  pr_Err :: string

record GetArgs =
  ga_Key :: string

record GetReply =
  gr_Value :: string
  gr_Version :: tversion
  gr_Err :: string

record FreezeShardArgs =
  fa_Shard :: tshid
  fa_Num :: tnum

record FreezeShardReply =
  fr_State :: "byte list option"
  fr_Num :: tnum
  fr_Err :: string

record InstallShardArgs =
  ia_Shard :: tshid
  ia_State :: "byte list option"
  ia_Num :: tnum

record InstallShardReply =
  ir_Err :: string

record DeleteShardArgs =
  da_Shard :: tshid
  da_Num :: tnum

record DeleteShardReply =
  dr_Err :: string

subsection \<open>Clerks\<close>

text \<open>A clerk keeps its client, here an index, and the servers it was made for.\<close>

record kvsrv_clerk =
  kc_clnt :: nat
  kc_server :: string

definition kvsrv_MakeClerk :: "nat \<Rightarrow> string \<Rightarrow> kvsrv_clerk" where
  "kvsrv_MakeClerk cl srv = \<lparr>kc_clnt = cl, kc_server = srv\<rparr>"

definition kvsrv_Get :: "string \<Rightarrow> kvsrv_clerk \<Rightarrow> ((string \<times> tversion \<times> string) \<times> kvsrv_clerk) go" where
  "kvsrv_Get key ck = Ret (([], 0, ErrNoKey), ck)"

definition kvsrv_Put :: "string \<Rightarrow> string \<Rightarrow> tversion \<Rightarrow> kvsrv_clerk \<Rightarrow> (string \<times> kvsrv_clerk) go" where
  "kvsrv_Put key v version ck = Ret (ErrNoKey, ck)"

record grp_clerk =
  gc_clnt :: nat
  gc_servers :: "string list"

definition kvraft_MakeClerk :: "nat \<Rightarrow> string list \<Rightarrow> grp_clerk" where
  "kvraft_MakeClerk cl srvs = \<lparr>gc_clnt = cl, gc_servers = srvs\<rparr>"

definition kvraft_Get :: "string \<Rightarrow> grp_clerk \<Rightarrow> ((string \<times> tversion \<times> string) \<times> grp_clerk) go" where
  "kvraft_Get key ck = Ret (([], 0, []), ck)"

definition kvraft_Put :: "string \<Rightarrow> string \<Rightarrow> tversion \<Rightarrow> grp_clerk \<Rightarrow> (string \<times> grp_clerk) go" where
  "kvraft_Put key v version ck = Ret ([], ck)"

definition shardgrp_MakeClerk :: "nat \<Rightarrow> string list \<Rightarrow> grp_clerk" where
  "shardgrp_MakeClerk cl srvs = \<lparr>gc_clnt = cl, gc_servers = srvs\<rparr>"

definition shardgrp_Get :: "string \<Rightarrow> grp_clerk \<Rightarrow> ((string \<times> tversion \<times> string) \<times> grp_clerk) go" where
  "shardgrp_Get key ck = Ret (([], 0, []), ck)"

definition shardgrp_Put :: "string \<Rightarrow> string \<Rightarrow> tversion \<Rightarrow> grp_clerk \<Rightarrow> (string \<times> grp_clerk) go" where
  "shardgrp_Put key v version ck = Ret ([], ck)"

definition shardgrp_FreezeShard :: "tshid \<Rightarrow> tnum \<Rightarrow> grp_clerk \<Rightarrow> (byte list option \<times> string) \<times> grp_clerk" where
  "shardgrp_FreezeShard s num ck = ((None, []), ck)"

definition shardgrp_InstallShard :: "tshid \<Rightarrow> byte list option \<Rightarrow> tnum \<Rightarrow> grp_clerk \<Rightarrow> string \<times> grp_clerk" where
  "shardgrp_InstallShard s st num ck = ([], ck)"

definition shardgrp_DeleteShard :: "tshid \<Rightarrow> tnum \<Rightarrow> grp_clerk \<Rightarrow> string \<times> grp_clerk" where
  "shardgrp_DeleteShard s num ck = ([], ck)"

subsection \<open>The shard controller\<close>

record ShardCtrler =
  sc_clnt :: nat
  sc_clerk :: kvsrv_clerk
  sc_killed :: "32 word"

definition MakeShardCtrler :: "nat \<Rightarrow> ShardCtrler" where
  "MakeShardCtrler cl = (let srv = ServerName GRP0 0 in \<lparr>sc_clnt = cl, sc_clerk = kvsrv_MakeClerk cl srv, sc_killed = 0\<rparr>)"

definition sc_InitController :: "ShardCtrler \<Rightarrow> ShardCtrler" where
  "sc_InitController sck = sck"

definition sc_InitConfig :: "shard_config \<Rightarrow> ShardCtrler \<Rightarrow> ShardCtrler go" where
  "sc_InitConfig cfg sck = Ret sck"

definition sc_ChangeConfigTo :: "shard_config \<Rightarrow> ShardCtrler \<Rightarrow> ShardCtrler go" where
  "sc_ChangeConfigTo new sck = Ret sck"

definition sc_Query :: "ShardCtrler \<Rightarrow> (shard_config option \<times> ShardCtrler) go" where
  "sc_Query sck = Ret (None, sck)"

record shard_clerk =
  sk_clnt :: nat
  sk_sck :: ShardCtrler

definition shardkv_MakeClerk :: "nat \<Rightarrow> ShardCtrler \<Rightarrow> shard_clerk" where
  "shardkv_MakeClerk cl sck = \<lparr>sk_clnt = cl, sk_sck = sck\<rparr>"

definition shardkv_Get :: "string \<Rightarrow> shard_clerk \<Rightarrow> ((string \<times> tversion \<times> string) \<times> shard_clerk) go" where
  "shardkv_Get key ck = Ret (([], 0, []), ck)"

definition shardkv_Put :: "string \<Rightarrow> string \<Rightarrow> tversion \<Rightarrow> shard_clerk \<Rightarrow> (string \<times> shard_clerk) go" where
  "shardkv_Put key v version ck = Ret ([], ck)"

subsection \<open>Servers\<close>

text \<open>
  The handlers have empty bodies: the reply stays as it was passed in. A replicated server keeps
  its index, whether it was killed and its state machine; a server of a shard group also its group.
\<close>

definition kvsrv_handle_Get :: "GetArgs \<Rightarrow> GetReply \<Rightarrow> GetReply" where
  "kvsrv_handle_Get args reply = reply"

definition kvsrv_handle_Put :: "PutArgs \<Rightarrow> PutReply \<Rightarrow> PutReply" where
  "kvsrv_handle_Put args reply = reply"

record 'f KVServer =
  ks_me :: nat
  ks_dead :: "32 word"
  ks_rsm :: "'f RSM"

definition kvraft_DoOp :: "'req \<Rightarrow> 'f KVServer \<Rightarrow> 'rep option \<times> 'f KVServer" where
  "kvraft_DoOp req kv = (None, kv)"

definition kvraft_Snapshot :: "'f KVServer \<Rightarrow> byte list option" where
  "kvraft_Snapshot kv = None"

definition kvraft_Restore :: "byte list option \<Rightarrow> 'f KVServer \<Rightarrow> 'f KVServer" where
  "kvraft_Restore data kv = kv"

definition kvraft_handle_Get :: "GetArgs \<Rightarrow> GetReply \<Rightarrow> 'f KVServer \<Rightarrow> GetReply \<times> 'f KVServer" where
  "kvraft_handle_Get args reply kv = (reply, kv)"

definition kvraft_handle_Put :: "PutArgs \<Rightarrow> PutReply \<Rightarrow> 'f KVServer \<Rightarrow> PutReply \<times> 'f KVServer" where
  "kvraft_handle_Put args reply kv = (reply, kv)"

definition kvraft_Kill :: "'f KVServer \<Rightarrow> 'f KVServer" where
  "kvraft_Kill kv = kv\<lparr>ks_dead := 1\<rparr>"

definition kvraft_killed :: "'f KVServer \<Rightarrow> bool" where
  "kvraft_killed kv \<longleftrightarrow> ks_dead kv = 1"

text \<open>The services of a server: itself and the Raft peer of its state machine, if it has one.\<close>

definition kvraft_StartKVServer :: "bool \<Rightarrow> 'f \<Rightarrow> nat \<Rightarrow> int \<Rightarrow> 'f KVServer \<times> 'f option" where
  "kvraft_StartKVServer useSM raft me maxraftstate =
     (let kv = \<lparr>ks_me = me, ks_dead = 0, ks_rsm = MakeRSM useSM raft me maxraftstate\<rparr> in (kv, RSM_Raft (ks_rsm kv)))"

record 'f shard_server = "'f KVServer" +
  ks_gid :: tgid

definition shardgrp_DoOp :: "'req \<Rightarrow> 'f shard_server \<Rightarrow> 'rep option \<times> 'f shard_server" where
  "shardgrp_DoOp req kv = (None, kv)"

definition shardgrp_Snapshot :: "'f shard_server \<Rightarrow> byte list option" where
  "shardgrp_Snapshot kv = None"

definition shardgrp_Restore :: "byte list option \<Rightarrow> 'f shard_server \<Rightarrow> 'f shard_server" where
  "shardgrp_Restore data kv = kv"

definition shardgrp_handle_Get :: "GetArgs \<Rightarrow> GetReply \<Rightarrow> 'f shard_server \<Rightarrow> GetReply \<times> 'f shard_server" where
  "shardgrp_handle_Get args reply kv = (reply, kv)"

definition shardgrp_handle_Put :: "PutArgs \<Rightarrow> PutReply \<Rightarrow> 'f shard_server \<Rightarrow> PutReply \<times> 'f shard_server" where
  "shardgrp_handle_Put args reply kv = (reply, kv)"

definition handle_FreezeShard :: "FreezeShardArgs \<Rightarrow> FreezeShardReply \<Rightarrow> 'f shard_server \<Rightarrow> FreezeShardReply \<times> 'f shard_server" where
  "handle_FreezeShard args reply kv = (reply, kv)"

definition handle_InstallShard :: "InstallShardArgs \<Rightarrow> InstallShardReply \<Rightarrow> 'f shard_server \<Rightarrow> InstallShardReply \<times> 'f shard_server" where
  "handle_InstallShard args reply kv = (reply, kv)"

definition handle_DeleteShard :: "DeleteShardArgs \<Rightarrow> DeleteShardReply \<Rightarrow> 'f shard_server \<Rightarrow> DeleteShardReply \<times> 'f shard_server" where
  "handle_DeleteShard args reply kv = (reply, kv)"

definition shardgrp_Kill :: "'f shard_server \<Rightarrow> 'f shard_server" where
  "shardgrp_Kill kv = kv\<lparr>ks_dead := 1\<rparr>"

definition shardgrp_killed :: "'f shard_server \<Rightarrow> bool" where
  "shardgrp_killed kv \<longleftrightarrow> ks_dead kv = 1"

definition shardgrp_Start :: "bool \<Rightarrow> 'f \<Rightarrow> tgid \<Rightarrow> nat \<Rightarrow> int \<Rightarrow> 'f shard_server \<times> 'f option" where
  "shardgrp_Start useSM raft gid me maxraftstate =
     (let kv = \<lparr>ks_me = me, ks_dead = 0, ks_rsm = MakeRSM useSM raft me maxraftstate, ks_gid = gid\<rparr> in (kv, RSM_Raft (ks_rsm kv)))"

text \<open>The lock of \<^verbatim>\<open>kvsrv1/lock\<close> keeps its clerk; acquiring and releasing do nothing.\<close>

record 'w Lock =
  lk_ck :: "'w clerk"

definition MakeLock :: "'w clerk \<Rightarrow> string \<Rightarrow> 'w Lock" where
  "MakeLock ck l = \<lparr>lk_ck = ck\<rparr>"

definition lock_Acquire :: "'w Lock \<Rightarrow> 'w \<Rightarrow> 'w go" where
  "lock_Acquire lk w = Ret w"

definition lock_Release :: "'w Lock \<Rightarrow> 'w \<Rightarrow> 'w go" where
  "lock_Release lk w = Ret w"

subsection \<open>What the tests do with them\<close>

text \<open>
  A clerk that answers every put of the version 0 with an error other than \<^verbatim>\<open>ErrVersion\<close> and
  \<^verbatim>\<open>ErrMaybe\<close> makes \<^verbatim>\<open>PutAtLeastOnce\<close> run forever.
\<close>

definition refuses :: "'w clerk \<Rightarrow> string \<Rightarrow> string \<Rightarrow> bool" where
  "refuses ck key v \<longleftrightarrow> (\<forall>w. \<exists>w' err. ck_Put ck key v 0 w = Ret (err, w') \<and> err \<notin> {OK, ErrMaybe, ErrVersion})"

lemma kv_Put_refused:
  assumes "refuses ck key v"
  shows "\<exists>err s'. kv_Put clk ck key v 0 me s = Ret (err, s') \<and> err \<notin> {OK, ErrMaybe, ErrVersion}"
proof -
  from assms obtain w' err where "ck_Put ck key v 0 (kt_w s) = Ret (err, w')" "err \<notin> {OK, ErrMaybe, ErrVersion}"
    unfolding refuses_def by blast
  then show ?thesis by (simp add: kv_Put_def Let_def)
qed

lemma put_loop_refused:
  assumes "put_loop clk ck key v me ver s = Some r"
  shows "\<not> (ver = 0 \<and> refuses ck key v)"
proof (rule put_loop.raw_induct[OF _ assms])
  fix loop :: "(nat \<Rightarrow> int) \<Rightarrow> 'a clerk \<Rightarrow> string \<Rightarrow> string \<Rightarrow> int \<Rightarrow> tversion \<Rightarrow> 'a kt \<Rightarrow> (tversion \<times> 'a kt) go option"
    and clk :: "nat \<Rightarrow> int" and ck :: "'a clerk" and key v me ver and s :: "'a kt" and r
  assume IH: "\<And>clk ck key v me ver s r. loop clk ck key v me ver s = Some r \<Longrightarrow> \<not> (ver = 0 \<and> refuses ck key v)"
    and body: "(case ts_Put clk ck key v ver me s of
     Ret r \<Rightarrow> (if fst r = OK then Some (Ret (ver + 1, snd r))
       else if fst r = ErrMaybe \<or> fst r = ErrVersion then loop clk ck key v me (ver + 1) (snd r)
       else if ver \<noteq> 0 then Some (Fatal ''Put %v ver %d err %v'')
       else loop clk ck key v me ver (snd r))
   | Fatal m \<Rightarrow> Some (Fatal m) | Panic m \<Rightarrow> Some (Panic m) | Diverge \<Rightarrow> None) = Some r"
  show "\<not> (ver = 0 \<and> refuses ck key v)"
  proof
    assume p: "ver = 0 \<and> refuses ck key v"
    then obtain err s' where "kv_Put clk ck key v 0 me s = Ret (err, s')" "err \<notin> {OK, ErrMaybe, ErrVersion}"
      using kv_Put_refused by blast
    then have "loop clk ck key v me 0 s' = Some r" using body p by (simp add: ts_Put_def)
    then show False using IH p by blast
  qed
qed

lemma PutAtLeastOnce_diverges: "refuses ck key v \<Longrightarrow> PutAtLeastOnce clk ck key v 0 me s = Diverge"
  using put_loop_refused[of clk ck key v me 0 s] by (auto simp: PutAtLeastOnce_def split: option.split)

lemma CheckGet_rejects:
  assumes "ck_Get ck key (kt_w s) = Ret ((val, ver, err), w')" "err \<noteq> OK"
  shows "CheckGet clk ck key value version s \<noteq> Ret s'"
proof
  assume "CheckGet clk ck key value version s = Ret s'"
  then obtain s1 where "ann_read clk (\<lambda>t. AnnotateCheckerBegin t
       (''checking Get('' @ key @ '') = ('' @ value @ '', '' @ itoa (uint version) @ '')'')) s = Ret s1"
    and 2: "go_bind (ts_Get clk ck key 0 s1) (\<lambda>((val, ver, err), s2).
       if err \<noteq> OK then
         (let msg = ''Get('' @ key @ '') returns error = '' @ err
          in go_bind (ann_read clk (\<lambda>t. AnnotateCheckerFailure t msg msg) s2) (\<lambda>_. Fatal msg))
       else if val \<noteq> value \<or> ver \<noteq> version then
         (let msg = ''Get('' @ key @ '') returns ('' @ val @ '', '' @ itoa (uint ver) @ '') != ('' @ value @ '', '' @ itoa (uint version) @ '')''
          in go_bind (ann_read clk (\<lambda>t. AnnotateCheckerFailure t msg msg) s2) (\<lambda>_. Fatal msg))
       else
         (let msg = ''Get('' @ key @ '') returns ('' @ val @ '', '' @ itoa (uint ver) @ '') as expected''
          in ann_read clk (\<lambda>t. AnnotateCheckerSuccess t msg ''OK'') s2)) = Ret s'"
    unfolding CheckGet_def go_bind_Ret_iff by blast
  then have "kt_w s1 = kt_w s" by (auto simp: ann_read_def go_bind_Ret_iff)
  then obtain s2 where "ts_Get clk ck key 0 s1 = Ret ((val, ver, err), s2)"
    using assms(1) by (simp add: ts_Get_def kv_Get_def Let_def)
  with 2 assms(2) show False by (simp add: Let_def go_bind_Ret_iff)
qed

text \<open>The clerks of the repository.\<close>

definition kvsrv_ops :: "kvsrv_clerk clerk" where
  "kvsrv_ops = \<lparr>ck_Get = kvsrv_Get, ck_Put = kvsrv_Put\<rparr>"

definition kvraft_ops :: "grp_clerk clerk" where
  "kvraft_ops = \<lparr>ck_Get = kvraft_Get, ck_Put = kvraft_Put\<rparr>"

definition shardkv_ops :: "shard_clerk clerk" where
  "shardkv_ops = \<lparr>ck_Get = shardkv_Get, ck_Put = shardkv_Put\<rparr>"

lemma skeleton_clerks_refuse: "refuses kvsrv_ops key v" "refuses kvraft_ops key v" "refuses shardkv_ops key v"
  by (simp_all add: refuses_def kvsrv_ops_def kvraft_ops_def shardkv_ops_def kvsrv_Put_def kvraft_Put_def shardkv_Put_def err_defs)

lemma skeleton_clerks_rejected:
  "CheckGet clk kvsrv_ops key value version s1 \<noteq> Ret s1'"
  "CheckGet clk kvraft_ops key value version s2 \<noteq> Ret s2'"
  "CheckGet clk shardkv_ops key value version s3 \<noteq> Ret s3'"
  by (rule CheckGet_rejects, simp add: kvsrv_ops_def kvraft_ops_def shardkv_ops_def kvsrv_Get_def kvraft_Get_def shardkv_Get_def, simp add: err_defs)+

text \<open>With the controller of the repository the sharded service is set up, but joining a group panics.\<close>

definition skeleton_env :: "(nat \<Rightarrow> string) \<Rightarrow> ('s, 'v) fstart \<Rightarrow> ('s, 'v, ShardCtrler) skenv" where
  "skeleton_env rand mks = \<lparr>se_rand = rand, se_start = mks, se_Query = sc_Query, se_InitConfig = sc_InitConfig, se_ChangeConfigTo = sc_ChangeConfigTo\<rparr>"

lemma skeleton_controller_panics:
  assumes "fresh_names rand (cf_state (sk_cfg ts))"
  shows "joinGroups (skeleton_env rand mks) (g # gs) ts = Panic ''nil pointer dereference''"
proof -
  let ?env = "skeleton_env rand mks"
  have "fresh_names (se_rand ?env) (cf_state (sk_cfg ts))" using assms by (simp add: skeleton_env_def)
  from sk_MakeGroupStart_ok[OF this, of g] obtain cfg sg where
    m: "sk_MakeGroupStart ?env g ts = Ret (ts\<lparr>sk_cfg := cfg\<rparr>)" "cfg_Group g cfg = Some sg" by blast
  have "sk_Query ?env (ts\<lparr>sk_cfg := cfg\<rparr>) = Panic ''nil pointer dereference''"
    by (simp add: sk_Query_def skeleton_env_def sc_Query_def)
  with m show ?thesis by (simp add: group_names_def sk_join_def)
qed

end
