(* ===== verification/Kv_Puts.thy ===== *)
theory Kv_Puts
  imports Kv_Test
begin

text \<open>
  Clients that put to shared keys (\<^verbatim>\<open>OneClientPut\<close> and \<^verbatim>\<open>OnePut\<close> of \<^verbatim>\<open>kvtest1/kvtest.go\<close>) as a step
  relation: each client runs its loop, and the calls of its clerk take effect at one point between
  call and return. The result is that no check in the clients fails and that
  \<^verbatim>\<open>CheckPutConcurrent\<close> accepts the counts they report, whatever the interleaving.
\<close>

subsection \<open>One client\<close>

text \<open>
  The places of a client: at the \<^verbatim>\<open>select\<close> of \<^verbatim>\<open>OneClientPut\<close>, in \<^verbatim>\<open>OnePut\<close> before its put and before
  its get, returned, or stopped by \<^verbatim>\<open>Fatalf\<close>.
\<close>

datatype put_pc = PHead | PPut string tversion | PGet string tversion string | PReturned | PFailed string

record putter =
  pu_verm :: "string \<Rightarrow> tversion"
  pu_res :: ClntRes
  pu_pc :: put_pc

definition putter_start :: putter where
  "putter_start = \<lparr>pu_verm = \<lambda>_. 0, pu_res = \<lparr>Nok = 0, Nmaybe = 0\<rparr>, pu_pc = PHead\<rparr>"

text \<open>The key of a round: the first one, or one that is drawn.\<close>

definition choose_key :: "bool \<Rightarrow> nat \<Rightarrow> string list \<Rightarrow> string go" where
  "choose_key randomkeys draw ka =
     go_bind (go_nth ka 0) (\<lambda>k. if randomkeys then go_nth ka (draw mod length ka) else Ret k)"

definition enter_put :: "string \<Rightarrow> putter \<Rightarrow> putter" where
  "enter_put k a = a\<lparr>pu_pc := PPut k (pu_verm a k)\<rparr>"

text \<open>What \<^verbatim>\<open>OnePut\<close> does with the result of its put.\<close>

definition put_answer :: "string \<Rightarrow> tversion \<Rightarrow> string \<Rightarrow> putter \<Rightarrow> putter" where
  "put_answer k ver err a =
     (if \<not> (err = OK \<or> err = ErrVersion \<or> err = ErrMaybe) then a\<lparr>pu_pc := PFailed ''Wrong error %v''\<rparr>
      else a\<lparr>pu_pc := PGet k ver err\<rparr>)"

text \<open>
  What it does with the result of its get, \<open>None\<close> for a missing key: it tries again, or the client counts the put.
\<close>

definition count_put :: "string \<Rightarrow> tversion \<Rightarrow> bool \<Rightarrow> putter \<Rightarrow> putter" where
  "count_put k ver ok a = a\<lparr>pu_verm := (pu_verm a)(k := ver), pu_pc := PHead,
     pu_res := (if ok then pu_res a\<lparr>Nok := Nok (pu_res a) + 1\<rparr> else pu_res a\<lparr>Nmaybe := Nmaybe (pu_res a) + 1\<rparr>)\<rparr>"

definition get_answer :: "int \<Rightarrow> string \<Rightarrow> tversion \<Rightarrow> string \<Rightarrow> (EntryV \<times> tversion) option \<Rightarrow> putter \<Rightarrow> putter" where
  "get_answer me k ver err got a = (case got of
     None \<Rightarrow> a\<lparr>pu_pc := PFailed ''%d: Get %q err %v''\<rparr>
   | Some (e, ver0) \<Rightarrow>
       if err = OK \<and> ver0 = ver + 1 \<and> ev_Id e \<noteq> me \<and> ev_V e \<noteq> ver then a\<lparr>pu_pc := PFailed ''Wrong value %v''\<rparr>
       else if err = OK \<or> err = ErrMaybe then count_put k ver0 (err = OK) a
       else a\<lparr>pu_pc := PPut k ver0\<rparr>)"

subsection \<open>Many clients\<close>

record put_world =
  pw_store :: "string \<Rightarrow> EntryV \<times> tversion"
  pw_clients :: "putter list"

definition set_putter :: "put_world \<Rightarrow> nat \<Rightarrow> putter \<Rightarrow> put_world" where
  "set_putter w me a = w\<lparr>pw_clients := (pw_clients w)[me := a]\<rparr>"

definition pw_get :: "put_world \<Rightarrow> string \<Rightarrow> (EntryV \<times> tversion) option" where
  "pw_get w k = (if snd (pw_store w k) = 0 then None else Some (pw_store w k))"

text \<open>
  A put with the version of the key is applied and answered \<^verbatim>\<open>OK\<close> or \<^verbatim>\<open>ErrMaybe\<close>; any other put is
  answered \<^verbatim>\<open>ErrVersion\<close>, \<^verbatim>\<open>ErrMaybe\<close> or, for a missing key, \<^verbatim>\<open>ErrNoKey\<close>. On a reliable network
  nothing is sent again, so \<^verbatim>\<open>ErrMaybe\<close> does not occur.
\<close>

inductive put_step :: "bool \<Rightarrow> bool \<Rightarrow> string list \<Rightarrow> put_world \<Rightarrow> put_world \<Rightarrow> bool" for reliable randomkeys ka where
  stop: "me < length (pw_clients w) \<Longrightarrow> a = pw_clients w ! me \<Longrightarrow> pu_pc a = PHead \<Longrightarrow>
    put_step reliable randomkeys ka w (set_putter w me (a\<lparr>pu_pc := PReturned\<rparr>))"
| choose: "me < length (pw_clients w) \<Longrightarrow> a = pw_clients w ! me \<Longrightarrow> pu_pc a = PHead \<Longrightarrow>
    choose_key randomkeys draw ka = Ret k \<Longrightarrow>
    put_step reliable randomkeys ka w (set_putter w me (enter_put k a))"
| put_applied: "me < length (pw_clients w) \<Longrightarrow> a = pw_clients w ! me \<Longrightarrow> pu_pc a = PPut k ver \<Longrightarrow>
    ver = snd (pw_store w k) \<Longrightarrow> err = OK \<or> \<not> reliable \<and> err = ErrMaybe \<Longrightarrow>
    put_step reliable randomkeys ka w (set_putter
      (w\<lparr>pw_store := (pw_store w)(k := (\<lparr>ev_Id = int me, ev_V = ver\<rparr>, ver + 1))\<rparr>) me (put_answer k ver err a))"
| put_refused: "me < length (pw_clients w) \<Longrightarrow> a = pw_clients w ! me \<Longrightarrow> pu_pc a = PPut k ver \<Longrightarrow>
    ver \<noteq> snd (pw_store w k) \<Longrightarrow>
    err = ErrVersion \<or> \<not> reliable \<and> err = ErrMaybe \<or> snd (pw_store w k) = 0 \<and> err = ErrNoKey \<Longrightarrow>
    put_step reliable randomkeys ka w (set_putter w me (put_answer k ver err a))"
| get: "me < length (pw_clients w) \<Longrightarrow> a = pw_clients w ! me \<Longrightarrow> pu_pc a = PGet k ver err \<Longrightarrow>
    put_step reliable randomkeys ka w (set_putter w me (get_answer (int me) k ver err (pw_get w k) a))"

definition puts_start :: "nat \<Rightarrow> put_world" where
  "puts_start n = \<lparr>pw_store = \<lambda>_. (\<lparr>ev_Id = 0, ev_V = 0\<rparr>, 0), pw_clients = replicate n putter_start\<rparr>"

definition put_results :: "put_world \<Rightarrow> ClntRes list" where
  "put_results w = map pu_res (pw_clients w)"

subsection \<open>The invariant\<close>

text \<open>The version of a key as a number; the puts of a client answered \<^verbatim>\<open>OK\<close> and \<^verbatim>\<open>ErrMaybe\<close> so far.\<close>

abbreviation vers :: "put_world \<Rightarrow> string \<Rightarrow> nat" where
  "vers w k \<equiv> unat (snd (pw_store w k))"

definition oks :: "putter \<Rightarrow> int" where
  "oks a = Nok (pu_res a) + (case pu_pc a of PGet k ver err \<Rightarrow> if err = OK then 1 else 0 | _ \<Rightarrow> 0)"

definition mays :: "putter \<Rightarrow> int" where
  "mays a = Nmaybe (pu_res a) + (case pu_pc a of PGet k ver err \<Rightarrow> if err = ErrMaybe then 1 else 0 | _ \<Rightarrow> 0)"

definition all_oks :: "put_world \<Rightarrow> int" where
  "all_oks w = sum_list (map oks (pw_clients w))"

definition all_mays :: "put_world \<Rightarrow> int" where
  "all_mays w = sum_list (map mays (pw_clients w))"

fun pc_ok :: "string set \<Rightarrow> nat \<Rightarrow> put_world \<Rightarrow> put_pc \<Rightarrow> bool" where
  "pc_ok K c w PHead \<longleftrightarrow> True"
| "pc_ok K c w PReturned \<longleftrightarrow> True"
| "pc_ok K c w (PFailed m) \<longleftrightarrow> False"
| "pc_ok K c w (PPut k ver) \<longleftrightarrow> k \<in> K \<and> unat ver \<le> vers w k"
| "pc_ok K c w (PGet k ver err) \<longleftrightarrow> k \<in> K \<and> 0 < vers w k \<and> unat ver \<le> vers w k \<and>
     (err = OK \<or> err = ErrVersion \<or> err = ErrMaybe) \<and>
     (err = OK \<longrightarrow> unat ver < vers w k \<and> (vers w k = Suc (unat ver) \<longrightarrow> ev_Id (fst (pw_store w k)) = int c))"

definition putter_ok :: "string set \<Rightarrow> nat \<Rightarrow> put_world \<Rightarrow> putter \<Rightarrow> bool" where
  "putter_ok K c w a \<longleftrightarrow> (\<forall>k. unat (pu_verm a k) \<le> vers w k) \<and> pc_ok K c w (pu_pc a)"

definition putters_ok :: "string set \<Rightarrow> put_world \<Rightarrow> bool" where
  "putters_ok K w \<longleftrightarrow> (\<forall>c<length (pw_clients w). putter_ok K c w (pw_clients w ! c))"

text \<open>The versions together lie between the puts answered \<^verbatim>\<open>OK\<close> and those answered \<^verbatim>\<open>OK\<close> or \<^verbatim>\<open>ErrMaybe\<close>.\<close>

definition counts_ok :: "bool \<Rightarrow> int \<Rightarrow> int \<Rightarrow> int \<Rightarrow> bool" where
  "counts_ok reliable puts noks nmays \<longleftrightarrow> noks \<le> puts \<and> puts \<le> noks + nmays \<and> 0 \<le> nmays \<and> (reliable \<longrightarrow> nmays = 0)"

definition puts_inv :: "bool \<Rightarrow> string set \<Rightarrow> nat \<Rightarrow> put_world \<Rightarrow> bool" where
  "puts_inv reliable K j w \<longleftrightarrow> putters_ok K w \<and> counts_ok reliable (int (\<Sum>k\<in>K. vers w k)) (all_oks w) (all_mays w) \<and>
     (\<Sum>k\<in>K. vers w k) \<le> j \<and> all_mays w \<le> int j"

lemma sum_list_map_update:
  fixes f :: "'a \<Rightarrow> int"
  shows "me < length xs \<Longrightarrow> sum_list (map f (xs[me := a])) = sum_list (map f xs) + f a - f (xs ! me)"
proof (induction xs arbitrary: me)
  case (Cons x xs)
  then show ?case by (cases me) auto
qed simp

lemma set_putter_simps [simp]:
  "pw_store (set_putter w me a) = pw_store w"
  "length (pw_clients (set_putter w me a)) = length (pw_clients w)"
  "me < length (pw_clients w) \<Longrightarrow> all_oks (set_putter w me a) = all_oks w + oks a - oks (pw_clients w ! me)"
  "me < length (pw_clients w) \<Longrightarrow> all_mays (set_putter w me a) = all_mays w + mays a - mays (pw_clients w ! me)"
  by (simp_all add: set_putter_def all_oks_def all_mays_def sum_list_map_update)

lemma store_update_simps [simp]:
  "all_oks (w\<lparr>pw_store := f\<rparr>) = all_oks w" "all_mays (w\<lparr>pw_store := f\<rparr>) = all_mays w"
  by (simp_all add: all_oks_def all_mays_def)

lemma pc_ok_cong: "pw_store w = pw_store w' \<Longrightarrow> pc_ok K c w pc = pc_ok K c w' pc"
  by (cases pc) simp_all

lemma putter_ok_cong:
  assumes "pw_store w = pw_store w'"
  shows "putter_ok K c w a = putter_ok K c w' a"
  by (simp only: putter_ok_def pc_ok_cong[OF assms] assms)

text \<open>A step that leaves the store alone.\<close>

lemma puts_inv_set:
  assumes "puts_inv reliable K j w" "me < length (pw_clients w)" "putter_ok K me w a"
    "oks a = oks (pw_clients w ! me)" "mays (pw_clients w ! me) \<le> mays a"
    "mays a \<le> mays (pw_clients w ! me) + 1" "reliable \<Longrightarrow> mays a = mays (pw_clients w ! me)"
  shows "puts_inv reliable K (Suc j) (set_putter w me a)"
proof -
  have "putter_ok K c w (pw_clients (set_putter w me a) ! c)" if "c < length (pw_clients w)" for c
    using assms(1-3) that by (cases "c = me") (simp_all add: puts_inv_def putters_ok_def set_putter_def)
  then have "putters_ok K (set_putter w me a)"
    by (simp add: putters_ok_def putter_ok_cong[of "set_putter w me a" w])
  moreover have "counts_ok reliable (int (\<Sum>k\<in>K. vers w k)) (all_oks w) (all_mays w + mays a - mays (pw_clients w ! me))"
    using assms(1,5,7) by (simp add: puts_inv_def counts_ok_def)
  ultimately show ?thesis using assms(1,2,4,6) by (simp add: puts_inv_def)
qed

text \<open>A put that is applied: the versions that the other clients know stay below the current one.\<close>

lemma putter_ok_grow:
  assumes "putter_ok K c w a" "unat ver = vers w k" "unat (ver + 1) = Suc (vers w k)"
  shows "putter_ok K c (w\<lparr>pw_store := (pw_store w)(k := (e, ver + 1))\<rparr>) a"
  using assms by (cases "pu_pc a") (auto simp: putter_ok_def le_Suc_eq)

lemma puts_inv_apply:
  assumes inv: "puts_inv reliable K j w" "finite K" and j: "Suc j < 2 ^ 64"
    and me: "me < length (pw_clients w)" "a = pw_clients w ! me" "pu_pc a = PPut k ver" "ver = snd (pw_store w k)"
    and err: "err = OK \<or> \<not> reliable \<and> err = ErrMaybe"
  shows "puts_inv reliable K (Suc j) (set_putter
    (w\<lparr>pw_store := (pw_store w)(k := (\<lparr>ev_Id = int me, ev_V = ver\<rparr>, ver + 1))\<rparr>) me (put_answer k ver err a))"
    (is "puts_inv _ _ _ (set_putter ?w me ?a)")
proof -
  have a: "putter_ok K me w a" using inv(1) me(1,2) by (simp add: puts_inv_def putters_ok_def)
  then have k: "k \<in> K" using me(3) by (simp add: putter_ok_def)
  have "vers w k \<le> (\<Sum>k\<in>K. vers w k)" using inv(2) k by (intro member_le_sum) auto
  then have lt: "vers w k < 2 ^ 64 - 1" using inv(1) j by (simp add: puts_inv_def)
  have suc: "unat (ver + 1) = Suc (vers w k)" using lt me(4) by (simp add: unat_word_ariths(1))
  have sum: "(\<Sum>k\<in>K. vers ?w k) = Suc (\<Sum>k\<in>K. vers w k)"
    using inv(2) k suc by (simp add: sum.remove[of K k])
  have mine: "putter_ok K me (set_putter ?w me ?a) ?a"
    using a me(3,4) err suc k by (auto simp: putter_ok_def put_answer_def le_Suc_eq)
  have "putter_ok K c (set_putter ?w me ?a) (pw_clients (set_putter ?w me ?a) ! c)" if c: "c < length (pw_clients w)" for c
  proof (cases "c = me")
    case True
    then show ?thesis using mine me(1) by (simp add: set_putter_def)
  next
    case False
    have "putter_ok K c w (pw_clients w ! c)" using inv(1) c by (simp add: puts_inv_def putters_ok_def)
    from putter_ok_grow[OF this _ suc] me(4) False
    show ?thesis using putter_ok_cong[of "set_putter ?w me ?a" ?w] by (simp add: set_putter_def)
  qed
  then have "putters_ok K (set_putter ?w me ?a)" by (simp add: putters_ok_def)
  moreover have "oks ?a = oks a + (if err = OK then 1 else 0)" "mays ?a = mays a + (if err = ErrMaybe then 1 else 0)"
    using me(3) err by (auto simp: oks_def mays_def put_answer_def err_defs)
  ultimately show ?thesis using inv(1) me(1,2) err sum by (auto simp: puts_inv_def counts_ok_def err_defs)
qed

lemma choose_key_in: "choose_key randomkeys draw ka = Ret k \<Longrightarrow> k \<in> set ka"
  by (auto simp: choose_key_def go_bind_Ret_iff go_nth_def split: if_splits)

lemma puts_inv_step:
  assumes "put_step reliable randomkeys ka w w'" "puts_inv reliable (set ka) j w" "Suc j < 2 ^ 64"
  shows "puts_inv reliable (set ka) (Suc j) w'"
proof -
  have ok: "putter_ok (set ka) me w (pw_clients w ! me)" if "me < length (pw_clients w)" for me
    using assms(2) that by (simp add: puts_inv_def putters_ok_def)
  show ?thesis
    using assms(1)
  proof (cases rule: put_step.cases)
    case (stop me a)
    then show ?thesis unfolding stop(1) using ok[of me]
      by (intro puts_inv_set[OF assms(2)]) (auto simp: putter_ok_def oks_def mays_def)
  next
    case (choose me a draw k)
    then show ?thesis unfolding choose(1) using ok[of me] choose_key_in[OF choose(5)]
      by (intro puts_inv_set[OF assms(2)]) (auto simp: putter_ok_def oks_def mays_def enter_put_def)
  next
    case (put_applied me a k ver err)
    then show ?thesis using puts_inv_apply[OF assms(2) _ assms(3)] by simp
  next
    case (put_refused me a k ver err)
    have "unat ver \<noteq> vers w k" using put_refused(5) by (simp add: word_unat_eq_iff)
    then have pos: "unat ver < vers w k" "err \<noteq> ErrNoKey"
      using ok[of me] put_refused by (auto simp: putter_ok_def err_defs)
    show ?thesis unfolding put_refused(1) using ok[of me] put_refused(2-4,6) pos
      by (intro puts_inv_set[OF assms(2)]) (auto simp: putter_ok_def oks_def mays_def put_answer_def err_defs)
  next
    case (get me a k ver err)
    have pos: "0 < vers w k" "err = OK \<or> err = ErrVersion \<or> err = ErrMaybe" "k \<in> set ka"
      "err = OK \<Longrightarrow> vers w k = Suc (unat ver) \<Longrightarrow> ev_Id (fst (pw_store w k)) = int me"
      using ok[OF get(2)] get(3,4) by (auto simp: putter_ok_def)
    have suc: "vers w k = Suc (unat ver)" if "snd (pw_store w k) = ver + 1"
    proof -
      have "1 + ver \<noteq> 0" using that pos(1) by (metis add.commute less_irrefl unat_0)
      then show ?thesis using that unatSuc[of ver] by (simp add: add.commute)
    qed
    obtain e v where st: "pw_store w k = (e, v)" by (cases "pw_store w k")
    have "v \<noteq> 0" using pos(1) st by auto
    then show ?thesis unfolding get(1) using ok[OF get(2)] get(2-4) pos suc st
      by (intro puts_inv_set[OF assms(2)])
        (auto simp: putter_ok_def oks_def mays_def get_answer_def count_put_def pw_get_def err_defs)
  qed
qed

lemma puts_inv_start: "puts_inv reliable K 0 (puts_start n)"
  by (simp add: puts_inv_def putters_ok_def counts_ok_def puts_start_def putter_start_def putter_ok_def
      all_oks_def all_mays_def oks_def mays_def sum_list_replicate)

lemma puts_inv_steps:
  assumes "(put_step reliable randomkeys ka ^^ j) (puts_start n) w" "j < 2 ^ 64"
  shows "puts_inv reliable (set ka) j w"
  using assms
proof (induction j arbitrary: w)
  case (Suc j)
  then show ?case using puts_inv_step by (auto elim!: relcomppE)
qed (auto simp: puts_inv_start)

text \<open>The sums that \<^verbatim>\<open>CheckPutConcurrent\<close> builds, once every client has returned.\<close>

lemma results_sum:
  "fold (\<lambda>r res. res\<lparr>Nok := Nok res + Nok r, Nmaybe := Nmaybe res + Nmaybe r\<rparr>) rs res =
     res\<lparr>Nok := Nok res + sum_list (map Nok rs), Nmaybe := Nmaybe res + sum_list (map Nmaybe rs)\<rparr>"
  by (induction rs arbitrary: res) (simp_all add: add.assoc)

lemma returned_counts:
  assumes "list_all (\<lambda>a. pu_pc a = PReturned) (pw_clients w)"
  shows "sum_list (map Nok (put_results w)) = all_oks w" "sum_list (map Nmaybe (put_results w)) = all_mays w"
  using assms by (auto simp: put_results_def all_oks_def all_mays_def oks_def mays_def list_all_iff comp_def
      intro!: arg_cong[where f = sum_list] map_cong)

lemma no_putter_failed: "puts_inv reliable K j w \<Longrightarrow> a \<in> set (pw_clients w) \<Longrightarrow> pu_pc a \<noteq> PFailed m"
  by (auto simp: puts_inv_def putters_ok_def putter_ok_def in_set_conv_nth)

lemma uint_of_int_small: "0 \<le> x \<Longrightarrow> x < 2 ^ 64 \<Longrightarrow> uint (of_int x :: 64 word) = x"
  by (simp add: uint_word_of_int_eq take_bit_int_eq_self)

lemma CheckPutConcurrent_passes:
  assumes inv: "puts_inv reliable (set ka) j w" "j < 2 ^ 63" and all: "list_all (\<lambda>a. pu_pc a = PReturned) (pw_clients w)"
    and k: "k \<in> set ka" "reliable \<longrightarrow> set ka = {k}"
    and got: "GetJson clk dec ck k (- 1) s = Ret ((e, snd (pw_store w k)), s')"
  shows "CheckPutConcurrent clk dec ck k (put_results w) \<lparr>Nok = 0, Nmaybe = 0\<rparr> reliable s =
    Ret (\<lparr>Nok = all_oks w, Nmaybe = all_mays w\<rparr>, s')"
proof -
  define total where "total = (\<Sum>k\<in>set ka. vers w k)"
  have c: "counts_ok reliable (int total) (all_oks w) (all_mays w)" "all_mays w \<le> int j" "total \<le> j"
    using inv(1) unfolding puts_inv_def total_def by blast+
  have le: "vers w k \<le> total" unfolding total_def using k(1) by (intro member_le_sum) auto
  have "snd (pw_store w k) = of_int (all_oks w)" if reliable
  proof -
    have "all_oks w = int (vers w k)" using c(1) k(2) that by (simp add: counts_ok_def total_def)
    then show ?thesis by simp
  qed
  moreover have "\<not> of_int (all_oks w + all_mays w) < snd (pw_store w k)"
  proof -
    have two_64: "(2::int) ^ 64 = 2 * int (2 ^ 63)" by simp
    have b: "int (vers w k) \<le> all_oks w + all_mays w" "all_oks w + all_mays w < 2 ^ 64" "0 \<le> all_oks w + all_mays w"
      using c le inv(2) using two_64 unfolding counts_ok_def by linarith+
    then have "uint (of_int (all_oks w + all_mays w) :: 64 word) = all_oks w + all_mays w"
      by (intro uint_of_int_small)
    then show ?thesis using b(1) unfolding word_less_def by simp
  qed
  ultimately show ?thesis
    unfolding CheckPutConcurrent_def got go_bind.simps case_prod_conv results_sum returned_counts[OF all]
    by (simp add: Let_def)
qed

subsection \<open>Property\<close>

text \<open>
  Property C18: the check of concurrent puts accepts every run on a correct store. Let \<open>n\<close> clients
  run \<^verbatim>\<open>OneClientPut\<close> on the keys \<open>ka\<close> in any interleaving of \<open>j\<close> steps (fewer than $2^{63}$). No
  client fails in \<^verbatim>\<open>OnePut\<close>; and when all have returned, \<^verbatim>\<open>CheckPutConcurrent\<close> for a key that was put,
  with a correct clerk on the final store and the counts the clients report, does not fail and adds
  these counts: on an unreliable network for every key, on a reliable one, where the version has to be equal
  to the number of puts, if there is only this key.
\<close>

theorem concurrent_puts_pass_check:
  assumes "(put_step reliable randomkeys ka ^^ j) (puts_start n) w" "j < 2 ^ 63"
    and "k \<in> set ka" "reliable \<longrightarrow> set ka = {k}"
    and "kv_clerk ck ok st" "ok (kt_w s)" "pw_get w k = Some (e, v)" "st (kt_w s) k = \<lparr>st_Value = b, st_Version = v\<rparr>" "dec b = Some e"
  shows "list_all (\<lambda>a. \<forall>m. pu_pc a \<noteq> PFailed m) (pw_clients w) \<and>
    (list_all (\<lambda>a. pu_pc a = PReturned) (pw_clients w) \<longrightarrow>
      (\<exists>s'. CheckPutConcurrent clk dec ck k (put_results w) \<lparr>Nok = 0, Nmaybe = 0\<rparr> reliable s =
        Ret (\<lparr>Nok = sum_list (map Nok (put_results w)), Nmaybe = sum_list (map Nmaybe (put_results w))\<rparr>, s')))"
proof -
  have v: "v = snd (pw_store w k)" "v \<noteq> 0" using assms(7) by (auto simp: pw_get_def split: if_splits)
  obtain s' where "kv_Get clk ck k (- 1) s = Ret ((b, v, OK), s')"
    using kv_clerk.kv_Get_eq[OF assms(5,6), where clk = clk and key = k and cli = "- 1"] assms(8) v(2) by auto
  then have got: "GetJson clk dec ck k (- 1) s = Ret ((e, snd (pw_store w k)), s')" using assms(9) v(1) by (simp add: GetJson_def)
  have inv: "puts_inv reliable (set ka) j w" using puts_inv_steps[OF assms(1)] assms(2) by simp
  have "\<exists>s'. CheckPutConcurrent clk dec ck k (put_results w) \<lparr>Nok = 0, Nmaybe = 0\<rparr> reliable s =
      Ret (\<lparr>Nok = sum_list (map Nok (put_results w)), Nmaybe = sum_list (map Nmaybe (put_results w))\<rparr>, s')"
    if all: "list_all (\<lambda>a. pu_pc a = PReturned) (pw_clients w)"
    using CheckPutConcurrent_passes[OF inv assms(2) all assms(3,4) got] by (simp add: returned_counts[OF all])
  then show ?thesis using no_putter_failed[OF inv] by (simp add: list_all_iff)
qed

text \<open>Two clients: the put of the first is applied and answered \<^verbatim>\<open>ErrMaybe\<close>, the second has to try twice.\<close>

definition ex_puts :: put_world where
  "ex_puts = \<lparr>pw_store = (\<lambda>_. (\<lparr>ev_Id = 0, ev_V = 0\<rparr>, 0))(''k'' := (\<lparr>ev_Id = 1, ev_V = 1\<rparr>, 2)), pw_clients =
     [\<lparr>pu_verm = (\<lambda>_. 0)(''k'' := 2), pu_res = \<lparr>Nok = 0, Nmaybe = 1\<rparr>, pu_pc = PReturned\<rparr>,
      \<lparr>pu_verm = (\<lambda>_. 0)(''k'' := 2), pu_res = \<lparr>Nok = 1, Nmaybe = 0\<rparr>, pu_pc = PReturned\<rparr>]\<rparr>"

definition ex_puts_at :: "(EntryV \<times> tversion) \<Rightarrow> (tversion \<times> int \<times> int \<times> put_pc) list \<Rightarrow> put_world" where
  "ex_puts_at x cs = \<lparr>pw_store = (\<lambda>_. (\<lparr>ev_Id = 0, ev_V = 0\<rparr>, 0))(''k'' := x), pw_clients =
     map (\<lambda>(ver, nok, nmay, pc). \<lparr>pu_verm = (\<lambda>_. 0)(''k'' := ver), pu_res = \<lparr>Nok = nok, Nmaybe = nmay\<rparr>, pu_pc = pc\<rparr>) cs\<rparr>"

lemmas ex_put_defs = ex_puts_at_def set_putter_def enter_put_def put_answer_def get_answer_def count_put_def pw_get_def
  choose_key_def go_nth_def err_defs

lemma ex_puts_run: "\<exists>j<20. (put_step False False [''k''] ^^ j) (puts_start 2) ex_puts"
proof -
  let ?put = "put_step False False [''k'']"
  let ?e0 = "(\<lparr>ev_Id = 0, ev_V = 0\<rparr>, 0)" and ?e1 = "(\<lparr>ev_Id = 0, ev_V = 0\<rparr>, 1)" and ?e2 = "(\<lparr>ev_Id = 1, ev_V = 1\<rparr>, 2)"
  have s0: "(?put ^^ 0) (puts_start 2) (ex_puts_at ?e0 [(0, 0, 0, PHead), (0, 0, 0, PHead)])"
    by (simp add: puts_start_def putter_start_def ex_puts_at_def numeral_2_eq_2 fun_upd_idem)
  have s1: "?put (ex_puts_at ?e0 [(0, 0, 0, PHead), (0, 0, 0, PHead)]) (ex_puts_at ?e0 [(0, 0, 0, PPut ''k'' 0), (0, 0, 0, PHead)])"
    using put_step.choose[of 0 "ex_puts_at ?e0 [(0, 0, 0, PHead), (0, 0, 0, PHead)]"] by (force simp: ex_put_defs)
  have s2: "?put (ex_puts_at ?e0 [(0, 0, 0, PPut ''k'' 0), (0, 0, 0, PHead)]) (ex_puts_at ?e0 [(0, 0, 0, PPut ''k'' 0), (0, 0, 0, PPut ''k'' 0)])"
    using put_step.choose[of 1 "ex_puts_at ?e0 [(0, 0, 0, PPut ''k'' 0), (0, 0, 0, PHead)]"] by (force simp: ex_put_defs)
  have s3: "?put (ex_puts_at ?e0 [(0, 0, 0, PPut ''k'' 0), (0, 0, 0, PPut ''k'' 0)]) (ex_puts_at ?e1 [(0, 0, 0, PGet ''k'' 0 ErrMaybe), (0, 0, 0, PPut ''k'' 0)])"
    using put_step.put_applied[of 0 "ex_puts_at ?e0 [(0, 0, 0, PPut ''k'' 0), (0, 0, 0, PPut ''k'' 0)]" _ "''k''" 0 ErrMaybe False]
    by (simp add: ex_put_defs)
  have s4: "?put (ex_puts_at ?e1 [(0, 0, 0, PGet ''k'' 0 ErrMaybe), (0, 0, 0, PPut ''k'' 0)]) (ex_puts_at ?e1 [(0, 0, 0, PGet ''k'' 0 ErrMaybe), (0, 0, 0, PGet ''k'' 0 ErrVersion)])"
    using put_step.put_refused[of 1 "ex_puts_at ?e1 [(0, 0, 0, PGet ''k'' 0 ErrMaybe), (0, 0, 0, PPut ''k'' 0)]" _ "''k''" 0 ErrVersion]
    by (simp add: ex_put_defs)
  have s5: "?put (ex_puts_at ?e1 [(0, 0, 0, PGet ''k'' 0 ErrMaybe), (0, 0, 0, PGet ''k'' 0 ErrVersion)]) (ex_puts_at ?e1 [(0, 0, 0, PGet ''k'' 0 ErrMaybe), (0, 0, 0, PPut ''k'' 1)])"
    using put_step.get[of 1 "ex_puts_at ?e1 [(0, 0, 0, PGet ''k'' 0 ErrMaybe), (0, 0, 0, PGet ''k'' 0 ErrVersion)]" _ "''k''" 0 ErrVersion]
    by (simp add: ex_put_defs)
  have s6: "?put (ex_puts_at ?e1 [(0, 0, 0, PGet ''k'' 0 ErrMaybe), (0, 0, 0, PPut ''k'' 1)]) (ex_puts_at ?e2 [(0, 0, 0, PGet ''k'' 0 ErrMaybe), (0, 0, 0, PGet ''k'' 1 OK)])"
    using put_step.put_applied[of 1 "ex_puts_at ?e1 [(0, 0, 0, PGet ''k'' 0 ErrMaybe), (0, 0, 0, PPut ''k'' 1)]" _ "''k''" 1 OK False]
    by (simp add: ex_put_defs)
  have s7: "?put (ex_puts_at ?e2 [(0, 0, 0, PGet ''k'' 0 ErrMaybe), (0, 0, 0, PGet ''k'' 1 OK)]) (ex_puts_at ?e2 [(0, 0, 0, PGet ''k'' 0 ErrMaybe), (2, 1, 0, PHead)])"
    using put_step.get[of 1 "ex_puts_at ?e2 [(0, 0, 0, PGet ''k'' 0 ErrMaybe), (0, 0, 0, PGet ''k'' 1 OK)]" _ "''k''" 1 OK]
    by (simp add: ex_put_defs)
  have s8: "?put (ex_puts_at ?e2 [(0, 0, 0, PGet ''k'' 0 ErrMaybe), (2, 1, 0, PHead)]) (ex_puts_at ?e2 [(2, 0, 1, PHead), (2, 1, 0, PHead)])"
    using put_step.get[of 0 "ex_puts_at ?e2 [(0, 0, 0, PGet ''k'' 0 ErrMaybe), (2, 1, 0, PHead)]" _ "''k''" 0 ErrMaybe]
    by (simp add: ex_put_defs)
  have s9: "?put (ex_puts_at ?e2 [(2, 0, 1, PHead), (2, 1, 0, PHead)]) (ex_puts_at ?e2 [(2, 0, 1, PReturned), (2, 1, 0, PHead)])"
    using put_step.stop[of 0 "ex_puts_at ?e2 [(2, 0, 1, PHead), (2, 1, 0, PHead)]"] by (force simp: ex_put_defs)
  have "?put (ex_puts_at ?e2 [(2, 0, 1, PReturned), (2, 1, 0, PHead)]) (ex_puts_at ?e2 [(2, 0, 1, PReturned), (2, 1, 0, PReturned)])"
    using put_step.stop[of 1 "ex_puts_at ?e2 [(2, 0, 1, PReturned), (2, 1, 0, PHead)]"] by (force simp: ex_put_defs)
  then have s10: "?put (ex_puts_at ?e2 [(2, 0, 1, PReturned), (2, 1, 0, PHead)]) ex_puts" by (simp add: ex_puts_def ex_puts_at_def)
  from s0 have start: "puts_start 2 = ex_puts_at ?e0 [(0, 0, 0, PHead), (0, 0, 0, PHead)]" by simp
  note add = relpowp_Suc_I2[where P = ?put]
  have "(?put ^^ Suc (Suc 0)) (ex_puts_at ?e2 [(2, 0, 1, PHead), (2, 1, 0, PHead)]) ex_puts"
    by (rule add, rule s9, rule add, rule s10, simp)
  then have "(?put ^^ Suc (Suc (Suc (Suc (Suc 0))))) (ex_puts_at ?e1 [(0, 0, 0, PGet ''k'' 0 ErrMaybe), (0, 0, 0, PPut ''k'' 1)]) ex_puts"
    by (intro add[OF s6] add[OF s7] add[OF s8])
  then have "(?put ^^ Suc (Suc (Suc (Suc (Suc (Suc (Suc (Suc 0)))))))) (ex_puts_at ?e0 [(0, 0, 0, PPut ''k'' 0), (0, 0, 0, PPut ''k'' 0)]) ex_puts"
    by (intro add[OF s3] add[OF s4] add[OF s5])
  then have "(?put ^^ Suc (Suc (Suc (Suc (Suc (Suc (Suc (Suc (Suc (Suc 0)))))))))) (puts_start 2) ex_puts"
    unfolding start by (intro add[OF s1] add[OF s2])
  then show ?thesis by (intro exI[of _ "Suc (Suc (Suc (Suc (Suc (Suc (Suc (Suc (Suc (Suc 0)))))))))"] conjI) simp_all
qed

theorem concurrent_puts_pass_check_witness:
  "\<exists>s'. CheckPutConcurrent int (\<lambda>b. if b = ''e'' then Some \<lparr>ev_Id = 1, ev_V = 1\<rparr> else None) model_clerk ''k'' (put_results ex_puts)
     \<lparr>Nok = 0, Nmaybe = 0\<rparr> False (kt_start (\<lambda>_. \<lparr>st_Value = ''e'', st_Version = 2\<rparr>, []) 1) = Ret (\<lparr>Nok = 1, Nmaybe = 1\<rparr>, s')"
proof -
  obtain j where j: "(put_step False False [''k''] ^^ j) (puts_start 2) ex_puts" "j < 20" using ex_puts_run by blast
  from concurrent_puts_pass_check[OF j(1) _ _ _ mclerk.kv_clerk_axioms, where k = "''k''" and s = "kt_start (\<lambda>_. \<lparr>st_Value = ''e'', st_Version = 2\<rparr>, []) 1"
      and e = "\<lparr>ev_Id = 1, ev_V = 1\<rparr>" and v = 2 and b = "''e''" and dec = "\<lambda>b. if b = ''e'' then Some \<lparr>ev_Id = 1, ev_V = 1\<rparr> else None"
      and clk = int] j(2)
  show ?thesis by (simp add: ex_puts_def kt_start_def pw_get_def put_results_def)
qed

end
