(* ===== verification/Kv_Drivers.thy ===== *)
theory Kv_Drivers
  imports Kv_Skeleton Kv_Puts
begin

text \<open>
  The drivers of the key/value tests (\<^verbatim>\<open>kvraft1/test.go\<close>, \<^verbatim>\<open>kvsrv1/test.go\<close>, and what
  \<^verbatim>\<open>kvtest1/kvtest.go\<close> and \<^verbatim>\<open>shardkv1/test.go\<close> add to make clerks): they compose a configuration with
  a server group, clients and clerks. The lemmas follow a clerk that is made for some of
  the servers through configuration, client and network: its calls reach no other server.
\<close>

subsection \<open>Tests of the replicated service\<close>

definition Gid :: tgid where
  "Gid = GRP0"

record ('s, 'v) kvraft_test =
  kr_cfg :: "('s, 'v) config"
  kr_part :: string
  kr_nclients :: int
  kr_nservers :: nat
  kr_crash :: bool
  kr_partitions :: bool
  kr_maxraftstate :: int
  kr_randomkeys :: bool

definition makeTitle :: "('s, 'v) kvraft_test \<Rightarrow> string" where
  "makeTitle ts =
     (let title0 = ''Test: '';
          title1 = (if kr_crash ts then title0 @ ''restarts, '' else title0);
          title2 = (if kr_partitions ts then title1 @ ''partitions, '' else title1);
          title3 = (if kr_maxraftstate ts \<noteq> -1 then title2 @ ''snapshots, '' else title2);
          title4 = (if kr_randomkeys ts then title3 @ ''random keys, '' else title3);
          title5 = (if kr_nclients ts > 1 then title4 @ ''many clients'' else title4 @ ''one client'')
      in title5 @ '' ('' @ kr_part ts @ '')'')"

text \<open>
  \<open>mks\<close> starts a server for a bound on the Raft state; \<open>now\<close> and \<open>t0\<close> are the times at which the
  configuration is made and the test begins.
\<close>

definition kvraft_MakeTest :: "(nat \<Rightarrow> string) \<Rightarrow> int \<Rightarrow> int \<Rightarrow> (int \<Rightarrow> ('s, 'v) fstart) \<Rightarrow> string \<Rightarrow> int \<Rightarrow> nat \<Rightarrow> bool \<Rightarrow> bool \<Rightarrow> bool \<Rightarrow> int \<Rightarrow> bool \<Rightarrow>
    ('s, 'v) kvraft_test go" where
  "kvraft_MakeTest rand now t0 mks part nclients nservers reliable crash partitions maxraftstate randomkeys =
     go_bind (MakeConfig rand now nservers reliable (mks maxraftstate)) (\<lambda>cfg.
       Ret \<lparr>kr_cfg = Begin t0 cfg, kr_part = part, kr_nclients = nclients, kr_nservers = nservers, kr_crash = crash,
         kr_partitions = partitions, kr_maxraftstate = maxraftstate, kr_randomkeys = randomkeys\<rparr>)"

text \<open>A new client of the configuration, allowed to reach the given servers (\<open>None\<close>: all).\<close>

definition cfg_client :: "string list option \<Rightarrow> ('s, 'v) config \<Rightarrow> (nat \<times> ('s, 'v) config) go" where
  "cfg_client srvs cfg = go_bind (MakeClientTo srvs (cf_clnts cfg)) (\<lambda>(a, ks). Ret (a, cfg\<lparr>cf_clnts := ks\<rparr>))"

definition cfg_delete_client :: "nat \<Rightarrow> ('s, 'v) config \<Rightarrow> ('s, 'v) config go" where
  "cfg_delete_client a cfg = go_bind (DeleteClient a (cf_clnts cfg, cf_state cfg)) (\<lambda>(ks, st). Ret (cfg\<lparr>cf_clnts := ks, cf_state := st\<rparr>))"

definition cfg_names :: "tgid \<Rightarrow> ('s, 'v) config \<Rightarrow> string list go" where
  "cfg_names gid cfg = (case cfg_Group gid cfg of None \<Rightarrow> Panic ''nil pointer dereference'' | Some sg \<Rightarrow> Ret (SrvNames sg))"

definition kvraft_clerk :: "('s, 'v) kvraft_test \<Rightarrow> (grp_clerk \<times> ('s, 'v) kvraft_test) go" where
  "kvraft_clerk ts = go_bind (cfg_client None (kr_cfg ts)) (\<lambda>(cl, cfg).
     go_bind (cfg_names Gid cfg) (\<lambda>names. Ret (kvraft_MakeClerk cl names, ts\<lparr>kr_cfg := cfg\<rparr>)))"

definition kvraft_clerk_to :: "nat list \<Rightarrow> ('s, 'v) kvraft_test \<Rightarrow> (grp_clerk \<times> ('s, 'v) kvraft_test) go" where
  "kvraft_clerk_to to ts = (case cfg_Group Gid (kr_cfg ts) of
     None \<Rightarrow> Panic ''nil pointer dereference''
   | Some sg \<Rightarrow> go_bind (SrvNamesTo to sg) (\<lambda>ns.
       go_bind (cfg_client (Some ns) (kr_cfg ts)) (\<lambda>(cl, cfg).
         go_bind (cfg_names Gid cfg) (\<lambda>names. Ret (kvraft_MakeClerk cl names, ts\<lparr>kr_cfg := cfg\<rparr>)))))"

definition kvraft_delete_clerk :: "grp_clerk \<Rightarrow> ('s, 'v) kvraft_test \<Rightarrow> ('s, 'v) kvraft_test go" where
  "kvraft_delete_clerk ck ts = go_bind (cfg_delete_client (gc_clnt ck) (kr_cfg ts)) (\<lambda>cfg. Ret (ts\<lparr>kr_cfg := cfg\<rparr>))"

subsection \<open>Tests of the single server\<close>

record ('s, 'v) kvsrv_test =
  kt_cfg :: "('s, 'v) config"
  kt_reliable :: bool

definition MakeTestKV :: "(nat \<Rightarrow> string) \<Rightarrow> int \<Rightarrow> ('s, 'v) fstart \<Rightarrow> bool \<Rightarrow> ('s, 'v) kvsrv_test go" where
  "MakeTestKV rand now mks reliable = go_bind (MakeConfig rand now 1 reliable mks) (\<lambda>cfg. Ret \<lparr>kt_cfg = cfg, kt_reliable = reliable\<rparr>)"

definition kvsrv_test_clerk :: "('s, 'v) kvsrv_test \<Rightarrow> (kvsrv_clerk \<times> ('s, 'v) kvsrv_test) go" where
  "kvsrv_test_clerk ts = go_bind (cfg_client None (kt_cfg ts)) (\<lambda>(cl, cfg). Ret (kvsrv_MakeClerk cl (ServerName GRP0 0), ts\<lparr>kt_cfg := cfg\<rparr>))"

definition kvsrv_delete_clerk :: "kvsrv_clerk \<Rightarrow> ('s, 'v) kvsrv_test \<Rightarrow> ('s, 'v) kvsrv_test go" where
  "kvsrv_delete_clerk ck ts = go_bind (cfg_delete_client (kc_clnt ck) (kt_cfg ts)) (\<lambda>cfg. Ret (ts\<lparr>kt_cfg := cfg\<rparr>))"

subsection \<open>Clerks of the sharded service\<close>

definition makeShardCtrlerClnt :: "('s, 'v) config \<Rightarrow> ((ShardCtrler \<times> nat) \<times> ('s, 'v) config) go" where
  "makeShardCtrlerClnt cfg = go_bind (cfg_client None cfg) (\<lambda>(cl, cfg'). Ret ((MakeShardCtrler cl, cl), cfg'))"

definition makeShardCtrler :: "('s, 'v) config \<Rightarrow> (ShardCtrler \<times> ('s, 'v) config) go" where
  "makeShardCtrler cfg = go_bind (makeShardCtrlerClnt cfg) (\<lambda>((ck, _), cfg'). Ret (ck, cfg'))"

definition shardkv_clerk :: "('s, 'v) config \<Rightarrow> (shard_clerk \<times> ('s, 'v) config) go" where
  "shardkv_clerk cfg = go_bind (cfg_client None cfg) (\<lambda>(cl, cfg1).
     go_bind (makeShardCtrler cfg1) (\<lambda>(sck, cfg2). Ret (shardkv_MakeClerk cl sck, cfg2)))"

definition shardkv_delete_clerk :: "shard_clerk \<Rightarrow> ('s, 'v) config \<Rightarrow> ('s, 'v) config go" where
  "shardkv_delete_clerk ck cfg = cfg_delete_client (sk_clnt ck) cfg"

definition makeKVClerk :: "('s, 'v) config \<Rightarrow> (kvsrv_clerk \<times> ('s, 'v) config) go" where
  "makeKVClerk cfg = (let srv = ServerName GRP0 0 in go_bind (cfg_client None cfg) (\<lambda>(cl, cfg'). Ret (kvsrv_MakeClerk cl srv, cfg')))"

subsection \<open>A client that may reach some servers\<close>

text \<open>The ends that the client has to other servers exist and are disabled.\<close>

definition limited :: "string list \<Rightarrow> clnt \<Rightarrow> ('s, 'v) tstate \<Rightarrow> bool" where
  "limited ns c st \<longleftrightarrow> cl_srvs c = Some ns \<and>
     (\<forall>(srv, e)\<in>set (cl_ends c). rn_ends (t_net st) e \<noteq> None \<and> (srv \<notin> set ns \<longrightarrow> \<not> is_enabled (t_net st) e))"

lemma limited_new: "limited ns (makeClntTo (Some ns)) st"
  by (simp add: limited_def makeClntTo_def)

lemma limited_cong:
  "limited ns c st \<Longrightarrow> rn_ends (t_net st') = rn_ends (t_net st) \<Longrightarrow> is_enabled (t_net st') = is_enabled (t_net st) \<Longrightarrow> limited ns c st'"
  by (simp add: limited_def)

lemma allowedL_iff: "cl_srvs c = Some ns \<Longrightarrow> allowedL c server \<longleftrightarrow> server \<in> set ns"
  by (auto simp: allowedL_def list_ex_iff)

lemma limited_makeEnd:
  assumes "limited ns c st" "fresh_names rand st"
  shows "\<exists>e c' st'. clnt_makeEnd rand server (c, st) = Ret (e, c', st') \<and> limited ns c' st' \<and> fresh_names rand st' \<and>
    t_heap st' = t_heap st \<and> rn_done (t_net st') = rn_done (t_net st) \<and> (server \<notin> set ns \<longrightarrow> \<not> is_enabled (t_net st') e)"
  using clnt_makeEnd_cases[OF assms(2), of c server]
proof (elim disjE exE conjE)
  fix e assume e: "map_of (cl_ends c) server = Some e" "clnt_makeEnd rand server (c, st) = Ret (e, c, st)"
  then have "server \<notin> set ns \<longrightarrow> \<not> is_enabled (t_net st) e" using assms(1) by (auto simp: limited_def dest: map_of_SomeD)
  with e(2) assms show ?thesis by blast
next
  let ?e = "rand (t_draws st)" and ?c = "c\<lparr>cl_ends := cl_ends c @ [(server, rand (t_draws st))]\<rparr>"
  fix st' assume st': "clnt_makeEnd rand server (c, st) = Ret (?e, ?c, st')" "fresh_names rand st'"
    "t_heap st' = t_heap st" "rn_done (t_net st') = rn_done (t_net st)" "rn_ends (t_net st') = (rn_ends (t_net st))(?e \<mapsto> ?e)"
    "\<forall>e. is_enabled (t_net st') e = (if e = ?e then allowedL c server else is_enabled (t_net st) e)"
  have srvs: "cl_srvs c = Some ns" using assms(1) by (simp add: limited_def)
  have none: "rn_ends (t_net st) ?e = None" using assms(2) by (simp add: fresh_names_def)
  have "limited ns ?c st'"
    using assms(1) none st'(5,6) allowedL_iff[OF srvs] by (auto simp: limited_def)
  moreover have "server \<notin> set ns \<longrightarrow> \<not> is_enabled (t_net st') ?e" using st'(6) allowedL_iff[OF srvs] by simp
  ultimately show ?thesis using st'(1-4) by blast
qed

lemma accepted_call_frame [simp]:
  "rn_ends (accept_call req rn) = rn_ends rn" "is_enabled (accept_call req rn) = is_enabled rn" "rn_done (accept_call req rn) = rn_done rn"
  by (simp_all add: accept_call_def is_enabled_def fun_eq_iff)

lemma counted_reply_frame [simp]:
  "rn_ends (count_reply pc rn) = rn_ends rn" "is_enabled (count_reply pc rn) = is_enabled rn" "rn_done (count_reply pc rn) = rn_done rn"
  by (simp_all add: count_reply_def is_enabled_def fun_eq_iff split: call_pc.split)

lemma Call_alone_frame:
  assumes "Call_alone cd draws e meth args reply (rn, heap) = Ret (ok, v, rn', heap')"
  shows "rn_ends rn' = rn_ends rn \<and> is_enabled rn' = is_enabled rn \<and> rn_done rn' = rn_done rn"
proof -
  obtain d0 d1 d2 where d: "draws = (d0, d1, d2)" by (cases draws)
  obtain b where b: "cd_enc cd args = Some b" using assms by (cases "cd_enc cd args") (simp_all add: Call_alone_def d)
  let ?req = "\<lparr>rq_endname = e, rq_svcMeth = meth, rq_args = b\<rparr>"
  have "rn' = rn \<or> rn' = accept_call ?req rn \<or> (\<exists>pc. rn' = count_reply pc (accept_call ?req rn))"
  proof (cases "rn_done rn")
    case True
    then show ?thesis using assms by (simp add: Call_alone_def d b)
  next
    case False
    show ?thesis
    proof (cases "process_start (accept_call ?req rn) ?req d0")
      case (Waiting sn srv rel lng)
      then obtain rs where rs: "heap srv = Some rs"
        using assms False by (cases "heap srv") (simp_all add: Call_alone_def d b Let_def)
      then obtain rs' rep where rep: "Server_dispatch cd rs ?req = Ret (rs', rep)"
        using assms False Waiting by (cases "Server_dispatch cd rs ?req") (auto simp: Call_alone_def d b Let_def)
      show ?thesis using assms unfolding Call_alone_def d b
        by (simp add: False Waiting rs rep Let_def split: if_splits prod.splits bool.splits) blast+
    qed (use assms False in \<open>simp_all add: Call_alone_def d b Let_def\<close>)
  qed
  then show ?thesis by auto
qed

lemma limited_call:
  assumes "limited ns c st" "fresh_names rand st" "\<not> rn_done (t_net st)"
    and "Clnt_Call cd draws rand server meth args reply (c, st) = Ret (ok, v, c', st')"
  shows "limited ns c' st' \<and> fresh_names rand st' \<and> \<not> rn_done (t_net st')"
proof -
  obtain e c1 st1 where m: "clnt_makeEnd rand server (c, st) = Ret (e, c1, st1)" "limited ns c1 st1" "fresh_names rand st1"
    "rn_done (t_net st1) = rn_done (t_net st)" using limited_makeEnd[OF assms(1,2)] by blast
  with assms(4) obtain net heap where call: "Call_alone cd draws e meth args reply (t_net st1, t_heap st1) = Ret (ok, v, net, heap)"
    and eq: "c' = c1" "st' = st1\<lparr>t_net := net, t_heap := heap\<rparr>" by (auto simp: Clnt_Call_def go_bind_Ret_iff)
  note f = Call_alone_frame[OF call]
  have "limited ns c1 st'" using limited_cong[OF m(2), of st'] f eq(2) by simp
  moreover have "fresh_names rand st'" using m(3) f eq(2) by (simp add: fresh_names_def)
  ultimately show ?thesis using m(4) f eq assms(3) by simp
qed

lemma limited_refused:
  assumes "limited ns c st" "fresh_names rand st" "\<not> rn_done (t_net st)" "server \<notin> set ns" "cd_enc cd args = Some b"
  shows "\<exists>c' st'. Clnt_Call cd draws rand server meth args reply (c, st) = Ret (False, reply, c', st') \<and> t_heap st' = t_heap st"
proof -
  obtain e c1 st1 where m: "clnt_makeEnd rand server (c, st) = Ret (e, c1, st1)" "t_heap st1 = t_heap st"
    "rn_done (t_net st1) = rn_done (t_net st)" "\<not> is_enabled (t_net st1) e" using limited_makeEnd[OF assms(1,2)] assms(4) by blast
  have "Call_alone cd draws e meth args reply (t_net st1, t_heap st1) =
      Ret (False, reply, accept_call \<lparr>rq_endname = e, rq_svcMeth = meth, rq_args = b\<rparr> (t_net st1), t_heap st1)"
    using m(3,4) assms(3,5) by (intro Call_alone_unreachable) auto
  with m(1,2) show ?thesis by (simp add: Clnt_Call_def)
qed

lemma limited_calls:
  assumes "run_calls cd rand reply calls (rs, c, st) = Ret (rs', c', st')" "limited ns c st" "fresh_names rand st" "\<not> rn_done (t_net st)"
  shows "limited ns c' st' \<and> fresh_names rand st' \<and> \<not> rn_done (t_net st')"
  using assms
proof (induction calls arbitrary: rs c st)
  case (Cons x calls)
  obtain d sv m args where x: "x = (d, sv, m, args)" by (cases x)
  with Cons.prems(1) obtain ok v c1 st1 where "Clnt_Call cd d rand sv m args reply (c, st) = Ret (ok, v, c1, st1)"
    "run_calls cd rand reply calls (rs @ [(ok, v)], c1, st1) = Ret (rs', c', st')"
    by (auto simp: run_calls_def go_bind_Ret_iff)
  with limited_call[OF Cons.prems(2-4)] Cons.IH show ?case by blast
qed (simp add: run_calls_def)

subsection \<open>The network of a new configuration is not shut down\<close>

lemma make_ends_done: "make_ends rand gid j k st = Ret (ns, st') \<Longrightarrow> rn_done (t_net st') = rn_done (t_net st)"
  by (induction rand gid j k st arbitrary: ns st' rule: make_ends.induct)
    (fastforce simp: go_bind_Ret_iff MakeEnd_def Connect_def Let_def split: if_splits)+

lemma makeServer_done: "makeServer rand gid n st = Ret (srv, st') \<Longrightarrow> rn_done (t_net st') = rn_done (t_net st)"
  by (auto simp: makeServer_def go_bind_Ret_iff dest: make_ends_done)

lemma make_servers_done: "make_servers rand gid n k st = Ret (ss, st') \<Longrightarrow> rn_done (t_net st') = rn_done (t_net st)"
  by (induction rand gid n k st arbitrary: ss st' rule: make_servers.induct)
    (fastforce simp: go_bind_Ret_iff dest: makeServer_done)+

lemma enable_end_done [simp]: "rn_done (t_net (enable_end e b st)) = rn_done (t_net st)"
  by (simp add: enable_end_def Enable_def)

lemma StartServer_done: "StartServer rand i g = Ret g' \<Longrightarrow> rn_done (t_net (snd g')) = rn_done (t_net (snd g))"
  by (cases g) (auto simp: StartServer_def startServer_def copy_persister_def new_persister_def AddServer_def go_bind_Ret_iff Let_def
      case_prod_unfold dest!: makeServer_done split: option.splits)

lemma grp_connect_done: "grp_connect i to g = Ret g' \<Longrightarrow> rn_done (t_net (snd g')) = rn_done (t_net (snd g))"
proof -
  assume a: "grp_connect i to g = Ret g'"
  obtain sg0 st where g: "g = (sg0, st)" by (cases g)
  with a obtain sg s st1 st2 where "srv_connect (sg_connected sg) s to st = Ret st1" "g' = (sg, st2)"
    "fold_go (\<lambda>j st. go_bind (IsConnected sg j) (\<lambda>c. if c then go_bind (go_nth (sg_srvs sg) j) (\<lambda>sj.
           go_bind (go_nth (end_names sj) i) (\<lambda>e. Ret (enable_end e True st))) else Ret st)) to st1 = Ret st2"
    by (auto simp: grp_connect_def go_bind_Ret_iff)
  then show ?thesis using g
    by (auto simp: srv_connect_def go_bind_Ret_iff split: if_splits
        dest!: fold_go_keeps[where P = "\<lambda>st. rn_done (t_net st)"])
qed

lemma StartServers_done:
  assumes "StartServers rand g = Ret g'"
  shows "rn_done (t_net (snd g')) = rn_done (t_net (snd g))"
proof -
  from assms obtain g1 where g1: "grp_start rand g = Ret g1" "ConnectAll g1 = Ret g'"
    by (auto simp: StartServers_def go_bind_Ret_iff)
  have "rn_done (t_net (snd g1)) = rn_done (t_net (snd g))"
    by (rule fold_go_keeps[OF g1(1)[unfolded grp_start_def], of "\<lambda>g. rn_done (t_net (snd g))"]) (rule StartServer_done)
  moreover have "rn_done (t_net (snd g')) = rn_done (t_net (snd g1))"
    by (rule fold_go_keeps[OF g1(2)[unfolded ConnectAll_def], of "\<lambda>g. rn_done (t_net (snd g))"]) (simp add: ConnectOne_def grp_connect_done)
  ultimately show ?thesis by simp
qed

lemma MakeConfig_new:
  assumes "inj rand"
  shows "\<exists>cfg sg. MakeConfig rand now n reliable mks = Ret cfg \<and> cfg_Group GRP0 cfg = Some sg \<and> cf_clnts cfg = makeClnts \<and>
    SrvNames sg = map (\<lambda>i. ServerName GRP0 (int i)) [0..<n] \<and> fresh_names rand (cf_state cfg) \<and> \<not> rn_done (t_net (cf_state cfg))"
proof -
  from MakeConfig_ok[OF assms, of now n reliable mks] obtain cfg sg where
    c: "MakeConfig rand now n reliable mks = Ret cfg" "cfg_Group GRP0 cfg = Some sg" "grp_ok rand n (sg, cf_state cfg)" by blast
  from c(1) obtain sg0 st0 sg1 st1 where g: "makeSrvGrp rand GRP0 n mks (new_tstate MakeNetwork) = Ret (sg0, st0)"
    "StartServers rand (sg0, st0) = Ret (sg1, st1)" and eq: "cf_clnts cfg = makeClnts" "cfg_Group GRP0 cfg = Some sg1"
      "cf_state cfg = st1\<lparr>t_net := Reliable reliable (t_net st1)\<rparr>"
    by (auto simp: MakeConfig_def MakeGroupStart_def MakeGroup_def on_group_def cfg_Group_def lookupGroup_def newGroups_def Let_def
        go_bind_Ret_iff update_conv')
  have "\<not> rn_done (t_net st0)" using g(1)
    by (auto simp: makeSrvGrp_def go_bind_Ret_iff new_tstate_def MakeNetwork_def dest!: make_servers_done)
  moreover have "SrvNames sg0 = map (\<lambda>i. ServerName GRP0 (int i)) [0..<n]"
    using g(1) by (auto simp: makeSrvGrp_def go_bind_Ret_iff SrvNames_def)
  ultimately show ?thesis
    using c StartServers_done[OF g(2)] StartServers_names[OF g(2)] eq by (auto simp: SrvNames_def grp_ok_def Reliable_def)
qed

lemma SrvNamesTo_eq:
  assumes "SrvNames sg = map f [0..<n]" "set to \<subseteq> {..<n}"
  shows "SrvNamesTo to sg = Ret (map f to)"
proof -
  have "fold_go (\<lambda>i ns. go_bind (go_nth (sg_servernames sg) i) (\<lambda>n. Ret (ns @ [n]))) to ns = Ret (ns @ map f to)" for ns
    using assms by (induction to arbitrary: ns) (auto simp: SrvNames_def go_nth_def)
  from this[of "[]"] show ?thesis by (simp add: SrvNamesTo_def)
qed

text \<open>
  A clerk of the sharded service has two clients, its own and that of its controller; deleting the
  clerk removes the first and leaves the second in the test until the cleanup.
\<close>

lemma shardkv_delete_keeps_controller_client:
  assumes "ks_clerks (cf_clnts cfg) = Some cs" "ks_next (cf_clnts cfg) \<notin> set cs"
  shows "\<exists>ck cfg' cfg''. shardkv_clerk cfg = Ret (ck, cfg') \<and> shardkv_delete_clerk ck cfg' = Ret cfg'' \<and>
    ks_clerks (cf_clnts cfg'') = Some (filter (\<lambda>b. b \<noteq> ks_next (cf_clnts cfg)) cs @ [sc_clnt (sk_sck ck)])"
  using assms
  by (simp add: shardkv_clerk_def cfg_client_def MakeClientTo_def makeShardCtrler_def makeShardCtrlerClnt_def MakeShardCtrler_def Let_def
      shardkv_MakeClerk_def shardkv_delete_clerk_def cfg_delete_client_def DeleteClient_def remove_clerk_def clnt_remove_def makeClntTo_def)

subsection \<open>Property\<close>

text \<open>
  Property C13: a clerk for some of the servers reaches no other. In a new test with \<open>n\<close> servers
  \<^verbatim>\<open>MakeClerkTo\<close> returns a clerk that knows the names of all servers and has a client of its own; whatever
  calls this client has made since, to whichever servers, its call to a server that is not listed
  returns false, leaves the caller's variable alone and changes no server.
\<close>

theorem clerk_to_reaches_only_listed:
  assumes "inj rand" "set to \<subseteq> {..<n}" "i \<notin> set to" "cd_enc cd args = Some b"
  shows "\<exists>ts ck ts' c. kvraft_MakeTest rand now t0 mks part nclients n reliable crash partitions maxraftstate randomkeys = Ret ts \<and>
    kvraft_clerk_to to ts = Ret (ck, ts') \<and> gc_servers ck = map (\<lambda>i. ServerName Gid (int i)) [0..<n] \<and>
    ks_objs (cf_clnts (kr_cfg ts')) (gc_clnt ck) = Some c \<and>
    (\<forall>calls rs c1 st1. run_calls cd rand reply calls ([], c, cf_state (kr_cfg ts')) = Ret (rs, c1, st1) \<longrightarrow>
      (\<exists>c2 st2. Clnt_Call cd draws rand (ServerName Gid (int i)) meth args reply (c1, st1) = Ret (False, reply, c2, st2) \<and> t_heap st2 = t_heap st1))"
proof -
  from MakeConfig_new[OF assms(1), of now n reliable "mks maxraftstate"] obtain cfg sg where
    c: "MakeConfig rand now n reliable (mks maxraftstate) = Ret cfg" "cfg_Group GRP0 cfg = Some sg" "cf_clnts cfg = makeClnts"
    "SrvNames sg = map (\<lambda>i. ServerName GRP0 (int i)) [0..<n]" "fresh_names rand (cf_state cfg)" "\<not> rn_done (t_net (cf_state cfg))" by blast
  let ?ns = "map (\<lambda>i. ServerName GRP0 (int i)) to"
  have ns: "SrvNamesTo to sg = Ret ?ns" by (rule SrvNamesTo_eq[OF c(4) assms(2)])
  have out: "ServerName GRP0 (int i) \<notin> set ?ns" using assms(3) by (auto dest: ServerName_inj)
  have refused: "\<exists>c2 st2. Clnt_Call cd draws rand (ServerName GRP0 (int i)) meth args reply (c1, st1) = Ret (False, reply, c2, st2) \<and> t_heap st2 = t_heap st1"
    if "run_calls cd rand reply calls ([], makeClntTo (Some ?ns), cf_state cfg) = Ret (rs, c1, st1)" for calls rs c1 st1
    using limited_calls[OF that limited_new c(5,6)] limited_refused[OF _ _ _ out assms(4)] by blast
  show ?thesis
    using c(1-4) ns refused
    by (simp add: kvraft_MakeTest_def kvraft_clerk_to_def Gid_def cfg_Group_def Begin_def cfg_client_def MakeClientTo_def makeClnts_def
        cfg_names_def kvraft_MakeClerk_def)
qed

theorem clerk_to_reaches_only_listed_witness:
  "\<exists>ts ck ts' c. kvraft_MakeTest ex_rand 10 20 (\<lambda>_. ex_mks) ''4B'' 1 3 True False False 1000 False = Ret ts \<and>
    kvraft_clerk_to [0, 2] ts = Ret (ck, ts') \<and> ks_objs (cf_clnts (kr_cfg ts')) (gc_clnt ck) = Some c \<and>
    (\<exists>c2 st2. Clnt_Call ex_codec (0, 0, 0) ex_rand (ServerName Gid 1) ''Srv.Get'' [1] [] (c, cf_state (kr_cfg ts')) = Ret (False, [], c2, st2))"
proof -
  have "inj ex_rand" using ex_fresh by (simp add: fresh_names_def)
  from clerk_to_reaches_only_listed[OF this, of "[0, 2]" 3 1 ex_codec "[1]" "[1]", where now = 10 and ?t0.0 = 20 and mks = "\<lambda>_. ex_mks"
      and maxraftstate = 1000 and part = "''4B''" and nclients = 1 and reliable = True and crash = False and partitions = False
      and randomkeys = False and reply = "[]" and draws = "(0, 0, 0)" and meth = "''Srv.Get''"]
  obtain ts ck ts' c where r: "kvraft_MakeTest ex_rand 10 20 (\<lambda>_. ex_mks) ''4B'' 1 3 True False False 1000 False = Ret ts"
    "kvraft_clerk_to [0, 2] ts = Ret (ck, ts')" "ks_objs (cf_clnts (kr_cfg ts')) (gc_clnt ck) = Some c"
    "\<forall>calls rs c1 st1. run_calls ex_codec ex_rand [] calls ([], c, cf_state (kr_cfg ts')) = Ret (rs, c1, st1) \<longrightarrow>
      (\<exists>c2 st2. Clnt_Call ex_codec (0, 0, 0) ex_rand (ServerName Gid (int 1)) ''Srv.Get'' [1] [] (c1, st1) = Ret (False, [], c2, st2) \<and> t_heap st2 = t_heap st1)"
    unfolding ex_codec_def by auto
  have "run_calls ex_codec ex_rand [] [] ([], c, cf_state (kr_cfg ts')) = Ret ([], c, cf_state (kr_cfg ts'))" by (simp add: run_calls_def)
  with r(4) obtain c2 st2 where "Clnt_Call ex_codec (0, 0, 0) ex_rand (ServerName Gid 1) ''Srv.Get'' [1] [] (c, cf_state (kr_cfg ts')) = Ret (False, [], c2, st2)"
    by fastforce
  with r(1-3) show ?thesis by blast
qed

end
