(* ===== verification/Kv_Spawn.thy ===== *)
theory Kv_Spawn
  imports Kv_Puts
begin

text \<open>
  Spawning clients and waiting for them (\<^verbatim>\<open>SpawnClientsAndWait\<close> and \<^verbatim>\<open>runClient\<close> of
  \<^verbatim>\<open>kvtest1/kvtest.go\<close>). The goroutines meet on channels without buffers: one that is shared, on which every
  client is told to stop, and one per client for its result. A step is one such meeting or one
  step of a goroutine alone. The result is that the function comes back under every schedule, with the
  result of each client in its place: no client is told twice, and no message is left over.
\<close>

subsection \<open>The goroutines\<close>

text \<open>
  A client makes its clerk, runs its function, has been told to stop, has returned a result that it offers on its channel,
  has handed it over and deletes its clerk, or has ended.
\<close>

datatype 'r client_pc = Starting | Running | Told | Offering 'r | Deleting | Ended

text \<open>The caller sends the \<open>k\<close>-th signal, receives the \<open>k\<close>-th result, or has returned the results.\<close>

datatype 'r spawn_pc = Sending nat | Receiving nat "'r list" | Back "'r list"

record 'r spawn_world =
  sp_main :: "'r spawn_pc"
  sp_clients :: "'r client_pc list"

definition spawn_start :: "nat \<Rightarrow> 'r spawn_world" where
  "spawn_start nclnt = \<lparr>sp_main = Sending 0, sp_clients = replicate nclnt Starting\<rparr>"

definition set_pc :: "nat \<Rightarrow> 'r client_pc \<Rightarrow> 'r spawn_world \<Rightarrow> 'r spawn_world" where
  "set_pc i pc w = w\<lparr>sp_clients := (sp_clients w)[i := pc]\<rparr>"

text \<open>
  Of the function that client \<open>i\<close> runs, \<open>waits i\<close> says whether it receives the signal before it returns, and \<open>res i\<close>
  is what it returns. A function that does not wait never takes a signal.
\<close>

inductive spawn_step :: "(nat \<Rightarrow> bool) \<Rightarrow> (nat \<Rightarrow> 'r) \<Rightarrow> 'r spawn_world \<Rightarrow> 'r spawn_world \<Rightarrow> bool" for waits res where
  make_clerk: "i < length (sp_clients w) \<Longrightarrow> sp_clients w ! i = Starting \<Longrightarrow> spawn_step waits res w (set_pc i Running w)"
| signal: "sp_main w = Sending k \<Longrightarrow> k < length (sp_clients w) \<Longrightarrow> i < length (sp_clients w) \<Longrightarrow> sp_clients w ! i = Running \<Longrightarrow> waits i \<Longrightarrow>
    spawn_step waits res w (set_pc i Told (w\<lparr>sp_main := Sending (Suc k)\<rparr>))"
| told_all: "sp_main w = Sending k \<Longrightarrow> k = length (sp_clients w) \<Longrightarrow> spawn_step waits res w (w\<lparr>sp_main := Receiving 0 []\<rparr>)"
| fn_returns: "i < length (sp_clients w) \<Longrightarrow> sp_clients w ! i = (if waits i then Told else Running) \<Longrightarrow>
    spawn_step waits res w (set_pc i (Offering (res i)) w)"
| hand_over: "sp_main w = Receiving k rs \<Longrightarrow> k < length (sp_clients w) \<Longrightarrow> sp_clients w ! k = Offering v \<Longrightarrow>
    spawn_step waits res w (set_pc k Deleting (w\<lparr>sp_main := Receiving (Suc k) (rs @ [v])\<rparr>))"
| come_back: "sp_main w = Receiving k rs \<Longrightarrow> k = length (sp_clients w) \<Longrightarrow> spawn_step waits res w (w\<lparr>sp_main := Back rs\<rparr>)"
| delete_clerk: "i < length (sp_clients w) \<Longrightarrow> sp_clients w ! i = Deleting \<Longrightarrow> spawn_step waits res w (set_pc i Ended w)"

subsection \<open>The invariant\<close>

text \<open>
  As many clients have been told as signals were sent; while results are received, the clients before
  the current one have handed theirs over, and the others have not.
\<close>

definition fresh :: "'r client_pc \<Rightarrow> bool" where
  "fresh c \<longleftrightarrow> c = Starting \<or> c = Running"

abbreviation untold :: "'r client_pc list \<Rightarrow> nat" where
  "untold cs \<equiv> length (filter fresh cs)"

definition handed :: "'r client_pc \<Rightarrow> bool" where
  "handed c \<longleftrightarrow> c = Deleting \<or> c = Ended"

definition own_result :: "(nat \<Rightarrow> 'r) \<Rightarrow> 'r client_pc list \<Rightarrow> bool" where
  "own_result res cs \<longleftrightarrow> (\<forall>i<length cs. \<forall>v. cs ! i = Offering v \<longrightarrow> v = res i)"

fun main_ok :: "(nat \<Rightarrow> 'r) \<Rightarrow> 'r client_pc list \<Rightarrow> 'r spawn_pc \<Rightarrow> bool" where
  "main_ok res cs (Sending k) \<longleftrightarrow> k + untold cs = length cs \<and> (\<forall>c\<in>set cs. \<not> handed c)"
| "main_ok res cs (Receiving k rs) \<longleftrightarrow> untold cs = 0 \<and> k \<le> length cs \<and> rs = map res [0..<k] \<and> (\<forall>i<length cs. handed (cs ! i) = (i < k))"
| "main_ok res cs (Back rs) \<longleftrightarrow> rs = map res [0..<length cs] \<and> (\<forall>c\<in>set cs. handed c)"

definition spawn_inv :: "(nat \<Rightarrow> 'r) \<Rightarrow> nat \<Rightarrow> 'r spawn_world \<Rightarrow> bool" where
  "spawn_inv res n w \<longleftrightarrow> length (sp_clients w) = n \<and> own_result res (sp_clients w) \<and> main_ok res (sp_clients w) (sp_main w)"

lemma spawn_inv_start: "spawn_inv res n (spawn_start n)"
  by (simp add: spawn_inv_def spawn_start_def own_result_def handed_def fresh_def)

lemma untold_update: "i < length cs \<Longrightarrow> fresh (cs ! i) \<Longrightarrow> \<not> fresh c \<Longrightarrow> Suc (untold (cs[i := c])) = untold cs"
  by (induction cs arbitrary: i) (auto simp: nth_Cons split: nat.splits)

lemma untold_same: "i < length cs \<Longrightarrow> fresh c = fresh (cs ! i) \<Longrightarrow> untold (cs[i := c]) = untold cs"
  by (induction cs arbitrary: i) (auto simp: nth_Cons split: nat.splits)

lemma own_result_update:
  "own_result res cs \<Longrightarrow> (\<And>v. c = Offering v \<Longrightarrow> v = res i) \<Longrightarrow> own_result res (cs[i := c])"
  by (cases "i < length cs") (simp_all add: own_result_def nth_list_update list_update_beyond)

lemma all_handed_update:
  "i < length cs \<Longrightarrow> handed c = handed (cs ! i) \<Longrightarrow> (\<forall>x\<in>set (cs[i := c]). P (handed x)) = (\<forall>x\<in>set cs. P (handed x))"
  by (auto simp: all_set_conv_all_nth nth_list_update)

lemma main_ok_update:
  assumes "main_ok res cs pc" "i < length cs" "fresh c = fresh (cs ! i)" "handed c = handed (cs ! i)"
  shows "main_ok res (cs[i := c]) pc"
  using assms(1)
proof (cases pc)
  case (Sending k)
  then show ?thesis using assms untold_same[OF assms(2,3)] all_handed_update[OF assms(2,4), of Not] by simp
next
  case (Receiving k rs)
  then show ?thesis using assms untold_same[OF assms(2,3)] by (auto simp: nth_list_update)
next
  case (Back rs)
  then show ?thesis using assms all_handed_update[OF assms(2,4), of "\<lambda>b. b"] by simp
qed

lemma spawn_inv_step:
  assumes "spawn_step waits res w w'" "spawn_inv res n w" "\<forall>i<n. waits i"
  shows "spawn_inv res n w'"
  using assms(1)
proof (cases rule: spawn_step.cases)
  case (make_clerk i)
  then show ?thesis using assms(2)
    by (auto simp: spawn_inv_def set_pc_def handed_def fresh_def intro!: own_result_update main_ok_update)
next
  case (signal k i)
  then have "main_ok res ((sp_clients w)[i := Told]) (Sending (Suc k))"
    using assms(2) untold_update[OF signal(4), of Told] all_handed_update[of i "sp_clients w" Told Not]
    by (simp add: spawn_inv_def handed_def fresh_def)
  then show ?thesis using assms(2) signal by (auto simp: spawn_inv_def set_pc_def intro: own_result_update)
next
  case (told_all k)
  then show ?thesis using assms(2) by (simp add: spawn_inv_def)
next
  case (fn_returns i)
  then have "sp_clients w ! i = Told" using assms(2,3) by (simp add: spawn_inv_def)
  then show ?thesis using assms(2) fn_returns(1,2)
    by (auto simp: spawn_inv_def set_pc_def handed_def fresh_def intro!: own_result_update main_ok_update)
next
  case (hand_over k rs v)
  have "v = res k" using assms(2) hand_over by (auto simp: spawn_inv_def own_result_def)
  moreover have "untold ((sp_clients w)[k := Deleting]) = untold (sp_clients w)" using hand_over by (intro untold_same) (auto simp: fresh_def)
  ultimately have "main_ok res ((sp_clients w)[k := Deleting]) (Receiving (Suc k) (rs @ [v]))"
    using assms(2) hand_over by (auto simp: spawn_inv_def handed_def nth_list_update)
  then show ?thesis using assms(2) hand_over by (auto simp: spawn_inv_def set_pc_def intro: own_result_update)
next
  case (come_back k rs)
  then show ?thesis using assms(2) by (auto simp: spawn_inv_def all_set_conv_all_nth)
next
  case (delete_clerk i)
  then show ?thesis using assms(2)
    by (auto simp: spawn_inv_def set_pc_def handed_def fresh_def intro!: own_result_update main_ok_update)
qed

lemma spawn_inv_steps: "\<forall>i<n. waits i \<Longrightarrow> (spawn_step waits res ^^ k) (spawn_start n) w \<Longrightarrow> spawn_inv res n w"
  by (induction k arbitrary: w) (auto simp: spawn_inv_start elim!: relcomppE intro: spawn_inv_step)

subsection \<open>Progress and the number of steps\<close>

fun pc_weight :: "'r client_pc \<Rightarrow> nat" where
  "pc_weight Starting = 5"
| "pc_weight Running = 4"
| "pc_weight Told = 3"
| "pc_weight (Offering v) = 2"
| "pc_weight Deleting = 1"
| "pc_weight Ended = 0"

fun main_weight :: "'r spawn_pc \<Rightarrow> nat" where
  "main_weight (Sending k) = 2"
| "main_weight (Receiving k rs) = 1"
| "main_weight (Back rs) = 0"

definition weight :: "'r spawn_world \<Rightarrow> nat" where
  "weight w = main_weight (sp_main w) + sum_list (map pc_weight (sp_clients w))"

lemma weight_update:
  "i < length cs \<Longrightarrow> pc_weight c < pc_weight (cs ! i) \<Longrightarrow> sum_list (map pc_weight (cs[i := c])) < sum_list (map pc_weight cs)"
  by (induction cs arbitrary: i) (auto simp: nth_Cons split: nat.splits)

lemma spawn_step_weight: "spawn_step waits res w w' \<Longrightarrow> weight w' < weight w"
  by (cases rule: spawn_step.cases, assumption)
    (auto simp: weight_def set_pc_def weight_update split: if_splits)

lemma spawn_steps_weight: "(spawn_step waits res ^^ k) w w' \<Longrightarrow> k + weight w' \<le> weight w"
  by (induction k arbitrary: w') (fastforce elim!: relcomppE dest!: spawn_step_weight)+

lemma weight_start: "weight (spawn_start n) = 5 * n + 2"
  by (simp add: weight_def spawn_start_def sum_list_replicate)

lemma some_fresh: "untold cs \<noteq> 0 \<Longrightarrow> \<exists>i<length cs. fresh (cs ! i)"
  by (metis filter_False in_set_conv_nth list.size(3))

lemma none_fresh: "untold cs = 0 \<Longrightarrow> i < length cs \<Longrightarrow> \<not> fresh (cs ! i)"
  by (metis filter_empty_conv length_0_conv nth_mem)

text \<open>The goroutines never wait for each other in a circle.\<close>

lemma spawn_progress:
  assumes "spawn_inv res n w" "weight w \<noteq> 0" "\<forall>i<n. waits i"
  shows "\<exists>w'. spawn_step waits res w w'"
proof (cases "sp_main w")
  case (Sending k)
  then have k: "k + untold (sp_clients w) = length (sp_clients w)" and n: "length (sp_clients w) = n"
    using assms(1) by (simp_all add: spawn_inv_def)
  show ?thesis
  proof (cases "untold (sp_clients w) = 0")
    case True
    then have "k = length (sp_clients w)" using k by linarith
    then show ?thesis using spawn_step.told_all[OF Sending] by blast
  next
    case False
    then have less: "k < length (sp_clients w)" using k by linarith
    from False obtain i where i: "i < length (sp_clients w)" "fresh (sp_clients w ! i)" using some_fresh by blast
    then consider "sp_clients w ! i = Starting" | "sp_clients w ! i = Running" by (auto simp: fresh_def)
    then show ?thesis
      using spawn_step.make_clerk[OF i(1)] spawn_step.signal[OF Sending less i(1)] assms(3) i(1) n by cases blast+
  qed
next
  case (Receiving k rs)
  then have ok: "main_ok res (sp_clients w) (Receiving k rs)" using assms(1) by (simp add: spawn_inv_def)
  show ?thesis
  proof (cases "k = length (sp_clients w)")
    case True
    then show ?thesis using spawn_step.come_back[OF Receiving] by blast
  next
    case False
    then have k: "k < length (sp_clients w)" using ok by simp
    then have "\<not> fresh (sp_clients w ! k)" "\<not> handed (sp_clients w ! k)" using ok none_fresh[of "sp_clients w" k] by auto
    then consider "sp_clients w ! k = Told" | v where "sp_clients w ! k = Offering v"
      by (cases "sp_clients w ! k") (auto simp: handed_def fresh_def)
    moreover have "waits k" using assms(1,3) k by (simp add: spawn_inv_def)
    ultimately show ?thesis
      using spawn_step.fn_returns[OF k, of waits res] spawn_step.hand_over[OF Receiving k] by cases (simp, blast)+
  qed
next
  case (Back rs)
  then have "sum_list (map pc_weight (sp_clients w)) \<noteq> 0" using assms(2) by (simp add: weight_def)
  then obtain c where "c \<in> set (sp_clients w)" "pc_weight c \<noteq> 0" by (auto simp: sum_list_eq_0_iff)
  moreover from this(1) have "handed c" using assms(1) Back by (simp add: spawn_inv_def)
  ultimately have "Deleting \<in> set (sp_clients w)" by (auto simp: handed_def)
  then obtain i where "i < length (sp_clients w)" "sp_clients w ! i = Deleting" by (auto simp: in_set_conv_nth)
  then show ?thesis using spawn_step.delete_clerk by blast
qed

lemma weight_0:
  assumes "spawn_inv res n w" "weight w = 0"
  shows "sp_main w = Back (map res [0..<n]) \<and> list_all (\<lambda>c. c = Ended) (sp_clients w)"
proof -
  have "main_weight (sp_main w) = 0" using assms(2) by (simp add: weight_def)
  then obtain rs where "sp_main w = Back rs" by (cases "sp_main w") auto
  moreover have "c = Ended" if "c \<in> set (sp_clients w)" for c
  proof -
    have "pc_weight c = 0" using assms(2) that by (simp add: weight_def sum_list_eq_0_iff)
    then show ?thesis by (cases c) auto
  qed
  ultimately show ?thesis using assms(1) by (auto simp: spawn_inv_def list_all_iff)
qed

subsection \<open>A function that does not wait\<close>

text \<open>
  If the function of some client returns without receiving the signal, the caller is left with a signal that nobody takes:
  it never gets to receiving results. The signals sent are the waiting clients that are no longer fresh.
\<close>

definition taken :: "(nat \<Rightarrow> bool) \<Rightarrow> 'r client_pc list \<Rightarrow> nat set" where
  "taken waits cs = {i. i < length cs \<and> waits i \<and> \<not> fresh (cs ! i)}"

definition stuck_inv :: "(nat \<Rightarrow> bool) \<Rightarrow> nat \<Rightarrow> 'r spawn_world \<Rightarrow> bool" where
  "stuck_inv waits n w \<longleftrightarrow> length (sp_clients w) = n \<and> sp_main w = Sending (card (taken waits (sp_clients w)))"

lemma taken_same: "i < length cs \<Longrightarrow> waits i \<longrightarrow> fresh c = fresh (cs ! i) \<Longrightarrow> taken waits (cs[i := c]) = taken waits cs"
  by (auto simp: taken_def nth_list_update)

lemma taken_insert: "i < length cs \<Longrightarrow> waits i \<Longrightarrow> \<not> fresh c \<Longrightarrow> taken waits (cs[i := c]) = insert i (taken waits cs)"
  by (simp add: taken_def nth_list_update set_eq_iff)

lemma taken_less:
  assumes "j < length cs" "\<not> waits j"
  shows "card (taken waits cs) < length cs"
proof -
  have "taken waits cs \<subseteq> {0..<length cs} - {j}" using assms(2) by (auto simp: taken_def)
  then have "card (taken waits cs) \<le> card ({0..<length cs} - {j})" by (intro card_mono) simp_all
  then show ?thesis using assms(1) by simp
qed

lemma stuck_inv_step:
  assumes "spawn_step waits res w w'" "stuck_inv waits n w" "j < n" "\<not> waits j"
  shows "stuck_inv waits n w'"
  using assms(1)
proof (cases rule: spawn_step.cases)
  case (signal k i)
  then have "i \<notin> taken waits (sp_clients w)" by (simp add: taken_def fresh_def)
  moreover have "finite (taken waits (sp_clients w))" by (simp add: taken_def)
  ultimately show ?thesis
    using assms(2) signal taken_insert[of i "sp_clients w" waits Told] by (simp add: stuck_inv_def set_pc_def fresh_def)
next
  case (told_all k)
  then show ?thesis using assms(2) taken_less[of j "sp_clients w" waits] assms(3,4) by (simp add: stuck_inv_def)
qed (use assms(2) in \<open>auto simp: stuck_inv_def set_pc_def taken_same fresh_def split: if_splits\<close>)

lemma spawn_stuck:
  assumes "(spawn_step waits res ^^ k) (spawn_start n) w" "j < n" "\<not> waits j"
  shows "\<exists>m<n. sp_main w = Sending m"
proof -
  have "stuck_inv waits n (spawn_start n :: 'a spawn_world)"
    by (simp add: stuck_inv_def spawn_start_def taken_def fresh_def cong: conj_cong)
  then have "stuck_inv waits n w" using assms(1)
    by (induction k arbitrary: w) (auto elim!: relcomppE intro: stuck_inv_step[where waits = waits, OF _ _ assms(2) assms(3)])
  then show ?thesis using taken_less[of j "sp_clients w" waits] assms(2,3) by (auto simp: stuck_inv_def)
qed

subsection \<open>Property\<close>

text \<open>
  Property C19: spawning \<open>n\<close> clients whose functions wait for the signal and waiting for them comes back under every schedule. No
  schedule has more than \<open>5 n + 2\<close> steps; one that cannot go on has ended every client and come back, so no goroutine waits forever;
  and whenever the function is back, be it while clerks are still being deleted, it has the results of the clients in order.
\<close>

theorem spawn_comes_back:
  assumes "\<forall>i<n. waits i" "(spawn_step waits res ^^ k) (spawn_start n) w"
  shows "k \<le> 5 * n + 2 \<and>
    ((\<exists>w'. spawn_step waits res w w') \<or> sp_main w = Back (map res [0..<n]) \<and> list_all (\<lambda>c. c = Ended) (sp_clients w)) \<and>
    (\<forall>rs. sp_main w = Back rs \<longrightarrow> rs = map res [0..<n])"
proof (intro conjI)
  have inv: "spawn_inv res n w" by (rule spawn_inv_steps[OF assms])
  show "k \<le> 5 * n + 2" using spawn_steps_weight[OF assms(2)] by (simp add: weight_start)
  show "(\<exists>w'. spawn_step waits res w w') \<or> sp_main w = Back (map res [0..<n]) \<and> list_all (\<lambda>c. c = Ended) (sp_clients w)"
    using spawn_progress[OF inv _ assms(1)] weight_0[OF inv] by blast
  show "\<forall>rs. sp_main w = Back rs \<longrightarrow> rs = map res [0..<n]" using inv by (auto simp: spawn_inv_def)
qed

theorem spawn_comes_back_witness:
  "\<exists>w. (spawn_step (\<lambda>i. True) int ^^ 1) (spawn_start 1) w \<and> sp_main w = Sending 0 \<and> sp_clients w = [Running] \<and>
    (\<exists>w'. spawn_step (\<lambda>i. True) int w w')"
proof -
  define w :: "int spawn_world" where "w = set_pc 0 Running (spawn_start 1)"
  have "spawn_step (\<lambda>i. True) int (spawn_start 1) w"
    unfolding w_def by (rule spawn_step.make_clerk) (simp_all add: spawn_start_def)
  then have w: "(spawn_step (\<lambda>i. True) int ^^ 1) (spawn_start 1) w" by (simp only: relpowp_1)
  moreover have pc: "sp_main w = Sending 0" "sp_clients w = [Running]" by (simp_all add: w_def spawn_start_def set_pc_def)
  moreover have "\<exists>w'. spawn_step (\<lambda>i. True) int w w'" using spawn_comes_back[OF _ w] pc by simp
  ultimately show ?thesis by blast
qed

end
