(* ===== verification/Shardkv_Partition.thy ===== *)
theory Shardkv_Partition
  imports Kv_Drivers
begin

text \<open>
  Tests of the sharded service as a whole: making one, and the test in which a controller is cut off in the middle of a join or
  a leave and a second controller has to finish its work (\<^verbatim>\<open>MakeTestMaxRaft\<close> and \<^verbatim>\<open>partitionCtrler\<close> of \<^verbatim>\<open>shardkv1/test.go\<close>, with what they use of
  \<^verbatim>\<open>kvtest1/kvtest.go\<close>). What the goroutine of the first controller does while the test sleeps is an argument. The lemmas show that the test returns only
  if the second controller recovered, and that with a recovered controller the group of an interrupted join is removed again.
\<close>

subsection \<open>Making and ending a test\<close>

text \<open>The operation log is new; the annotations are global.\<close>

definition kvtest_MakeTest :: "'w \<Rightarrow> ann \<Rightarrow> 'w kt" where
  "kvtest_MakeTest w an = \<lparr>kt_w = w, kt_ops = 0, kt_log = Some [], kt_reads = 0, kt_ann = an\<rparr>"

definition kvtest_Cleanup :: "string \<Rightarrow> bool \<Rightarrow> int \<Rightarrow> int \<Rightarrow> int \<Rightarrow> int \<Rightarrow> ('s, 'v) config \<times> annotation \<Rightarrow>
    (pannot list option \<times> ('s, 'v) config \<times> annotation) go" where
  "kvtest_Cleanup vis opened t0 t1 t2 now ca = go_bind (End t0 (fst ca)) (\<lambda>_. cfg_Cleanup vis opened t1 t2 now ca)"

definition cfg_on_clnt :: "nat \<Rightarrow> (clnt \<times> ('s, 'v) tstate \<Rightarrow> clnt \<times> ('s, 'v) tstate) \<Rightarrow> ('s, 'v) config \<Rightarrow> ('s, 'v) config go" where
  "cfg_on_clnt a f cfg = go_bind (on_clnt a f (cf_clnts cfg, cf_state cfg)) (\<lambda>(ks, st). Ret (cfg\<lparr>cf_clnts := ks, cf_state := st\<rparr>))"

definition ConnectClnts :: "nat list \<Rightarrow> ('s, 'v) config \<Rightarrow> ('s, 'v) config go" where
  "ConnectClnts = fold_go (\<lambda>c. cfg_on_clnt c clnt_ConnectAll)"

record ('s, 'v, 'k) shardkv_test =
  sh_kt :: "('s, 'v, 'k) sktest kt"
  sh_sck :: "ShardCtrler option"
  sh_partition :: bool
  sh_maxraftstate :: int

text \<open>
  \<open>ctl\<close>: what the controllers share, at the start; \<open>now\<close>, \<open>t0\<close> and \<open>clk\<close> are the readings of the clock.
\<close>

definition MakeTestMaxRaft :: "(nat \<Rightarrow> string) \<Rightarrow> int \<Rightarrow> int \<Rightarrow> (nat \<Rightarrow> int) \<Rightarrow> ('s, 'v) fstart \<Rightarrow> string \<Rightarrow> bool \<Rightarrow> bool \<Rightarrow> int \<Rightarrow> 'k \<Rightarrow> ann \<Rightarrow>
    ('s, 'v, 'k) shardkv_test go" where
  "MakeTestMaxRaft rand now t0 clk mks part reliable parted maxraftstate ctl an =
     go_bind (MakeConfig rand now 1 reliable mks) (\<lambda>cfg.
     go_bind (ann_read clk (\<lambda>t a. Ret (AnnotateTest t part 1 a)) (kvtest_MakeTest \<lparr>sk_cfg = cfg, sk_ctl = ctl, sk_ngid = Gid1 + 1\<rparr> an)) (\<lambda>s.
       Ret \<lparr>sh_kt = s\<lparr>kt_w := (kt_w s)\<lparr>sk_cfg := Begin t0 cfg\<rparr>\<rparr>, sh_sck = None, sh_partition = parted, sh_maxraftstate = maxraftstate\<rparr>))"

definition shardkv_MakeTest :: "(nat \<Rightarrow> string) \<Rightarrow> int \<Rightarrow> int \<Rightarrow> (nat \<Rightarrow> int) \<Rightarrow> ('s, 'v) fstart \<Rightarrow> string \<Rightarrow> bool \<Rightarrow> 'k \<Rightarrow> ann \<Rightarrow> ('s, 'v, 'k) shardkv_test go" where
  "shardkv_MakeTest rand now t0 clk mks part reliable = MakeTestMaxRaft rand now t0 clk mks part reliable False (-1)"

definition MakeTestLeases :: "(nat \<Rightarrow> string) \<Rightarrow> int \<Rightarrow> int \<Rightarrow> (nat \<Rightarrow> int) \<Rightarrow> ('s, 'v) fstart \<Rightarrow> string \<Rightarrow> bool \<Rightarrow> 'k \<Rightarrow> ann \<Rightarrow> ('s, 'v, 'k) shardkv_test go" where
  "MakeTestLeases rand now t0 clk mks part reliable = MakeTestMaxRaft rand now t0 clk mks part reliable True (-1)"

subsection \<open>A controller that is cut off\<close>

text \<open>
  The variables that the test shares with the goroutine of the first controller: where the goroutine is and which group it works on.
  \<open>bg i\<close> is what the goroutine does during the \<open>i\<close>-th pause, to them and to the test.
\<close>

type_synonym ('s, 'v, 'k) shared = "ctl_state \<times> tgid \<times> ('s, 'v, 'k) sktest"

definition on_cfg :: "(('s, 'v) config \<Rightarrow> ('s, 'v) config go) \<Rightarrow> ('s, 'v, 'k) shared \<Rightarrow> ('s, 'v, 'k) shared go" where
  "on_cfg f v = (case v of (state, ngid, ts) \<Rightarrow> go_bind (f (sk_cfg ts)) (\<lambda>cfg. Ret (state, ngid, ts\<lparr>sk_cfg := cfg\<rparr>)))"

text \<open>A new controller with a client of its own; \<open>initc\<close> is its \<^verbatim>\<open>InitController\<close>.\<close>

definition new_controller :: "('k \<Rightarrow> 'k go) \<Rightarrow> ('s, 'v, 'k) sktest \<Rightarrow> (nat \<times> ('s, 'v, 'k) sktest) go" where
  "new_controller initc ts = go_bind (makeShardCtrlerClnt (sk_cfg ts)) (\<lambda>((_, clnt), cfg).
     go_bind (initc (sk_ctl ts)) (\<lambda>k. Ret (clnt, ts\<lparr>sk_cfg := cfg, sk_ctl := k\<rparr>)))"

text \<open>The first part: the group \<open>gid\<close> goes down under a working controller, the controller is cut off, and the group comes back.\<close>

definition cut_off_controller :: "('s, 'v, 'k) skenv \<Rightarrow> (nat \<Rightarrow> ('s, 'v, 'k) shared \<Rightarrow> ('s, 'v, 'k) shared go) \<Rightarrow> bool \<Rightarrow> tgid \<Rightarrow> nat \<Rightarrow>
    ('s, 'v, 'k) sktest \<Rightarrow> ('s, 'v, 'k) shared go" where
  "cut_off_controller env bg parted gid clnt ts =
     go_bind (bg 0 (NoState, 0, ts)) (\<lambda>v1.
     go_bind (on_cfg (on_group gid Shutdown) v1) (\<lambda>v2.
     go_bind (bg 1 v2) (\<lambda>v3.
     go_bind (on_cfg (cfg_on_clnt clnt clnt_DisconnectAll) v3) (\<lambda>v4.
     go_bind (if parted then bg 2 v4 else Ret v4) (\<lambda>v5.
       on_cfg (on_group gid (StartServers (se_rand env))) v5)))))"

text \<open>The second part: another controller takes over and is checked; a group that was still joining leaves.\<close>

definition take_over :: "('s, 'v, 'k) skenv \<Rightarrow> ('k \<Rightarrow> 'k go) \<Rightarrow> tnum \<Rightarrow> ('s, 'v, 'k) shared \<Rightarrow> (nat \<times> ('s, 'v, 'k) shared) go" where
  "take_over env initc num v = (case v of (state, ngid, ts) \<Rightarrow>
     go_bind (new_controller initc ts) (\<lambda>(clnt0, ts1).
     go_bind (sk_Query env ts1) (\<lambda>(cfg, ts2).
     go_bind (check_recovered cfg num state ngid) (\<lambda>_.
       let present = IsMember cfg ngid in
       if state = JOIN \<and> present then go_bind (leaveGroups env [ngid] ts2) (\<lambda>(_, ts3). Ret (clnt0, state, ngid, ts3))
       else Ret (clnt0, state, ngid, ts2)))))"

definition check_keys :: "(nat \<Rightarrow> int) \<Rightarrow> 'w clerk \<Rightarrow> string list \<Rightarrow> string list \<Rightarrow> 'w kt \<Rightarrow> 'w kt go" where
  "check_keys clk ck ka va = fold_go (\<lambda>i s. go_bind (go_nth ka i) (\<lambda>k. go_bind (go_nth va i) (\<lambda>v. CheckGet clk ck k v 1 s))) [0..<length ka]"

definition partitionCtrler :: "('s, 'v, 'k) skenv \<Rightarrow> ('k \<Rightarrow> 'k go) \<Rightarrow> (nat \<Rightarrow> int) \<Rightarrow> (nat \<Rightarrow> ('s, 'v, 'k) shared \<Rightarrow> ('s, 'v, 'k) shared go) \<Rightarrow> bool \<Rightarrow>
    ('s, 'v, 'k) sktest clerk \<Rightarrow> tgid \<Rightarrow> string list \<Rightarrow> string list \<Rightarrow> ('s, 'v, 'k) sktest kt \<Rightarrow> ('s, 'v, 'k) sktest kt go" where
  "partitionCtrler env initc clk bg parted ck gid ka va s =
     go_bind (new_controller initc (kt_w s)) (\<lambda>(clnt, ts1).
     go_bind (sk_Query env ts1) (\<lambda>(cfg, ts2).
     go_bind (cut_off_controller env bg parted gid clnt ts2) (\<lambda>v1.
     go_bind (take_over env initc (Num cfg) v1) (\<lambda>(clnt0, v2).
     go_bind (if parted then go_bind (on_cfg (cfg_on_clnt clnt clnt_ConnectAll) v2) (bg 3) else Ret v2) (\<lambda>(_, _, ts3).
     go_bind (check_keys clk ck ka va (s\<lparr>kt_w := ts3\<rparr>)) (\<lambda>s1.
     go_bind (cfg_delete_client clnt (sk_cfg (kt_w s1))) (\<lambda>cfg1.
     go_bind (cfg_delete_client clnt0 cfg1) (\<lambda>cfg2.
       Ret (s1\<lparr>kt_w := (kt_w s1)\<lparr>sk_cfg := cfg2\<rparr>\<rparr>)))))))))"

subsection \<open>The test returns only after a recovery\<close>

lemma cfg_delete_client_clerks:
  "cfg_delete_client a cfg = Ret cfg' \<Longrightarrow>
     set (clerks_of (cf_clnts cfg')) = set (clerks_of (cf_clnts cfg)) - {a}"
  by (auto simp: cfg_delete_client_def DeleteClient_def go_bind_Ret_iff clerks_of_def split: option.splits if_splits)

lemma check_recovered_Ret:
  "check_recovered cfg num state ngid = Ret u \<longleftrightarrow>
     num < Num cfg \<and> (state = JOIN \<longrightarrow> IsMember cfg ngid) \<and> (state = LEAVE \<longrightarrow> \<not> IsMember cfg ngid)"
  by (auto simp: check_recovered_def Let_def)

text \<open>
  When the test returns, the second controller saw a configuration newer than the one at the start, in which the group of a join is a member
  and the group of a leave is not; and the clients of both controllers are gone.
\<close>

lemma partitionCtrler_recovered:
  assumes "partitionCtrler env initc clk bg parted ck gid ka va s = Ret s'"
  shows "\<exists>clnt ts1 old ts2 state ngid ts3 clnt0 ts4 new ts5.
    new_controller initc (kt_w s) = Ret (clnt, ts1) \<and> sk_Query env ts1 = Ret (old, ts2) \<and>
    cut_off_controller env bg parted gid clnt ts2 = Ret (state, ngid, ts3) \<and>
    new_controller initc ts3 = Ret (clnt0, ts4) \<and> sk_Query env ts4 = Ret (new, ts5) \<and>
    Num old < Num new \<and> (state = JOIN \<longrightarrow> IsMember new ngid) \<and> (state = LEAVE \<longrightarrow> \<not> IsMember new ngid) \<and>
    set (clerks_of (cf_clnts (sk_cfg (kt_w s')))) \<inter> {clnt, clnt0} = {}"
proof -
  from assms obtain clnt ts1 old ts2 state ngid ts3 clnt0 v s1 cfg1 cfg2 where
    r: "new_controller initc (kt_w s) = Ret (clnt, ts1)" "sk_Query env ts1 = Ret (old, ts2)"
    "cut_off_controller env bg parted gid clnt ts2 = Ret (state, ngid, ts3)" "take_over env initc (Num old) (state, ngid, ts3) = Ret (clnt0, v)"
    "cfg_delete_client clnt (sk_cfg (kt_w s1)) = Ret cfg1" "cfg_delete_client clnt0 cfg1 = Ret cfg2"
    "s' = s1\<lparr>kt_w := (kt_w s1)\<lparr>sk_cfg := cfg2\<rparr>\<rparr>"
    unfolding partitionCtrler_def go_bind_Ret_iff by (auto simp: go_bind_Ret_iff split: prod.splits)
  from r(4) obtain ts4 new ts5 where t: "new_controller initc ts3 = Ret (clnt0, ts4)" "sk_Query env ts4 = Ret (new, ts5)"
    "check_recovered new (Num old) state ngid = Ret ()"
    by (auto simp: take_over_def go_bind_Ret_iff Let_def split: if_splits)
  have "set (clerks_of (cf_clnts cfg2)) \<inter> {clnt, clnt0} = {}"
    using cfg_delete_client_clerks[OF r(5)] cfg_delete_client_clerks[OF r(6)] by auto
  then show ?thesis using r t by (auto simp: check_recovered_Ret)
qed

subsection \<open>Property\<close>

lemma sk_MakeGroupStart_clnts: "sk_MakeGroupStart env gid ts = Ret ts' \<Longrightarrow> cf_clnts (sk_cfg ts') = cf_clnts (sk_cfg ts)"
  by (auto simp: sk_MakeGroupStart_def MakeGroupStart_def on_group_def go_bind_Ret_iff split: option.splits)

text \<open>
  Property C12: a second controller finishes the work of the first. Let the first controller be cut off in a join or a leave, and let initialising
  the second one complete what was begun: the stored configuration is newer and holds the group of a join and not that of a
  leave. Then \<^verbatim>\<open>partitionCtrler\<close> accepts the configuration, lets a group that was joining leave again, and afterwards the controller stores
  a configuration with the groups from before.
\<close>

theorem take_over_restores:
  assumes laws: "controller_laws env held" and clerks: "ks_clerks (cf_clnts (sk_cfg ts)) = Some cs"
    and init: "initc (sk_ctl ts) = Ret k" "held k = Some c" "num < Num c" and c: "config_reach n c"
    and ids: "ngid \<notin> set ids" "ids \<noteq> []" "length ids < NShards"
    and state: "state = JOIN \<and> Groups c = named_groups (ids @ [ngid]) \<and> cfg_Group ngid (sk_cfg ts) = Some sg \<and>
          grp_ok (se_rand env) SHARD_NSRV (sg, cf_state (sk_cfg ts)) \<or>
        state = LEAVE \<and> Groups c = named_groups ids"
  shows "\<exists>ts' c'. take_over env initc num (state, ngid, ts) = Ret (ks_next (cf_clnts (sk_cfg ts)), state, ngid, ts') \<and>
    held (sk_ctl ts') = Some c' \<and> Groups c' = named_groups ids \<and> num < Num c'"
proof -
  let ?a = "ks_next (cf_clnts (sk_cfg ts))"
  obtain cfg where nc: "new_controller initc ts = Ret (?a, ts\<lparr>sk_cfg := cfg, sk_ctl := k\<rparr>)"
    and same: "cf_state cfg = cf_state (sk_cfg ts)" "cfg_Group ngid cfg = cfg_Group ngid (sk_cfg ts)"
    using clerks init(1) by (auto simp: new_controller_def makeShardCtrlerClnt_def cfg_client_def MakeClientTo_def cfg_Group_def)
  from controller_lawsD(1)[OF laws init(2)] obtain k1 where k1: "se_Query env k = Ret (Some c, k1)" "held k1 = Some c" by blast
  let ?ts = "ts\<lparr>sk_cfg := cfg, sk_ctl := k1\<rparr>"
  have q: "sk_Query env (ts\<lparr>sk_cfg := cfg, sk_ctl := k\<rparr>) = Ret (c, ?ts)" using k1(1) by (simp add: sk_Query_def)
  have member: "IsMember c ngid = gm_has (Groups c) ngid"
    using state ids(2,3) config_reach_inv[OF c] by (intro member_iff_group) (auto simp: named_groups_def)
  from state show ?thesis
  proof (elim disjE conjE)
    assume s: "state = LEAVE" "Groups c = named_groups ids"
    then have "\<not> IsMember c ngid" using member ids(1) by (auto simp: named_groups_def)
    then have "take_over env initc num (state, ngid, ts) = Ret (?a, state, ngid, ?ts)"
      using nc q s(1) init(3) by (simp add: take_over_def check_recovered_def)
    then show ?thesis using k1(2) s(2) init(3) by (intro exI[of _ ?ts] exI[of _ c]) simp
  next
    assume s: "state = JOIN" "Groups c = named_groups (ids @ [ngid])" "cfg_Group ngid (sk_cfg ts) = Some sg"
      "grp_ok (se_rand env) SHARD_NSRV (sg, cf_state (sk_cfg ts))"
    from leave_round[OF laws, of ?ts c n ids ngid sg] k1(2) c s(2-4) same ids obtain ts' c' where
      l: "leaveGroups env [ngid] ?ts = Ret (True, ts')" "held (sk_ctl ts') = Some c'" "config_reach (Suc n) c'" "Groups c' = named_groups ids"
      by auto
    have "IsMember c ngid" using member s(2) by simp
    then have "take_over env initc num (state, ngid, ts) = Ret (?a, state, ngid, ts')"
      using nc q s(1) init(3) l(1) by (simp add: take_over_def check_recovered_def del: leaveGroups.simps)
    moreover have "num < Num c'" using init(3) config_reach_inv[OF c] config_reach_inv[OF l(3)] by (simp add: config_inv_def)
    ultimately show ?thesis using l(2,4) by blast
  qed
qed

theorem take_over_restores_witness:
  "\<exists>cfg ts0 c ts' c'. MakeConfig ex_rand 10 1 True ex_mks = Ret cfg \<and>
    sk_MakeGroupStart ex_skenv 2 \<lparr>sk_cfg = cfg, sk_ctl = None, sk_ngid = 3\<rparr> = Ret ts0 \<and> gm_keys (Groups c) = [Gid1, 2] \<and>
    take_over ex_skenv (\<lambda>_. Ret (Some c)) 1 (JOIN, 2, ts0) = Ret (0, JOIN, 2, ts') \<and> sk_ctl ts' = Some c' \<and> gm_keys (Groups c') = [Gid1]"
proof -
  have "inj ex_rand" using ex_fresh by (simp add: fresh_names_def)
  from MakeConfig_new[OF this] obtain cfg where
    m: "MakeConfig ex_rand 10 1 True ex_mks = Ret cfg" "fresh_names ex_rand (cf_state cfg)" "cf_clnts cfg = makeClnts" by blast
  let ?ts = "\<lparr>sk_cfg = cfg, sk_ctl = None, sk_ngid = 3\<rparr>"
  have laws: "controller_laws ex_skenv (\<lambda>k. k)" by (simp add: controller_laws_def ex_skenv_def)
  have "fresh_names (se_rand ex_skenv) (cf_state (sk_cfg ?ts))" using m(2) by (simp add: ex_skenv_def)
  from sk_MakeGroupStart_ok[OF this] obtain cfg1 sg where
    g: "sk_MakeGroupStart ex_skenv 2 ?ts = Ret (?ts\<lparr>sk_cfg := cfg1\<rparr>)" "cfg_Group 2 cfg1 = Some sg"
    "grp_ok (se_rand ex_skenv) SHARD_NSRV (sg, cf_state cfg1)" by blast
  have k: "cf_clnts cfg1 = makeClnts" using sk_MakeGroupStart_clnts[OF g(1)] m(3) by simp
  from JoinBalance_one[OF config_reach.start, of Gid1 "names_of Gid1"] obtain c1 where
    c1: "config_reach (Suc 0) c1" "Groups c1 = named_groups [Gid1]"
    using named_groups_disjoint[of "[Gid1]"] by (auto simp: MakeShardConfig_def)
  from JoinBalance_one[OF c1(1), of 2 "names_of 2"] obtain c where c: "config_reach 2 c" "Groups c = named_groups ([Gid1] @ [2])"
    using named_groups_disjoint[of "[Gid1, 2]"] c1(2) by (auto simp: Gid1_def numeral_2_eq_2 named_groups_def)
  have "Num c = 2" using config_reach_inv[OF c(1)] by simp
  then obtain ts' c' where "take_over ex_skenv (\<lambda>_. Ret (Some c)) 1 (JOIN, 2, ?ts\<lparr>sk_cfg := cfg1\<rparr>) = Ret (0, JOIN, 2, ts')"
    "sk_ctl ts' = Some c'" "Groups c' = named_groups [Gid1]"
    using take_over_restores[OF laws, of "?ts\<lparr>sk_cfg := cfg1\<rparr>" "[]" "\<lambda>_. Ret (Some c)" "Some c" c 1 2 2 "[Gid1]" JOIN sg] c g(2,3) k
    by (auto simp: makeClnts_def Gid1_def NShards_def)
  moreover from this(3) have "gm_keys (Groups c') = [Gid1]" by (simp add: named_groups_def)
  moreover have "gm_keys (Groups c) = [Gid1, 2]" using c(2) by (simp add: named_groups_def)
  ultimately show ?thesis using m(1) g(1) by (intro exI conjI) assumption+
qed

end
