(* ===== verification/Shardkv_Concur.thy ===== *)
theory Shardkv_Concur
  imports Shardkv_Partition
begin

text \<open>
  Several controllers at once (\<^verbatim>\<open>concurCtrler\<close> of \<^verbatim>\<open>shardkv1/test.go\<close>): four goroutines that each make a controller, let a new
  group join and leave again, and start over until they are told to stop. An action of a goroutine is one call to the controller
  or to the tester; the actions of the goroutines interleave in any order. With a controller that accepts a configuration only
  if it follows the stored one, no goroutine ever ends the process, every stored configuration is balanced, and, as long as no configuration has more groups
  than shards, no group is shut down while it is configured.
\<close>

subsection \<open>The goroutines\<close>

text \<open>
  Where a goroutine is, with its local variables: the identifier of its group and, between computing a new configuration and handing it over,
  this configuration.
\<close>

datatype ctl_pc = Top | HasGid tgid | HasClerk tgid | Inited tgid | Started tgid | Joining tgid shard_config | Joined tgid
  | Rechecking tgid | Member tgid | Leaving tgid shard_config | Left tgid | Exiting tgid | Stopped

text \<open>
  The next action. \<open>initc\<close> is \<^verbatim>\<open>InitController\<close>; the result of \<^verbatim>\<open>joinGroups\<close> is not looked at, so after the check in \<^verbatim>\<open>joinGroups\<close> a
  goroutine goes on to its own check in any case.
\<close>

fun ctl_act :: "('s, 'v, 'k) skenv \<Rightarrow> ('k \<Rightarrow> 'k go) \<Rightarrow> ctl_pc \<Rightarrow> ('s, 'v, 'k) sktest \<Rightarrow> (ctl_pc \<times> ('s, 'v, 'k) sktest) go" where
  "ctl_act env initc Top ts = (case newGid ts of (ngid, ts') \<Rightarrow> Ret (HasGid ngid, ts'))"
| "ctl_act env initc (HasGid g) ts = go_bind (makeShardCtrler (sk_cfg ts)) (\<lambda>(sck, cfg). Ret (HasClerk g, ts\<lparr>sk_cfg := cfg\<rparr>))"
| "ctl_act env initc (HasClerk g) ts = go_bind (initc (sk_ctl ts)) (\<lambda>k. Ret (Inited g, ts\<lparr>sk_ctl := k\<rparr>))"
| "ctl_act env initc (Inited g) ts = go_bind (sk_MakeGroupStart env g ts) (\<lambda>ts'. Ret (Started g, ts'))"
| "ctl_act env initc (Started g) ts =
     go_bind (group_names g ts) (\<lambda>names.
     go_bind (sk_Query env ts) (\<lambda>(cfg, ts').
     go_bind (JoinBalance [(g, names)] (Copy cfg)) (\<lambda>(ok, newcfg).
       if \<not> ok then Fatal ''join: group %d is already present'' else Ret (Joining g newcfg, ts'))))"
| "ctl_act env initc (Joining g newcfg) ts = go_bind (se_ChangeConfigTo env newcfg (sk_ctl ts)) (\<lambda>k. Ret (Joined g, ts\<lparr>sk_ctl := k\<rparr>))"
| "ctl_act env initc (Joined g) ts = go_bind (checkMember env g ts) (\<lambda>(ok, ts'). Ret (Rechecking g, ts'))"
| "ctl_act env initc (Rechecking g) ts = go_bind (checkMember env g ts) (\<lambda>(ok, ts'). Ret (if ok then Member g else Top, ts'))"
| "ctl_act env initc (Member g) ts =
     go_bind (sk_Query env ts) (\<lambda>(cfg, ts').
     go_bind (LeaveBalance [g] (Copy cfg)) (\<lambda>(ok, newcfg).
       if \<not> ok then Fatal ''leave: group %d is already not present'' else Ret (Leaving g newcfg, ts')))"
| "ctl_act env initc (Leaving g newcfg) ts = go_bind (se_ChangeConfigTo env newcfg (sk_ctl ts)) (\<lambda>k. Ret (Left g, ts\<lparr>sk_ctl := k\<rparr>))"
| "ctl_act env initc (Left g) ts = go_bind (checkMember env g ts) (\<lambda>(ok, ts'). Ret (if ok then Top else Exiting g, ts'))"
| "ctl_act env initc (Exiting g) ts = go_bind (ExitGroup g (sk_cfg ts)) (\<lambda>cfg. Ret (Top, ts\<lparr>sk_cfg := cfg\<rparr>))"
| "ctl_act env initc Stopped ts = Ret (Stopped, ts)"

text \<open>The goroutines over the test they share, and the signals that the test has still to send.\<close>

record ('s, 'v, 'k) conc_world =
  cw_ts :: "('s, 'v, 'k) sktest"
  cw_pcs :: "ctl_pc list"
  cw_signals :: nat

definition CONC_N :: nat where
  "CONC_N = 4"

definition conc_start :: "nat \<Rightarrow> ('s, 'v, 'k) sktest \<Rightarrow> ('s, 'v, 'k) conc_world" where
  "conc_start n ts = \<lparr>cw_ts = ts, cw_pcs = replicate n Top, cw_signals = n\<rparr>"

inductive conc_step :: "('s, 'v, 'k) skenv \<Rightarrow> ('k \<Rightarrow> 'k go) \<Rightarrow> ('s, 'v, 'k) conc_world \<Rightarrow> ('s, 'v, 'k) conc_world \<Rightarrow> bool" for env initc where
  act: "i < length (cw_pcs w) \<Longrightarrow> cw_pcs w ! i \<noteq> Stopped \<Longrightarrow> ctl_act env initc (cw_pcs w ! i) (cw_ts w) = Ret (pc, ts) \<Longrightarrow>
    conc_step env initc w (w\<lparr>cw_ts := ts, cw_pcs := (cw_pcs w)[i := pc]\<rparr>)"
| stop: "i < length (cw_pcs w) \<Longrightarrow> cw_pcs w ! i = Top \<Longrightarrow> cw_signals w = Suc s \<Longrightarrow>
    conc_step env initc w (w\<lparr>cw_pcs := (cw_pcs w)[i := Stopped], cw_signals := s\<rparr>)"

text \<open>When all goroutines have received their signal, the test checks the keys.\<close>

definition concurCtrler_end :: "(nat \<Rightarrow> int) \<Rightarrow> ('s, 'v, 'k) sktest clerk \<Rightarrow> string list \<Rightarrow> string list \<Rightarrow> ('s, 'v, 'k) conc_world \<Rightarrow>
    ('s, 'v, 'k) sktest kt \<Rightarrow> ('s, 'v, 'k) sktest kt go" where
  "concurCtrler_end clk ck ka va w s = (if cw_signals w = 0 then check_keys clk ck ka va (s\<lparr>kt_w := cw_ts w\<rparr>) else Diverge)"

subsection \<open>Groups that run\<close>

text \<open>The group is in the tester under its names, its tables have a slot for every server, and every server was started and not shut down since.\<close>

definition runs :: "tgid \<Rightarrow> ('s, 'v, 'k) sktest \<Rightarrow> bool" where
  "runs g ts \<longleftrightarrow> (\<exists>sg. cfg_Group g (sk_cfg ts) = Some sg \<and> SrvNames sg = names_of g \<and> wf_group SHARD_NSRV (sg, cf_state (sk_cfg ts)) \<and>
     (\<forall>i<SHARD_NSRV. sr_svcs (sg_srvs sg ! i) \<noteq> None))"

lemma wf_group_state: "wf_group n (sg, st) = wf_group n (sg, st')"
  by (simp add: wf_group_def)

lemma runs_cong: "cfg_Group g (sk_cfg ts') = cfg_Group g (sk_cfg ts) \<Longrightarrow> runs g ts' = runs g ts"
  using wf_group_state by (fastforce simp: runs_def)

lemma ShutdownServer_wf:
  assumes "wf_group n (sg, st)" "fresh_names rand st" "i < n"
  shows "\<exists>sg' st'. ShutdownServer i (sg, st) = Ret (sg', st') \<and> wf_group n (sg', st') \<and> fresh_names rand st'"
proof -
  note w = wf_groupD[OF assms(1)]
  have all: "set (grp_all sg) \<subseteq> {..<n}" using w(1) by (auto simp: grp_all_def)
  obtain sg1 st1 where d: "grp_disconnect i (grp_all sg) (sg, st) = Ret (sg1, st1)" "sg_srvs sg1 = sg_srvs sg"
    "length (sg_connected sg1) = n" "rn_ends (t_net st1) = rn_ends (t_net st)" "t_draws st1 = t_draws st"
    using grp_disconnect_eq[OF assms(1,3) all] w(2) by auto
  obtain s' st2 where s: "shutdownServer (sg_srvs sg ! i) (st1\<lparr>t_net := DeleteServer (ServerName (sg_gid sg1) (int i)) (t_net st1)\<rparr>) = (s', st2)"
    by fastforce
  then have s': "sr_endNames s' = sr_endNames (sg_srvs sg ! i)" "rn_ends (t_net st2) = rn_ends (t_net st)" "t_draws st2 = t_draws st"
    using d(4,5) by (auto simp: shutdownServer_def copy_persister_def new_persister_def kill_all_def DeleteServer_def Let_def
        split: option.splits prod.splits)
  then have e: "map end_names ((sg_srvs sg)[i := s']) = map end_names (sg_srvs sg)"
    using assms(3) w(1) by (intro nth_equalityI) (auto simp: nth_list_update end_names_def)
  have "sr_endNames x \<noteq> None \<and> length (end_names x) = n" if "x \<in> set ((sg_srvs sg)[i := s'])" for x
  proof -
    have "x = s' \<or> x \<in> set (sg_srvs sg)" using that set_update_subset_insert by fastforce
    then show ?thesis
    proof
      assume "x = s'"
      then have "end_names x = end_names (sg_srvs sg ! i)" using s'(1) by (simp add: end_names_def)
      then show ?thesis using \<open>x = s'\<close> s'(1) w(3)[OF assms(3)] w(4)[OF assms(3)] by simp
    qed (use assms(1) in \<open>simp add: wf_group_def\<close>)
  qed
  then have "wf_group n (sg1\<lparr>sg_srvs := (sg_srvs sg)[i := s']\<rparr>, st2)"
    using assms(1) d(3) w(1) e by (simp add: wf_group_def)
  moreover have "fresh_names rand st2" using assms(2) s'(2,3) by (simp add: fresh_names_def)
  ultimately show ?thesis using d s assms(3) w(1) by (auto simp: ShutdownServer_def)
qed

lemma Shutdown_wf:
  assumes "wf_group n (sg, st)" "fresh_names rand st"
  shows "\<exists>sg' st'. Shutdown (sg, st) = Ret (sg', st') \<and> fresh_names rand st'"
proof -
  have "\<exists>g'. fold_go ShutdownServer [0..<n] (sg, st) = Ret g' \<and> wf_group n g' \<and> fresh_names rand (snd g')"
  proof (rule fold_go_rule[where P = "\<lambda>_ g. wf_group n g \<and> fresh_names rand (snd g)"])
    show "wf_group n (sg, st) \<and> fresh_names rand (snd (sg, st))" using assms by simp
    fix xs x and g :: "('a, 'b) gs" assume g: "wf_group n g \<and> fresh_names rand (snd g)" "x \<in> set [0..<n]"
    then show "\<exists>g'. ShutdownServer x g = Ret g' \<and> wf_group n g' \<and> fresh_names rand (snd g')"
      using ShutdownServer_wf[of n "fst g" "snd g" rand x] by auto
  qed
  then show ?thesis using wf_groupD(1)[OF assms(1)] by (auto simp: Shutdown_def)
qed

lemma ExitGroup_wf:
  assumes "runs g ts" "fresh_names rand (cf_state (sk_cfg ts))"
  shows "\<exists>cfg. ExitGroup g (sk_cfg ts) = Ret cfg \<and> fresh_names rand (cf_state cfg) \<and> cf_clnts cfg = cf_clnts (sk_cfg ts) \<and>
    (\<forall>h. h \<noteq> g \<longrightarrow> cfg_Group h cfg = cfg_Group h (sk_cfg ts))"
proof -
  obtain sg where sg: "cfg_Group g (sk_cfg ts) = Some sg" "wf_group SHARD_NSRV (sg, cf_state (sk_cfg ts))"
    using assms(1) by (auto simp: runs_def)
  from Shutdown_wf[OF sg(2) assms(2)] obtain sg' st' where "Shutdown (sg, cf_state (sk_cfg ts)) = Ret (sg', st')" "fresh_names rand st'" by blast
  with sg(1) show ?thesis
    by (auto simp: ExitGroup_def on_group_def cfg_Group_def lookupGroup_def delete_group_def update_conv' delete_conv')
qed

lemma MakeGroupStart_runs:
  assumes "fresh_names (se_rand env) (cf_state (sk_cfg ts))"
  shows "\<exists>ts'. sk_MakeGroupStart env g ts = Ret ts' \<and> fresh_names (se_rand env) (cf_state (sk_cfg ts')) \<and> runs g ts' \<and>
    cf_clnts (sk_cfg ts') = cf_clnts (sk_cfg ts) \<and> sk_ctl ts' = sk_ctl ts \<and> sk_ngid ts' = sk_ngid ts \<and>
    (\<forall>h. h \<noteq> g \<longrightarrow> cfg_Group h (sk_cfg ts') = cfg_Group h (sk_cfg ts))"
proof -
  from sk_MakeGroupStart_ok[OF assms] obtain cfg sg where
    m: "sk_MakeGroupStart env g ts = Ret (ts\<lparr>sk_cfg := cfg\<rparr>)" "fresh_names (se_rand env) (cf_state cfg)" "cfg_Group g cfg = Some sg"
    "SrvNames sg = names_of g" "\<forall>h. h \<noteq> g \<longrightarrow> cfg_Group h cfg = cfg_Group h (sk_cfg ts)" "grp_ok (se_rand env) SHARD_NSRV (sg, cf_state cfg)"
    "shard_up (se_rand env) g cfg" by blast
  have "\<forall>i<SHARD_NSRV. sr_svcs (sg_srvs sg ! i) \<noteq> None" using m(3,7) by (auto simp: shard_up_def grp_up_def srv_up_def)
  then have "runs g (ts\<lparr>sk_cfg := cfg\<rparr>)" using m(3,4) grp_ok_wf[OF m(6)] by (simp add: runs_def)
  then show ?thesis using m sk_MakeGroupStart_clnts[OF m(1)] by simp
qed

subsection \<open>Controllers\<close>

text \<open>
  What the controllers are to do together: \<open>held k\<close> is the stored configuration; \<^verbatim>\<open>Query\<close> returns it; \<^verbatim>\<open>ChangeConfigTo\<close>
  stores a configuration that follows the stored one, and a controller that was superseded changes nothing;
  \<^verbatim>\<open>InitController\<close> finds nothing to finish.
\<close>

definition cas_controller :: "('s, 'v, 'k) skenv \<Rightarrow> ('k \<Rightarrow> 'k go) \<Rightarrow> ('k \<Rightarrow> shard_config option) \<Rightarrow> bool" where
  "cas_controller env initc held \<longleftrightarrow>
     (\<forall>k c. held k = Some c \<longrightarrow> (\<exists>k'. se_Query env k = Ret (Some c, k') \<and> held k' = Some c)) \<and>
     (\<forall>k c d. held k = Some d \<longrightarrow> (\<exists>k'. se_ChangeConfigTo env c k = Ret k' \<and> held k' = Some (if Num c = Num d + 1 then c else d))) \<and>
     (\<forall>k c. held k = Some c \<longrightarrow> (\<exists>k'. initc k = Ret k' \<and> held k' = Some c))"

lemma cas_controllerD:
  assumes "cas_controller env initc held"
  shows "held k = Some c \<Longrightarrow> \<exists>k'. se_Query env k = Ret (Some c, k') \<and> held k' = Some c"
    and "held k = Some d \<Longrightarrow> \<exists>k'. se_ChangeConfigTo env c k = Ret k' \<and> held k' = Some (if Num c = Num d + 1 then c else d)"
    and "held k = Some c \<Longrightarrow> \<exists>k'. initc k = Ret k' \<and> held k' = Some c"
  using assms by (simp_all add: cas_controller_def)

subsection \<open>The invariant\<close>

fun gid_of :: "ctl_pc \<Rightarrow> tgid option" where
  "gid_of Top = None"
| "gid_of (HasGid g) = Some g"
| "gid_of (HasClerk g) = Some g"
| "gid_of (Inited g) = Some g"
| "gid_of (Started g) = Some g"
| "gid_of (Joining g c) = Some g"
| "gid_of (Joined g) = Some g"
| "gid_of (Rechecking g) = Some g"
| "gid_of (Member g) = Some g"
| "gid_of (Leaving g c) = Some g"
| "gid_of (Left g) = Some g"
| "gid_of (Exiting g) = Some g"
| "gid_of Stopped = None"

text \<open>\<open>d\<close> was stored at some time, when \<open>c\<close> is stored now.\<close>

definition earlier :: "shard_config \<Rightarrow> shard_config \<Rightarrow> bool" where
  "earlier d c \<longleftrightarrow> Num d \<le> Num c \<and> (Num d = Num c \<longrightarrow> d = c)"

text \<open>
  What a goroutine may rely on when the groups \<open>gs\<close> are configured: before its join succeeded its group is not among them; once it has seen it as a
  member it stays until its own leave; a configuration in its hands was computed from one that was stored.
\<close>

fun pc_inv :: "bool \<Rightarrow> shard_config \<Rightarrow> tgid set \<Rightarrow> ('s, 'v, 'k) sktest \<Rightarrow> ctl_pc \<Rightarrow> bool" where
  "pc_inv b c gs ts (HasGid g) \<longleftrightarrow> g \<notin> gs"
| "pc_inv b c gs ts (HasClerk g) \<longleftrightarrow> g \<notin> gs"
| "pc_inv b c gs ts (Inited g) \<longleftrightarrow> g \<notin> gs"
| "pc_inv b c gs ts (Started g) \<longleftrightarrow> g \<notin> gs \<and> runs g ts"
| "pc_inv b c gs ts (Joining g c') \<longleftrightarrow> g \<notin> gs \<and> runs g ts \<and>
     (\<exists>d. earlier d c \<and> JoinBalance [(g, names_of g)] d = Ret (True, c') \<and> Num c' = Num d + 1)"
| "pc_inv b c gs ts (Member g) \<longleftrightarrow> g \<in> gs \<and> runs g ts"
| "pc_inv b c gs ts (Leaving g c') \<longleftrightarrow> g \<in> gs \<and> runs g ts \<and>
     (\<exists>d. earlier d c \<and> LeaveBalance [g] d = Ret (True, c') \<and> Num c' = Num d + 1)"
| "pc_inv b c gs ts (Exiting g) \<longleftrightarrow> (b \<longrightarrow> g \<notin> gs) \<and> runs g ts"
| "pc_inv b c gs ts pc \<longleftrightarrow> (case gid_of pc of None \<Rightarrow> True | Some g \<Rightarrow> runs g ts)"

text \<open>What all goroutines share: \<open>n0\<close> is the first identifier they draw, \<open>ids\<close> are the groups from before.\<close>

definition shared_inv :: "('s, 'v, 'k) skenv \<Rightarrow> ('k \<Rightarrow> shard_config option) \<Rightarrow> bool \<Rightarrow> tgid \<Rightarrow> tgid list \<Rightarrow> shard_config \<Rightarrow> tgid list \<Rightarrow> ('s, 'v, 'k) sktest \<Rightarrow> bool" where
  "shared_inv env held b n0 ids c gs ts \<longleftrightarrow> held (sk_ctl ts) = Some c \<and> (\<exists>k. config_reach k c) \<and> Groups c = named_groups gs \<and>
     set ids \<subseteq> set gs \<and> set gs \<subseteq> set ids \<union> {n0..<sk_ngid ts} \<and> n0 \<le> sk_ngid ts \<and>
     fresh_names (se_rand env) (cf_state (sk_cfg ts)) \<and> ks_clerks (cf_clnts (sk_cfg ts)) \<noteq> None \<and> (\<forall>g\<in>set ids. runs g ts) \<and>
     (b \<longrightarrow> (\<forall>g\<in>set gs. runs g ts))"

definition in_range_pc :: "tgid \<Rightarrow> ('s, 'v, 'k) sktest \<Rightarrow> ctl_pc \<Rightarrow> bool" where
  "in_range_pc n0 ts pc \<longleftrightarrow> (case gid_of pc of None \<Rightarrow> True | Some g \<Rightarrow> n0 \<le> g \<and> g < sk_ngid ts)"

text \<open>What an action of the goroutine at \<open>pc\<close> may change for the others: only its own group.\<close>

definition others_same :: "ctl_pc \<Rightarrow> shard_config \<Rightarrow> tgid set \<Rightarrow> ('s, 'v, 'k) sktest \<Rightarrow> shard_config \<Rightarrow> tgid set \<Rightarrow> ('s, 'v, 'k) sktest \<Rightarrow> bool" where
  "others_same pc c gs ts c' gs' ts' \<longleftrightarrow> (c' = c \<or> Num c < Num c') \<and> sk_ngid ts \<le> sk_ngid ts' \<and>
     (\<forall>h. gid_of pc \<noteq> Some h \<longrightarrow> (h \<in> gs') = (h \<in> gs) \<and> (runs h ts \<longrightarrow> runs h ts'))"

lemma earlier_mono: "earlier d c \<Longrightarrow> c' = c \<or> Num c < Num c' \<Longrightarrow> earlier d c'"
  by (auto simp: earlier_def)

lemma pc_inv_others:
  assumes "pc_inv b c gs ts q" "others_same pc c gs ts c' gs' ts'" "gid_of q = None \<or> gid_of q \<noteq> gid_of pc"
  shows "pc_inv b c' gs' ts' q"
proof -
  have h: "gid_of q = Some g \<Longrightarrow> (g \<in> gs') = (g \<in> gs) \<and> (runs g ts \<longrightarrow> runs g ts')" for g
    using assms(2,3) by (auto simp: others_same_def)
  have "earlier d c \<Longrightarrow> earlier d c'" for d using assms(2) earlier_mono by (auto simp: others_same_def)
  then show ?thesis using assms(1) h by (cases q) auto
qed

subsection \<open>Every action keeps the invariant\<close>

definition acts_well :: "('s, 'v, 'k) skenv \<Rightarrow> ('k \<Rightarrow> 'k go) \<Rightarrow> ('k \<Rightarrow> shard_config option) \<Rightarrow> bool \<Rightarrow> tgid \<Rightarrow> tgid list \<Rightarrow> shard_config \<Rightarrow> tgid list \<Rightarrow> ctl_pc \<Rightarrow>
    ('s, 'v, 'k) sktest \<Rightarrow> bool" where
  "acts_well env initc held b n0 ids c gs pc ts \<longleftrightarrow> (\<exists>pc' ts' c' gs'. ctl_act env initc pc ts = Ret (pc', ts') \<and> shared_inv env held b n0 ids c' gs' ts' \<and>
     pc_inv b c' (set gs') ts' pc' \<and> in_range_pc n0 ts' pc' \<and> others_same pc c (set gs) ts c' (set gs') ts' \<and>
     (gid_of pc' = None \<or> gid_of pc' = gid_of pc \<or> gid_of pc = None \<and> gid_of pc' = Some (sk_ngid ts)))"

lemmas acts_wellI = acts_well_def [THEN iffD2, OF exI, OF exI, OF exI, OF exI, OF conjI, OF _ conjI, OF _ _ conjI, OF _ _ _ conjI, OF _ _ _ _ conjI]

lemma runs_ctl [simp]: "runs g (ts\<lparr>sk_ctl := k\<rparr>) = runs g ts"
  by (rule runs_cong) simp

lemma runs_ngid [simp]: "runs g (ts\<lparr>sk_ngid := n\<rparr>) = runs g ts"
  by (rule runs_cong) simp

lemma in_range_ctl [simp]: "in_range_pc n0 (ts\<lparr>sk_ctl := k\<rparr>) pc = in_range_pc n0 ts pc"
  by (simp add: in_range_pc_def split: option.split)

lemma in_range_same: "in_range_pc n0 ts pc \<Longrightarrow> gid_of pc' = gid_of pc \<Longrightarrow> sk_ngid ts' = sk_ngid ts \<Longrightarrow> in_range_pc n0 ts' pc'"
  by (simp add: in_range_pc_def split: option.splits)

lemma shared_inv_ctl: "shared_inv env held b n0 ids c gs ts \<Longrightarrow> held k = Some c \<Longrightarrow> shared_inv env held b n0 ids c gs (ts\<lparr>sk_ctl := k\<rparr>)"
  by (simp add: shared_inv_def)

lemma others_same_ctl: "others_same pc c gs ts c gs (ts\<lparr>sk_ctl := k\<rparr>)"
  by (simp add: others_same_def)

lemma shared_inv_Groups:
  assumes "shared_inv env held b n0 ids c gs ts"
  shows "distinct gs" "Copy c = c"
proof -
  obtain k where "config_reach k c" "Groups c = named_groups gs" using assms by (auto simp: shared_inv_def)
  then have "cfg_ok c" using config_reach_inv by (auto simp: config_inv_def)
  then show "distinct gs" "Copy c = c" using \<open>Groups c = named_groups gs\<close> by (auto simp: cfg_ok_def Copy_id)
qed

lemma shared_inv_runs:
  assumes "shared_inv env held b n0 ids c gs ts"
  shows "\<forall>h\<in>set ids. runs h ts" "b \<longrightarrow> (\<forall>h\<in>set gs. runs h ts)"
  using assms by (simp_all add: shared_inv_def)

lemma shared_Query:
  assumes "cas_controller env initc held" "shared_inv env held b n0 ids c gs ts"
  shows "\<exists>k. sk_Query env ts = Ret (c, ts\<lparr>sk_ctl := k\<rparr>) \<and> held k = Some c"
proof -
  have "held (sk_ctl ts) = Some c" using assms(2) by (simp add: shared_inv_def)
  from cas_controllerD(1)[OF assms(1) this] show ?thesis by (auto simp: sk_Query_def)
qed

text \<open>
  A group that is reported as a member is one; with no more groups than shards the converse holds, too.
\<close>

lemma shared_checkMember:
  assumes "cas_controller env initc held" and S: "shared_inv env held b n0 ids c gs ts" and "ids \<noteq> []" and room: "b \<longrightarrow> length (Groups c) \<le> NShards"
  shows "\<exists>k r. checkMember env g ts = Ret (r, ts\<lparr>sk_ctl := k\<rparr>) \<and> held k = Some c \<and> (r \<longrightarrow> g \<in> set gs) \<and> (b \<longrightarrow> r = (g \<in> set gs))"
proof -
  obtain k where k: "sk_Query env ts = Ret (c, ts\<lparr>sk_ctl := k\<rparr>)" "held k = Some c" using shared_Query[OF assms(1) S] by blast
  obtain n where n: "config_reach n c" "Groups c = named_groups gs" "set ids \<subseteq> set gs" using S by (auto simp: shared_inv_def)
  have ne: "Groups c \<noteq> []" using n(2,3) assms(3) by (cases gs) (auto simp: named_groups_def)
  have inv: "config_inv c" using config_reach_inv[OF n(1)] by simp
  then have "all_assigned c" using ne by (simp add: config_inv_def)
  then have "IsMember c g \<longrightarrow> g \<in> gids c" by (auto simp: IsMember_def is_member_loop_iff all_assigned_def)
  then have "IsMember c g \<longrightarrow> g \<in> set gs" using n(2) by simp
  moreover have "b \<longrightarrow> IsMember c g = (g \<in> set gs)" using member_iff_group[OF inv _ ne, of g] room n(2) by simp
  moreover have "checkMember env g ts = Ret (IsMember c g, ts\<lparr>sk_ctl := k\<rparr>)" using k(1) by (simp add: checkMember_def)
  ultimately show ?thesis using k(2) by blast
qed

text \<open>Handing over a configuration: it is stored if it was computed from the stored one.\<close>

lemma shared_Change:
  assumes "cas_controller env initc held" "shared_inv env held b n0 ids c gs ts" "earlier d c" "Num c' = Num d + 1"
  shows "\<exists>k. se_ChangeConfigTo env c' (sk_ctl ts) = Ret k \<and> (held k = Some c \<or> d = c \<and> held k = Some c')"
proof -
  have "held (sk_ctl ts) = Some c" using assms(2) by (simp add: shared_inv_def)
  from cas_controllerD(2)[OF assms(1) this, of c'] show ?thesis using assms(3,4) by (auto simp: earlier_def)
qed

lemma act_Top:
  assumes "shared_inv env held b n0 ids c gs ts" "\<forall>g\<in>set ids. g < n0"
  shows "acts_well env initc held b n0 ids c gs Top ts"
proof -
  let ?ts = "ts\<lparr>sk_ngid := sk_ngid ts + 1\<rparr>"
  have "shared_inv env held b n0 ids c gs ?ts" using assms(1) by (auto simp: shared_inv_def)
  moreover have "set gs \<subseteq> set ids \<union> {n0..<sk_ngid ts}" "n0 \<le> sk_ngid ts" using assms(1) by (simp_all add: shared_inv_def)
  then have "sk_ngid ts \<notin> set gs" using assms(2) by force
  moreover have "in_range_pc n0 ?ts (HasGid (sk_ngid ts))" using assms(1) by (simp add: in_range_pc_def shared_inv_def)
  moreover have "others_same Top c (set gs) ts c (set gs) ?ts" by (simp add: others_same_def)
  ultimately show ?thesis
    by (intro acts_wellI[of env initc Top ts "HasGid (sk_ngid ts)" ?ts _ b n0 ids c gs]) (simp_all add: newGid_def)
qed

lemma act_HasGid:
  assumes S: "shared_inv env held b n0 ids c gs ts" and P: "pc_inv b c (set gs) ts (HasGid g)" and R: "in_range_pc n0 ts (HasGid g)"
  shows "acts_well env initc held b n0 ids c gs (HasGid g) ts"
proof -
  obtain cfg sck where m: "makeShardCtrler (sk_cfg ts) = Ret (sck, cfg)" "cf_state cfg = cf_state (sk_cfg ts)" "cf_groups cfg = cf_groups (sk_cfg ts)"
    "ks_clerks (cf_clnts cfg) \<noteq> None"
    using S by (auto simp: shared_inv_def makeShardCtrler_def makeShardCtrlerClnt_def cfg_client_def MakeClientTo_def)
  let ?ts = "ts\<lparr>sk_cfg := cfg\<rparr>"
  have r: "runs h ?ts = runs h ts" for h by (rule runs_cong) (simp add: cfg_Group_def m(3))
  have "shared_inv env held b n0 ids c gs ?ts" using S m(2,4) by (simp add: shared_inv_def r)
  then show ?thesis using m(1) P R
    by (intro acts_wellI[of env initc "HasGid g" ts "HasClerk g" ?ts]) (auto simp: others_same_def r in_range_pc_def)
qed

lemma act_HasClerk:
  assumes "cas_controller env initc held" and S: "shared_inv env held b n0 ids c gs ts" and P: "pc_inv b c (set gs) ts (HasClerk g)"
    and R: "in_range_pc n0 ts (HasClerk g)"
  shows "acts_well env initc held b n0 ids c gs (HasClerk g) ts"
proof -
  have "held (sk_ctl ts) = Some c" using S by (simp add: shared_inv_def)
  from cas_controllerD(3)[OF assms(1) this] obtain k where k: "initc (sk_ctl ts) = Ret k" "held k = Some c" by blast
  then show ?thesis using P R
    by (intro acts_wellI[of env initc "HasClerk g" ts "Inited g" "ts\<lparr>sk_ctl := k\<rparr>", OF _ shared_inv_ctl[OF S k(2)] _ _ others_same_ctl])
      (auto simp: in_range_pc_def)
qed

lemma act_Inited:
  assumes S: "shared_inv env held b n0 ids c gs ts" and P: "pc_inv b c (set gs) ts (Inited g)" and R: "in_range_pc n0 ts (Inited g)"
  shows "acts_well env initc held b n0 ids c gs (Inited g) ts"
proof -
  have "fresh_names (se_rand env) (cf_state (sk_cfg ts))" using S by (simp add: shared_inv_def)
  from MakeGroupStart_runs[OF this] obtain ts' where m: "sk_MakeGroupStart env g ts = Ret ts'" "fresh_names (se_rand env) (cf_state (sk_cfg ts'))"
    "runs g ts'" "cf_clnts (sk_cfg ts') = cf_clnts (sk_cfg ts)" "sk_ctl ts' = sk_ctl ts" "sk_ngid ts' = sk_ngid ts"
    "\<forall>h. h \<noteq> g \<longrightarrow> cfg_Group h (sk_cfg ts') = cfg_Group h (sk_cfg ts)" by blast
  have r: "h \<noteq> g \<Longrightarrow> runs h ts' = runs h ts" for h using m(7) by (intro runs_cong) simp
  have "h \<in> set gs \<Longrightarrow> b \<Longrightarrow> runs h ts'" "h \<in> set ids \<Longrightarrow> runs h ts'" for h using m(3) r[of h] shared_inv_runs[OF S] by (cases "h = g"; simp)+
  then have "shared_inv env held b n0 ids c gs ts'" using S m(2,4-6) by (simp add: shared_inv_def)
  moreover have "others_same (Inited g) c (set gs) ts c (set gs) ts'" using r m(3,6) by (auto simp: others_same_def)
  ultimately show ?thesis using m(1,3) P in_range_same[OF R, of "Started g" ts'] m(6)
    by (intro acts_wellI[of env initc "Inited g" ts "Started g" ts']) auto
qed

lemma act_Started:
  assumes cas: "cas_controller env initc held" and S: "shared_inv env held b n0 ids c gs ts" and P: "pc_inv b c (set gs) ts (Started g)"
    and R: "in_range_pc n0 ts (Started g)"
  shows "acts_well env initc held b n0 ids c gs (Started g) ts"
proof -
  obtain k where k: "sk_Query env ts = Ret (c, ts\<lparr>sk_ctl := k\<rparr>)" "held k = Some c" using shared_Query[OF cas S] by blast
  have "group_names g ts = Ret (names_of g)" using P by (auto simp: group_names_def runs_def)
  moreover obtain n where n: "config_reach n c" "Groups c = named_groups gs" using S by (auto simp: shared_inv_def)
  from JoinBalance_one[OF n(1), of g "names_of g"] obtain c' where
    j: "JoinBalance [(g, names_of g)] c = Ret (True, c')" "config_reach (Suc n) c'"
    using P n(2) named_groups_disjoint[of "gs @ [g]"] by auto
  moreover have "Num c' = Num c + 1" using config_reach_inv[OF n(1)] config_reach_inv[OF j(2)] by simp
  then have "pc_inv b c (set gs) (ts\<lparr>sk_ctl := k\<rparr>) (Joining g c')" using P j(1) by (auto simp: earlier_def)
  ultimately show ?thesis using k(1) shared_inv_Groups(2)[OF S] in_range_same[OF R, of "Joining g c'" "ts\<lparr>sk_ctl := k\<rparr>"]
    by (intro acts_wellI[of env initc "Started g" ts "Joining g c'" "ts\<lparr>sk_ctl := k\<rparr>", OF _ shared_inv_ctl[OF S k(2)] _ _ others_same_ctl]) auto
qed

text \<open>A change that was too late leaves everything as it was.\<close>

lemma act_superseded:
  assumes S: "shared_inv env held b n0 ids c gs ts" and R: "in_range_pc n0 ts pc" and k: "held k = Some c"
    and a: "ctl_act env initc pc ts = Ret (pc', ts\<lparr>sk_ctl := k\<rparr>)" "gid_of pc' = gid_of pc \<or> gid_of pc' = None" "pc_inv b c (set gs) ts pc'"
  shows "acts_well env initc held b n0 ids c gs pc ts"
proof -
  have "in_range_pc n0 (ts\<lparr>sk_ctl := k\<rparr>) pc'" using R a(2) by (auto simp: in_range_pc_def split: option.splits)
  moreover have "pc_inv b c (set gs) (ts\<lparr>sk_ctl := k\<rparr>) pc'" using a(3) by (cases pc') auto
  ultimately show ?thesis using a(2)
    by (intro acts_wellI[OF a(1) shared_inv_ctl[OF S k] _ _ others_same_ctl]) auto
qed

lemma act_Joining:
  assumes cas: "cas_controller env initc held" and S: "shared_inv env held b n0 ids c gs ts" and P: "pc_inv b c (set gs) ts (Joining g c')"
    and R: "in_range_pc n0 ts (Joining g c')"
  shows "acts_well env initc held b n0 ids c gs (Joining g c') ts"
proof -
  obtain d where d: "earlier d c" "JoinBalance [(g, names_of g)] d = Ret (True, c')" "Num c' = Num d + 1" and g: "g \<notin> set gs" "runs g ts" using P by auto
  from shared_Change[OF cas S d(1,3)] obtain k where k: "se_ChangeConfigTo env c' (sk_ctl ts) = Ret k" "held k = Some c \<or> d = c \<and> held k = Some c'" by blast
  let ?ts = "ts\<lparr>sk_ctl := k\<rparr>"
  from k(2) show ?thesis
  proof (elim disjE conjE)
    assume "held k = Some c"
    then show ?thesis using k(1) g(2) by (intro act_superseded[where k = k and pc' = "Joined g", OF S R]) auto
  next
    assume h: "d = c" "held k = Some c'"
    obtain n where n: "config_reach n c" "Groups c = named_groups gs" using S by (auto simp: shared_inv_def)
    from JoinBalance_one[OF n(1), of g "names_of g"] d(2) h(1) have c': "config_reach (Suc n) c'" "Groups c' = named_groups (gs @ [g])"
      using g(1) n(2) named_groups_disjoint[of "gs @ [g]"] by auto
    have "n0 \<le> g" "g < sk_ngid ts" using R by (simp_all add: in_range_pc_def)
    then have "shared_inv env held b n0 ids c' (gs @ [g]) ?ts" using S c' h(2) g(2) by (auto simp: shared_inv_def)
    moreover have "others_same (Joining g c') c (set gs) ts c' (set (gs @ [g])) ?ts" using d(3) h(1) by (auto simp: others_same_def)
    ultimately show ?thesis using k(1) g(2) in_range_same[OF R, of "Joined g" ?ts]
      by (intro acts_wellI[of env initc "Joining g c'" ts "Joined g" ?ts]) auto
  qed
qed

lemma act_Member:
  assumes cas: "cas_controller env initc held" and S: "shared_inv env held b n0 ids c gs ts" and P: "pc_inv b c (set gs) ts (Member g)"
    and R: "in_range_pc n0 ts (Member g)"
  shows "acts_well env initc held b n0 ids c gs (Member g) ts"
proof -
  obtain k where k: "sk_Query env ts = Ret (c, ts\<lparr>sk_ctl := k\<rparr>)" "held k = Some c" using shared_Query[OF cas S] by blast
  obtain n where n: "config_reach n c" "Groups c = named_groups gs" using S by (auto simp: shared_inv_def)
  from LeaveBalance_one[OF n(1), of g] P n(2) obtain c' where j: "LeaveBalance [g] c = Ret (True, c')" "config_reach (Suc n) c'" by auto
  moreover have "Num c' = Num c + 1" using config_reach_inv[OF n(1)] config_reach_inv[OF j(2)] by simp
  then have "pc_inv b c (set gs) ts (Leaving g c')" using P j(1) by (auto simp: earlier_def)
  ultimately show ?thesis using k(1) shared_inv_Groups(2)[OF S]
    by (intro act_superseded[where k = k and pc' = "Leaving g c'", OF S R k(2)]) auto
qed

lemma act_Leaving:
  assumes cas: "cas_controller env initc held" and S: "shared_inv env held b n0 ids c gs ts" and P: "pc_inv b c (set gs) ts (Leaving g c')"
    and R: "in_range_pc n0 ts (Leaving g c')" and ids: "\<forall>g\<in>set ids. g < n0"
  shows "acts_well env initc held b n0 ids c gs (Leaving g c') ts"
proof -
  obtain d where d: "earlier d c" "LeaveBalance [g] d = Ret (True, c')" "Num c' = Num d + 1" and g: "g \<in> set gs" "runs g ts" using P by auto
  from shared_Change[OF cas S d(1,3)] obtain k where k: "se_ChangeConfigTo env c' (sk_ctl ts) = Ret k" "held k = Some c \<or> d = c \<and> held k = Some c'" by blast
  let ?ts = "ts\<lparr>sk_ctl := k\<rparr>" and ?gs = "filter (\<lambda>h. h \<noteq> g) gs"
  from k(2) show ?thesis
  proof (elim disjE conjE)
    assume "held k = Some c"
    then show ?thesis using k(1) g(2) by (intro act_superseded[where k = k and pc' = "Left g", OF S R]) auto
  next
    assume h: "d = c" "held k = Some c'"
    obtain n where n: "config_reach n c" "Groups c = named_groups gs" using S by (auto simp: shared_inv_def)
    have "gm_has (Groups c) g" using g(1) n(2) by simp
    from LeaveBalance_one[OF n(1) this] d(2) h(1) have c': "config_reach (Suc n) c'" "Groups c' = named_groups ?gs"
      using n(2) by (auto simp: named_groups_def filter_map comp_def)
    have "g \<notin> set ids" using R ids by (auto simp: in_range_pc_def)
    then have "shared_inv env held b n0 ids c' ?gs ?ts" using S c' h(2) g(2) by (auto simp: shared_inv_def)
    moreover have "others_same (Leaving g c') c (set gs) ts c' (set ?gs) ?ts" using d(3) h(1) by (auto simp: others_same_def)
    ultimately show ?thesis using k(1) g(2) in_range_same[OF R, of "Left g" ?ts]
      by (intro acts_wellI[of env initc "Leaving g c'" ts "Left g" ?ts]) auto
  qed
qed

lemma act_Exiting:
  assumes S: "shared_inv env held b n0 ids c gs ts" and P: "pc_inv b c (set gs) ts (Exiting g)"
    and R: "in_range_pc n0 ts (Exiting g)" and ids: "\<forall>g\<in>set ids. g < n0"
  shows "acts_well env initc held b n0 ids c gs (Exiting g) ts"
proof -
  have "runs g ts" "fresh_names (se_rand env) (cf_state (sk_cfg ts))" using S P by (simp_all add: shared_inv_def)
  from ExitGroup_wf[OF this] obtain cfg where x: "ExitGroup g (sk_cfg ts) = Ret cfg" "fresh_names (se_rand env) (cf_state cfg)"
    "cf_clnts cfg = cf_clnts (sk_cfg ts)" "\<forall>h. h \<noteq> g \<longrightarrow> cfg_Group h cfg = cfg_Group h (sk_cfg ts)" by blast
  let ?ts = "ts\<lparr>sk_cfg := cfg\<rparr>"
  have r: "h \<noteq> g \<Longrightarrow> runs h ?ts = runs h ts" for h using x(4) by (intro runs_cong) simp
  have "g \<notin> set ids" using R ids by (auto simp: in_range_pc_def)
  then have "h \<in> set ids \<Longrightarrow> runs h ?ts" for h using r[of h] shared_inv_runs(1)[OF S] by (cases "h = g") auto
  moreover have "h \<in> set gs \<Longrightarrow> b \<Longrightarrow> runs h ?ts" for h using P r[of h] shared_inv_runs(2)[OF S] by (cases "h = g") auto
  ultimately have "shared_inv env held b n0 ids c gs ?ts" using S x(2,3) by (simp add: shared_inv_def)
  moreover have "others_same (Exiting g) c (set gs) ts c (set gs) ?ts" using r by (auto simp: others_same_def)
  ultimately show ?thesis using x(1)
    by (intro acts_wellI[of env initc "Exiting g" ts Top ?ts]) (auto simp: in_range_pc_def)
qed

lemma acts_well:
  assumes cas: "cas_controller env initc held" and S: "shared_inv env held b n0 ids c gs ts" and P: "pc_inv b c (set gs) ts pc" and R: "in_range_pc n0 ts pc"
    and ids: "\<forall>g\<in>set ids. g < n0" "ids \<noteq> []" and room: "b \<longrightarrow> length (Groups c) \<le> NShards"
  shows "acts_well env initc held b n0 ids c gs pc ts"
proof -
  note member = shared_checkMember[OF cas S ids(2) room]
  show ?thesis
  proof (cases pc)
    case (Joined g)
    with P obtain k r where "checkMember env g ts = Ret (r, ts\<lparr>sk_ctl := k\<rparr>)" "held k = Some c" "runs g ts" "r \<longrightarrow> g \<in> set gs" "b \<longrightarrow> r = (g \<in> set gs)"
      using member[of g] by auto
    with Joined R show ?thesis by (intro act_superseded[where k = k and pc' = "Rechecking g", OF S R]) auto
  next
    case (Rechecking g)
    with P obtain k r where "checkMember env g ts = Ret (r, ts\<lparr>sk_ctl := k\<rparr>)" "held k = Some c" "runs g ts" "r \<longrightarrow> g \<in> set gs" "b \<longrightarrow> r = (g \<in> set gs)"
      using member[of g] by auto
    with Rechecking R show ?thesis by (intro act_superseded[where k = k and pc' = "if r then Member g else Top", OF S R]) auto
  next
    case (Left g)
    with P obtain k r where "checkMember env g ts = Ret (r, ts\<lparr>sk_ctl := k\<rparr>)" "held k = Some c" "runs g ts" "r \<longrightarrow> g \<in> set gs" "b \<longrightarrow> r = (g \<in> set gs)"
      using member[of g] by auto
    with Left R show ?thesis by (intro act_superseded[where k = k and pc' = "if r then Top else Exiting g", OF S R]) auto
  next
    case Stopped
    then show ?thesis using S R by (intro acts_wellI[of env initc pc ts Stopped ts]) (auto simp: others_same_def in_range_pc_def)
  next
    case Top
    show ?thesis using P R unfolding Top by (intro act_Top[OF S ids(1)])
  next
    case (HasGid g)
    show ?thesis using P R unfolding HasGid by (rule act_HasGid[OF S])
  next
    case (HasClerk g)
    show ?thesis using P R unfolding HasClerk by (rule act_HasClerk[OF cas S])
  next
    case (Inited g)
    show ?thesis using P R unfolding Inited by (rule act_Inited[OF S])
  next
    case (Started g)
    show ?thesis using P R unfolding Started by (rule act_Started[OF cas S])
  next
    case (Joining g c')
    show ?thesis using P R unfolding Joining by (rule act_Joining[OF cas S])
  next
    case (Member g)
    show ?thesis using P R unfolding Member by (rule act_Member[OF cas S])
  next
    case (Leaving g c')
    show ?thesis using P R unfolding Leaving by (rule act_Leaving[OF cas S _ _ ids(1)])
  next
    case (Exiting g)
    show ?thesis using P R unfolding Exiting by (rule act_Exiting[OF S _ _ ids(1)])
  qed
qed

subsection \<open>All interleavings\<close>

definition conc_inv :: "('s, 'v, 'k) skenv \<Rightarrow> ('k \<Rightarrow> shard_config option) \<Rightarrow> bool \<Rightarrow> tgid \<Rightarrow> tgid list \<Rightarrow> ('s, 'v, 'k) conc_world \<Rightarrow> bool" where
  "conc_inv env held b n0 ids w \<longleftrightarrow> (\<exists>c gs. shared_inv env held b n0 ids c gs (cw_ts w) \<and>
     (\<forall>i<length (cw_pcs w). pc_inv b c (set gs) (cw_ts w) (cw_pcs w ! i) \<and> in_range_pc n0 (cw_ts w) (cw_pcs w ! i))) \<and>
     (\<forall>i<length (cw_pcs w). \<forall>j<length (cw_pcs w). i \<noteq> j \<longrightarrow> gid_of (cw_pcs w ! i) = None \<or> gid_of (cw_pcs w ! i) \<noteq> gid_of (cw_pcs w ! j))"

lemma shared_inv_weaken: "shared_inv env held b n0 ids c gs ts \<Longrightarrow> (b' \<longrightarrow> b) \<Longrightarrow> shared_inv env held b' n0 ids c gs ts"
  by (simp add: shared_inv_def)

lemma pc_inv_weaken: "pc_inv b c gs ts pc \<Longrightarrow> (b' \<longrightarrow> b) \<Longrightarrow> pc_inv b' c gs ts pc"
  by (cases pc) auto

lemma conc_inv_weaken: "conc_inv env held b n0 ids w \<Longrightarrow> (b' \<longrightarrow> b) \<Longrightarrow> conc_inv env held b' n0 ids w"
  unfolding conc_inv_def using shared_inv_weaken[of env held b n0 ids _ _ "cw_ts w" b'] pc_inv_weaken[of b _ _ "cw_ts w" _ b'] by blast

text \<open>The stored configuration has at most as many groups as there are shards.\<close>

definition few_groups :: "('k \<Rightarrow> shard_config option) \<Rightarrow> ('s, 'v, 'k) conc_world \<Rightarrow> bool" where
  "few_groups held w \<longleftrightarrow> (case held (sk_ctl (cw_ts w)) of None \<Rightarrow> True | Some c \<Rightarrow> length (Groups c) \<le> NShards)"

text \<open>
  The runs of the goroutines: \<open>conc_run env initc held w0 few w\<close> if some interleaving leads from \<open>w0\<close> to \<open>w\<close>; \<open>few\<close> records
  whether every configuration that was stored on the way had at most as many groups as there are shards.
\<close>

inductive conc_run :: "('s, 'v, 'k) skenv \<Rightarrow> ('k \<Rightarrow> 'k go) \<Rightarrow> ('k \<Rightarrow> shard_config option) \<Rightarrow> ('s, 'v, 'k) conc_world \<Rightarrow> bool \<Rightarrow>
    ('s, 'v, 'k) conc_world \<Rightarrow> bool" for env initc held w0 where
  start: "conc_run env initc held w0 True w0"
| step: "conc_run env initc held w0 few v \<Longrightarrow> conc_step env initc v w \<Longrightarrow> conc_run env initc held w0 (few \<and> few_groups held v) w"

lemma few_groupsD: "b \<longrightarrow> few_groups held w \<Longrightarrow> shared_inv env held b n0 ids c gs (cw_ts w) \<Longrightarrow> b \<longrightarrow> length (Groups c) \<le> NShards"
  by (simp add: few_groups_def shared_inv_def)

text \<open>Every interleaving is such a run.\<close>

lemma conc_run_steps: "(conc_step env initc ^^ m) w0 w \<Longrightarrow> \<exists>few. conc_run env initc held w0 few w"
  by (induction m arbitrary: w) (auto intro: conc_run.intros)

lemma in_range_mono: "in_range_pc n0 ts pc \<Longrightarrow> sk_ngid ts \<le> sk_ngid ts' \<Longrightarrow> in_range_pc n0 ts' pc"
  by (auto simp: in_range_pc_def split: option.splits)

lemma conc_inv_step:
  assumes cas: "cas_controller env initc held" and st: "conc_step env initc w w'" and inv: "conc_inv env held b n0 ids w"
    and ids: "\<forall>g\<in>set ids. g < n0" "ids \<noteq> []" and room: "b \<longrightarrow> few_groups held w"
  shows "conc_inv env held b n0 ids w' \<and> length (cw_pcs w') = length (cw_pcs w)"
  using st
proof (cases rule: conc_step.cases)
  case (act i pc ts)
  let ?pcs = "cw_pcs w"
  obtain c gs where S: "shared_inv env held b n0 ids c gs (cw_ts w)"
    and L: "\<And>j. j < length ?pcs \<Longrightarrow> pc_inv b c (set gs) (cw_ts w) (?pcs ! j) \<and> in_range_pc n0 (cw_ts w) (?pcs ! j)"
    and D: "\<And>j k. j < length ?pcs \<Longrightarrow> k < length ?pcs \<Longrightarrow> j \<noteq> k \<Longrightarrow> gid_of (?pcs ! j) = None \<or> gid_of (?pcs ! j) \<noteq> gid_of (?pcs ! k)"
    using inv unfolding conc_inv_def by blast
  have "acts_well env initc held b n0 ids c gs (?pcs ! i) (cw_ts w)"
    using acts_well[OF cas S _ _ ids] few_groupsD[OF room S] L[OF act(2)] by blast
  then obtain c' gs' where a: "shared_inv env held b n0 ids c' gs' ts" "pc_inv b c' (set gs') ts pc" "in_range_pc n0 ts pc"
    "others_same (?pcs ! i) c (set gs) (cw_ts w) c' (set gs') ts"
    "gid_of pc = None \<or> gid_of pc = gid_of (?pcs ! i) \<or> gid_of (?pcs ! i) = None \<and> gid_of pc = Some (sk_ngid (cw_ts w))"
    using act(4) unfolding acts_well_def by auto
  have mono: "sk_ngid (cw_ts w) \<le> sk_ngid ts" using a(4) by (simp add: others_same_def)
  have other: "pc_inv b c' (set gs') ts (?pcs ! j) \<and> in_range_pc n0 ts (?pcs ! j) \<and> (gid_of pc = None \<or> gid_of pc \<noteq> gid_of (?pcs ! j))"
    if "j < length ?pcs" "j \<noteq> i" for j
  proof (intro conjI)
    show "pc_inv b c' (set gs') ts (?pcs ! j)" using pc_inv_others[OF _ a(4)] L[OF that(1)] D[OF that(1) act(2) that(2)] by blast
    show "in_range_pc n0 ts (?pcs ! j)" using in_range_mono[OF _ mono] L[OF that(1)] by blast
    have "gid_of (?pcs ! j) \<noteq> Some (sk_ngid (cw_ts w))" using L[OF that(1)] by (auto simp: in_range_pc_def split: option.splits)
    then show "gid_of pc = None \<or> gid_of pc \<noteq> gid_of (?pcs ! j)" using a(5) D[OF act(2) that(1)] that(2) by auto
  qed
  have "pc_inv b c' (set gs') ts (?pcs[i := pc] ! j) \<and> in_range_pc n0 ts (?pcs[i := pc] ! j)" if "j < length ?pcs" for j
    using other[OF that] a(2,3) act(2) by (cases "j = i") (simp_all add: nth_list_update)
  moreover have "gid_of (?pcs[i := pc] ! j) = None \<or> gid_of (?pcs[i := pc] ! j) \<noteq> gid_of (?pcs[i := pc] ! k)"
    if "j < length ?pcs" "k < length ?pcs" "j \<noteq> k" for j k
    using other[OF that(1)] other[OF that(2)] D[OF that] that act(2) by (cases "j = i"; cases "k = i") auto
  ultimately have "conc_inv env held b n0 ids w'" using a(1) act(1) unfolding conc_inv_def by simp blast
  then show ?thesis using mono act(1) by simp
next
  case (stop i s)
  let ?pcs = "cw_pcs w"
  obtain c gs where S: "shared_inv env held b n0 ids c gs (cw_ts w)"
    and L: "\<And>j. j < length ?pcs \<Longrightarrow> pc_inv b c (set gs) (cw_ts w) (?pcs ! j) \<and> in_range_pc n0 (cw_ts w) (?pcs ! j)"
    and D: "\<And>j k. j < length ?pcs \<Longrightarrow> k < length ?pcs \<Longrightarrow> j \<noteq> k \<Longrightarrow> gid_of (?pcs ! j) = None \<or> gid_of (?pcs ! j) \<noteq> gid_of (?pcs ! k)"
    using inv unfolding conc_inv_def by blast
  have "pc_inv b c (set gs) (cw_ts w) (?pcs[i := Stopped] ! j) \<and> in_range_pc n0 (cw_ts w) (?pcs[i := Stopped] ! j)" if "j < length ?pcs" for j
    using L[OF that] stop(2) by (cases "j = i") (simp_all add: in_range_pc_def)
  moreover have "gid_of (?pcs[i := Stopped] ! j) = None \<or> gid_of (?pcs[i := Stopped] ! j) \<noteq> gid_of (?pcs[i := Stopped] ! k)"
    if "j < length ?pcs" "k < length ?pcs" "j \<noteq> k" for j k
    using D[OF that] that stop(2) by (cases "j = i"; cases "k = i") auto
  ultimately have "conc_inv env held b n0 ids w'" using S stop(1) unfolding conc_inv_def by simp blast
  then show ?thesis using stop(1) by simp
qed

lemma conc_inv_start:
  assumes "shared_inv env held b (sk_ngid ts) ids c ids ts"
  shows "conc_inv env held b (sk_ngid ts) ids (conc_start n ts)"
  using assms by (auto simp: conc_inv_def conc_start_def in_range_pc_def)

lemma conc_inv_run:
  assumes "cas_controller env initc held" "shared_inv env held True (sk_ngid ts) ids c ids ts" "\<forall>g\<in>set ids. g < sk_ngid ts" "ids \<noteq> []"
    and "conc_run env initc held (conc_start n ts) few w"
  shows "conc_inv env held few (sk_ngid ts) ids w \<and> length (cw_pcs w) = n"
  using assms(5)
proof (induction rule: conc_run.induct)
  case start
  show ?case using conc_inv_start[OF assms(2)] by (simp add: conc_start_def)
next
  case (step few v w)
  have "conc_inv env held (few \<and> few_groups held v) (sk_ngid ts) ids v" using step.IH conc_inv_weaken by blast
  from conc_inv_step[OF assms(1) step.hyps(2) this assms(3,4)] step.IH show ?case by simp
qed

subsection \<open>Property\<close>

text \<open>
  Beyond twelve groups the bound matters: some configured group has no shard, and a controller whose leave of this group was superseded
  goes on to shut it down while it stays configured.
\<close>

lemma crowded_group_exits:
  assumes "cas_controller env initc held" "held (sk_ctl ts) = Some c" "config_inv c" "NShards < length (Groups c)"
  shows "\<exists>g ts'. gm_has (Groups c) g \<and> ctl_act env initc (Left g) ts = Ret (Exiting g, ts') \<and> held (sk_ctl ts') = Some c"
proof -
  obtain g where "gm_has (Groups c) g" "\<not> IsMember c g" using some_group_is_no_member[OF assms(3,4)] by blast
  moreover obtain k where "se_Query env (sk_ctl ts) = Ret (Some c, k)" "held k = Some c" using cas_controllerD(1)[OF assms(1,2)] by blast
  ultimately show ?thesis by (intro exI[of _ g]) (auto simp: checkMember_def sk_Query_def)
qed

text \<open>
  Property C14: controllers that run at the same time do not disturb each other. Start any number of goroutines of \<^verbatim>\<open>concurCtrler\<close> on a
  test whose configuration holds the running groups \<open>ids\<close>, over controllers that store a configuration only if it follows the stored
  one. After every interleaving of their actions the next action of
  every goroutine returns: no join meets a present group, no leave an absent one, and no group is missing in the tester. The stored
  configuration passes \<^verbatim>\<open>CheckConfig\<close> and has all groups from before, and these groups run. If on the way no stored configuration had more
  groups than there are shards (\<open>few\<close>), every group of the stored configuration runs in the tester under the names it lists: no group
  was shut down while it was configured. (Beyond that bound a group may own no shard; \<^verbatim>\<open>IsMember\<close> then reports it absent after a leave that was
  superseded, and \<^verbatim>\<open>leaveGroups\<close> shuts it down although it is configured.)
\<close>

theorem concurrent_controllers_safe:
  assumes "cas_controller env initc held" and "held (sk_ctl ts) = Some c" and "config_reach k c" and "Groups c = named_groups ids" and "ids \<noteq> []"
    and "fresh_names (se_rand env) (cf_state (sk_cfg ts))" and "ks_clerks (cf_clnts (sk_cfg ts)) \<noteq> None"
    and "\<forall>g\<in>set ids. g < sk_ngid ts \<and> runs g ts"
    and "conc_run env initc held (conc_start n ts) few w"
  shows "(\<forall>i<n. \<exists>pc ts'. ctl_act env initc (cw_pcs w ! i) (cw_ts w) = Ret (pc, ts')) \<and>
    (\<exists>c' gs. held (sk_ctl (cw_ts w)) = Some c' \<and> Groups c' = named_groups gs \<and> set ids \<subseteq> set gs \<and> CheckConfig c' gs = Ret () \<and>
      (\<forall>g\<in>(if few then set gs else set ids). \<exists>sg. cfg_Group g (sk_cfg (cw_ts w)) = Some sg \<and> SrvNames sg = names_of g \<and>
        (\<forall>i<SHARD_NSRV. sr_svcs (sg_srvs sg ! i) \<noteq> None)))"
proof -
  have S0: "shared_inv env held True (sk_ngid ts) ids c ids ts" using assms(2-4,6-8) by (auto simp: shared_inv_def)
  have less: "\<forall>g\<in>set ids. g < sk_ngid ts" using assms(8) by blast
  have inv: "conc_inv env held few (sk_ngid ts) ids w" "length (cw_pcs w) = n"
    using conc_inv_run[OF assms(1) S0 less assms(5,9)] by auto
  then obtain c' gs where S: "shared_inv env held few (sk_ngid ts) ids c' gs (cw_ts w)"
    and L: "\<forall>i<n. pc_inv few c' (set gs) (cw_ts w) (cw_pcs w ! i) \<and> in_range_pc (sk_ngid ts) (cw_ts w) (cw_pcs w ! i)"
    by (auto simp: conc_inv_def)
  have "\<exists>pc ts'. ctl_act env initc (cw_pcs w ! i) (cw_ts w) = Ret (pc, ts')" if "i < n" for i
  proof -
    have "pc_inv False c' (set gs) (cw_ts w) (cw_pcs w ! i)" using L that pc_inv_weaken by blast
    then have "acts_well env initc held False (sk_ngid ts) ids c' gs (cw_pcs w ! i) (cw_ts w)"
      using L that by (intro acts_well[OF assms(1) shared_inv_weaken[OF S] _ _ less assms(5)]) simp_all
    then show ?thesis unfolding acts_well_def by blast
  qed
  moreover obtain l where l: "config_reach l c'" "Groups c' = named_groups gs" "set ids \<subseteq> set gs" "held (sk_ctl (cw_ts w)) = Some c'"
    using S by (auto simp: shared_inv_def)
  have "gs \<noteq> []" using l(3) assms(5) by auto
  then have "CheckConfig c' gs = Ret ()" by (rule named_groups_CheckConfig[OF l(1,2)])
  moreover have "\<forall>g\<in>(if few then set gs else set ids). runs g (cw_ts w)" using shared_inv_runs[OF S] by simp
  then have "\<forall>g\<in>(if few then set gs else set ids). \<exists>sg. cfg_Group g (sk_cfg (cw_ts w)) = Some sg \<and> SrvNames sg = names_of g \<and>
        (\<forall>i<SHARD_NSRV. sr_svcs (sg_srvs sg ! i) \<noteq> None)" unfolding runs_def by blast
  ultimately show ?thesis using l by blast
qed

definition ex_cas_env :: "(persister, byte list, shard_config option) skenv" where
  "ex_cas_env = ex_skenv\<lparr>se_ChangeConfigTo := \<lambda>c k. Ret (map_option (\<lambda>d. if Num c = Num d + 1 then c else d) k)\<rparr>"

theorem concurrent_controllers_safe_witness:
  "\<exists>cfg ts0 c w c'. MakeConfig ex_rand 10 1 True ex_mks = Ret cfg \<and>
    sk_MakeGroupStart ex_cas_env Gid1 \<lparr>sk_cfg = cfg, sk_ctl = Some c, sk_ngid = 2\<rparr> = Ret ts0 \<and>
    conc_run ex_cas_env Ret (\<lambda>k. k) (conc_start 2 ts0) True w \<and> cw_pcs w = [HasGid 2, HasGid 3] \<and> sk_ctl (cw_ts w) = Some c' \<and>
    (\<exists>pc ts. ctl_act ex_cas_env Ret (HasGid 3) (cw_ts w) = Ret (pc, ts)) \<and> gm_keys (Groups c') = [Gid1] \<and>
    (\<exists>sg. cfg_Group Gid1 (sk_cfg (cw_ts w)) = Some sg \<and> sr_svcs (sg_srvs sg ! 2) \<noteq> None)"
proof -
  have "inj ex_rand" using ex_fresh by (simp add: fresh_names_def)
  from MakeConfig_new[OF this] obtain cfg where
    m: "MakeConfig ex_rand 10 1 True ex_mks = Ret cfg" "fresh_names ex_rand (cf_state cfg)" "cf_clnts cfg = makeClnts" by blast
  from JoinBalance_one[OF config_reach.start, of Gid1 "names_of Gid1"] obtain c where
    c: "config_reach (Suc 0) c" "Groups c = named_groups [Gid1]"
    using named_groups_disjoint[of "[Gid1]"] by (auto simp: MakeShardConfig_def)
  let ?ts = "\<lparr>sk_cfg = cfg, sk_ctl = Some c, sk_ngid = 2\<rparr>"
  have rand: "se_rand ex_cas_env = ex_rand" by (simp add: ex_cas_env_def ex_skenv_def)
  then have "fresh_names (se_rand ex_cas_env) (cf_state (sk_cfg ?ts))" using m(2) by simp
  from MakeGroupStart_runs[OF this, of Gid1] obtain ts0 where t: "sk_MakeGroupStart ex_cas_env Gid1 ?ts = Ret ts0"
    "fresh_names (se_rand ex_cas_env) (cf_state (sk_cfg ts0))" "runs Gid1 ts0" "cf_clnts (sk_cfg ts0) = cf_clnts cfg" "sk_ctl ts0 = Some c" "sk_ngid ts0 = 2"
    by auto
  define ts1 where "ts1 = ts0\<lparr>sk_ngid := 3\<rparr>"
  define w where "w = \<lparr>cw_ts = ts0\<lparr>sk_ngid := 4\<rparr>, cw_pcs = [HasGid 2, HasGid 3], cw_signals = 2\<rparr>"
  define w1 where "w1 = \<lparr>cw_ts = ts1, cw_pcs = [HasGid 2, Top], cw_signals = 2\<rparr>"
  have "conc_step ex_cas_env Ret (conc_start 2 ts0) w1"
    using conc_step.act[of 0 "conc_start 2 ts0" ex_cas_env Ret "HasGid 2" ts1] t(6) by (simp add: conc_start_def newGid_def ts1_def w1_def numeral_2_eq_2)
  moreover have "conc_step ex_cas_env Ret w1 w"
    using conc_step.act[of 1 w1 ex_cas_env Ret "HasGid 3" "ts0\<lparr>sk_ngid := 4\<rparr>"] by (simp add: newGid_def ts1_def w1_def w_def)
  moreover have "few_groups (\<lambda>k. k) (conc_start 2 ts0)" "few_groups (\<lambda>k. k) w1"
    using t(5) c(2) by (simp_all add: few_groups_def conc_start_def w1_def ts1_def NShards_def)
  ultimately have run: "conc_run ex_cas_env Ret (\<lambda>k. k) (conc_start 2 ts0) True w"
    using conc_run.step[OF conc_run.step[OF conc_run.start], of ex_cas_env Ret "conc_start 2 ts0" w1 w "\<lambda>k. k"] by simp
  have laws: "cas_controller ex_cas_env Ret (\<lambda>k. k)" by (auto simp: cas_controller_def ex_cas_env_def ex_skenv_def)
  have clerks: "ks_clerks (cf_clnts (sk_cfg ts0)) \<noteq> None" using t(4) m(3) by (simp add: makeClnts_def)
  have g1: "\<forall>g\<in>set [Gid1]. g < sk_ngid ts0 \<and> runs g ts0" using t(3,6) by (simp add: Gid1_def)
  obtain c' gs where r: "\<forall>i<2. \<exists>pc ts'. ctl_act ex_cas_env Ret (cw_pcs w ! i) (cw_ts w) = Ret (pc, ts')" "sk_ctl (cw_ts w) = Some c'" "set [Gid1] \<subseteq> set gs"
    "\<forall>g\<in>set gs. \<exists>sg. cfg_Group g (sk_cfg (cw_ts w)) = Some sg \<and> SrvNames sg = names_of g \<and> (\<forall>i<SHARD_NSRV. sr_svcs (sg_srvs sg ! i) \<noteq> None)"
    using concurrent_controllers_safe[OF laws t(5) c _ t(2) clerks g1 run] by auto
  from r(1) have "\<exists>pc ts. ctl_act ex_cas_env Ret (HasGid 3) (cw_ts w) = Ret (pc, ts)" by (auto simp: w_def dest: spec[of _ 1])
  moreover have "gm_keys (Groups c') = [Gid1]" using r(2) t(5) c(2) by (simp add: w_def)
  moreover have "cw_pcs w = [HasGid 2, HasGid 3]" by (simp add: w_def)
  moreover from r(3) have "Gid1 \<in> set gs" by simp
  with r(4) have "\<exists>sg. cfg_Group Gid1 (sk_cfg (cw_ts w)) = Some sg \<and> sr_svcs (sg_srvs sg ! 2) \<noteq> None" unfolding SHARD_NSRV_def by fastforce
  ultimately show ?thesis using m(1) t(1) run r(2)
    by (intro exI[of _ cfg] exI[of _ ts0] exI[of _ c] exI[of _ w] exI[of _ c'] conjI) assumption+
qed

end
