(* ===== verification/Raft_Leader.thy ===== *)
theory Raft_Leader
  imports Raft_Harness
begin

text \<open>
  What the checks of the Raft tests on leaders and terms decide (\<^verbatim>\<open>checkOneLeader\<close>, \<^verbatim>\<open>checkNoLeader\<close> and \<^verbatim>\<open>checkTerms\<close> of
  \<^verbatim>\<open>raft1/test.go\<close>, whose definitions are in \<^verbatim>\<open>Raft_Harness\<close>). While the checks run, the peers are asked one after the other and other goroutines
  run in between; the results are for times in which no peer changes its answer.
\<close>

subsection \<open>Steady answers\<close>

text \<open>
  \<open>A i\<close> is what server \<open>i\<close> answers, its term and whether it claims to be the leader, and \<open>None\<close> for a server that is not connected.
\<close>

definition answering :: "('c, 'r) renv \<Rightarrow> (nat \<Rightarrow> (int \<times> bool) option) \<Rightarrow> nat \<Rightarrow> ('c, 'r) rtest \<Rightarrow> bool" where
  "answering env A n st \<longleftrightarrow> rt_n st = n \<and> length (rt_connected st) = n \<and> length (rt_srvs st) = n \<and> snd (rt_ann st) \<noteq> None \<and>
     (\<forall>i<n. case A i of None \<Rightarrow> \<not> rt_connected st ! i | Some r \<Rightarrow> rt_connected st ! i \<and> rfsrv_GetState env (rt_srvs st ! i) st = Ret r)"

text \<open>No goroutine changes an answer.\<close>

definition steady :: "('c, 'r) renv \<Rightarrow> (nat \<Rightarrow> (int \<times> bool) option) \<Rightarrow> nat \<Rightarrow> bool" where
  "steady env A n \<longleftrightarrow> (\<forall>k st. answering env A n st \<longrightarrow> answering env A n (re_others env k st))"

definition claims :: "(nat \<Rightarrow> (int \<times> bool) option) \<Rightarrow> int \<Rightarrow> nat \<Rightarrow> bool" where
  "claims A T i \<longleftrightarrow> A i = Some (T, True)"

lemma rfsrv_GetState_cong:
  "rt_heap st' = rt_heap st \<Longrightarrow> rt_raft st' = rt_raft st \<Longrightarrow> rfsrv_GetState env p st' = rfsrv_GetState env p st"
  by (simp add: rfsrv_GetState_def rfsrv_Raft_def obj_def cong: option.case_cong)

lemma answering_pause: "steady env A n \<Longrightarrow> answering env A n st \<Longrightarrow> answering env A n (pause env st)"
proof -
  assume "steady env A n" "answering env A n st"
  then have "answering env A n (re_others env (rt_pauses st) st)" by (simp add: steady_def)
  then show ?thesis
    unfolding answering_def pause_def
    by (auto simp: rfsrv_GetState_cong[of "_\<lparr>rt_pauses := _\<rparr>"] split: option.splits)
qed

lemma checker_end_Ret: "snd a \<noteq> None \<Longrightarrow> \<exists>a'. AnnotateCheckerEnd t d e c a = Ret a' \<and> snd a' \<noteq> None"
  by (auto simp: AnnotateCheckerEnd_def with_finfo_def Let_def AnnotatePointColor_def AnnotateIntervalColor_def)

lemma answering_annotate:
  assumes "answering env A n st" "\<And>t. \<exists>a. f t (rt_ann st) = Ret a \<and> snd a \<noteq> None"
  shows "\<exists>st'. rt_annotate env f st = Ret st' \<and> answering env A n st'"
proof -
  obtain a where a: "f (now env st) (rt_ann st) = Ret a" "snd a \<noteq> None" using assms(2) by blast
  let ?st = "tick (st\<lparr>rt_ann := a\<rparr>)"
  have "rfsrv_GetState env p ?st = rfsrv_GetState env p st" for p by (rule rfsrv_GetState_cong) (simp_all add: tick_def)
  then have "answering env A n ?st" using assms(1) a(2) by (simp add: answering_def tick_def cong: option.case_cong)
  then show ?thesis using a(1) by (simp add: rt_annotate_def)
qed

lemma fail_check_Fatal: "answering env A n st \<Longrightarrow> fail_check env d e m st = Fatal m"
proof -
  assume "answering env A n st"
  then have "snd (rt_ann st) \<noteq> None" by (simp add: answering_def)
  from checker_end_Ret[OF this] obtain a where "AnnotateCheckerFailure (now env st) d e (rt_ann st) = Ret a"
    unfolding AnnotateCheckerFailure_def by blast
  then show ?thesis by (simp add: fail_check_def rt_annotate_def)
qed

lemma poll_answer:
  assumes "steady env A n" "answering env A n st" "i < n"
  shows "\<exists>st'. poll env i st = Ret (A i, st') \<and> answering env A n st'"
proof -
  have a: "answering env A n (pause env st)" by (rule answering_pause[OF assms(1,2)])
  then have "case A i of None \<Rightarrow> \<not> rt_connected (pause env st) ! i
      | Some r \<Rightarrow> rt_connected (pause env st) ! i \<and> rfsrv_GetState env (rt_srvs (pause env st) ! i) (pause env st) = Ret r"
    using assms(3) by (simp add: answering_def)
  moreover have "length (rt_connected (pause env st)) = n" "length (rt_srvs (pause env st)) = n" using a by (simp_all add: answering_def)
  ultimately have "poll env i st = Ret (A i, pause env st)"
    using assms(3) by (cases "A i") (simp_all add: poll_def is_connected_def Let_def)
  then show ?thesis using a by blast
qed

subsection \<open>Collecting and scanning\<close>

text \<open>The map holds, for each claimed term, the servers that claim it.\<close>

definition leader_map :: "(nat \<Rightarrow> (int \<times> bool) option) \<Rightarrow> nat list \<Rightarrow> (int, nat list) gomap \<Rightarrow> bool" where
  "leader_map A xs m \<longleftrightarrow> distinct (gm_keys m) \<and> (\<forall>T. gm_get [] m T = filter (claims A T) xs) \<and> (\<forall>T. gm_has m T \<longleftrightarrow> filter (claims A T) xs \<noteq> [])"

lemma leader_map_add:
  assumes "leader_map A xs m" "claims A T i"
  shows "leader_map A (xs @ [i]) (AList.update T (gm_get [] m T @ [i]) m)"
proof -
  have "claims A T' i \<longleftrightarrow> T' = T" for T' using assms(2) by (auto simp: claims_def)
  then show ?thesis using assms(1) by (auto simp: leader_map_def distinct_update)
qed

lemma leader_map_skip: "leader_map A xs m \<Longrightarrow> (\<And>T. \<not> claims A T i) \<Longrightarrow> leader_map A (xs @ [i]) m"
  by (simp add: leader_map_def)

lemma collect_leaders_map:
  assumes "steady env A n" "answering env A n st"
  shows "\<exists>m st'. collect_leaders env st = Ret (m, st') \<and> leader_map A [0..<n] m \<and> answering env A n st'"
proof -
  have n: "rt_n st = n" using assms(2) by (simp add: answering_def)
  let ?P = "\<lambda>xs (m, st). leader_map A xs m \<and> answering env A n st"
  have "\<exists>ms. collect_leaders env st = Ret ms \<and> ?P [0..<n] ms"
    unfolding collect_leaders_def n
  proof (rule fold_go_rule)
    show "?P [] ([], st)" using assms(2) by (simp add: leader_map_def)
    fix xs i and ms assume p: "?P xs ms" "i \<in> set [0..<n]"
    obtain m s where ms: "ms = (m, s)" by fastforce
    with p obtain s' where s': "poll env i s = Ret (A i, s')" "answering env A n s'" using poll_answer[OF assms(1)] by fastforce
    consider T where "A i = Some (T, True)" | "\<And>T. A i \<noteq> Some (T, True)" by blast
    then show "\<exists>ms'. (case ms of (leaders, st) \<Rightarrow> go_bind (poll env i st) (\<lambda>(r, st'). case r of
          Some (term, True) \<Rightarrow> Ret (AList.update term (gm_get [] leaders term @ [i]) leaders, st') | _ \<Rightarrow> Ret (leaders, st'))) = Ret ms' \<and> ?P (xs @ [i]) ms'"
    proof cases
      case 1
      then show ?thesis using ms s' p(1) leader_map_add[of A xs m T i] by (simp add: claims_def)
    next
      case 2
      then have "leader_map A (xs @ [i]) m" using ms p(1) leader_map_skip by (fastforce simp: claims_def)
      then show ?thesis using ms s' 2 by (cases "A i") (auto split: bool.splits)
    qed
  qed
  then show ?thesis by auto
qed

lemma scan_fold:
  assumes "answering env A n st"
  shows "fold_go (\<lambda>(term, ls) last.
     if length ls > 1 then fail_check env (d term ls) (e term ls) msg st else Ret (if term > last then term else last)) os t =
    (if \<exists>(T, ls)\<in>set os. length ls > 1 then Fatal msg else Ret (Max (insert t (fst ` set os))))"
proof (induction os arbitrary: t)
  case (Cons x os)
  obtain T ls where x: "x = (T, ls)" by fastforce
  have "Max (insert (if T > t then T else t) (fst ` set os)) = Max (insert t (insert T (fst ` set os)))"
    by (cases "fst ` set os = {}") (auto simp: max_def Max_insert)
  then show ?case using Cons.IH x by (simp add: fail_check_Fatal[OF assms])
qed simp

lemma scan_leaders_eq:
  assumes "answering env A n st" "mset (re_order env m) = mset m"
  shows "scan_leaders env m st = (if \<exists>(T, ls)\<in>set m. length ls > 1 then Fatal ''term %d has %d (>1) leaders'' else Ret (Max (insert (-1) (fst ` set m))))"
proof -
  have "set (re_order env m) = set m" using assms(2) by (rule mset_eq_setD)
  then show ?thesis unfolding scan_leaders_def by (subst scan_fold[OF assms(1)]) simp
qed

lemma leader_map_entry:
  assumes "leader_map A xs m"
  shows "(T, ls) \<in> set m \<longleftrightarrow> ls = filter (claims A T) xs \<and> ls \<noteq> []"
proof
  assume "(T, ls) \<in> set m"
  then have "map_of m T = Some ls" "gm_has m T" using assms by (auto simp: leader_map_def rev_image_eqI)
  then have "gm_get [] m T = ls" by (simp add: gm_get_def)
  then show "ls = filter (claims A T) xs \<and> ls \<noteq> []" using assms \<open>gm_has m T\<close> by (metis leader_map_def)
next
  assume ls: "ls = filter (claims A T) xs \<and> ls \<noteq> []"
  then have "gm_has m T" using assms unfolding leader_map_def by metis
  then obtain v where "map_of m T = Some v" by (auto simp: gm_get_has)
  moreover from this have "v = ls" using assms ls by (simp add: leader_map_def gm_get_def split: option.splits)
  ultimately show "(T, ls) \<in> set m" by (auto dest: map_of_SomeD)
qed

lemma two_claims:
  "length (filter (claims A T) [0..<n]) > 1 \<longleftrightarrow> (\<exists>i j. i < j \<and> j < n \<and> claims A T i \<and> claims A T j)"
proof -
  let ?S = "{i. i < n \<and> claims A T i}"
  have len: "length (filter (claims A T) [0..<n]) = card ?S" by (simp add: length_filter_conv_card cong: conj_cong)
  show ?thesis
  proof
    assume "length (filter (claims A T) [0..<n]) > 1"
    moreover have "sorted_wrt (<) (filter (claims A T) [0..<n])" by (intro sorted_wrt_filter) simp
    ultimately have "filter (claims A T) [0..<n] ! 0 < filter (claims A T) [0..<n] ! 1" using sorted_wrt_nth_less[of "(<)" "filter (claims A T) [0..<n]" 0 1] by simp
    moreover have "filter (claims A T) [0..<n] ! k < n \<and> claims A T (filter (claims A T) [0..<n] ! k)" if "k \<le> 1" for k
      using nth_mem[of k "filter (claims A T) [0..<n]"] that \<open>length (filter (claims A T) [0..<n]) > 1\<close> by auto
    ultimately show "\<exists>i j. i < j \<and> j < n \<and> claims A T i \<and> claims A T j" by blast
  next
    assume "\<exists>i j. i < j \<and> j < n \<and> claims A T i \<and> claims A T j"
    then obtain i j where "i < j" "{i, j} \<subseteq> ?S" by auto
    then have "card {i, j} \<le> card ?S" by (intro card_mono) auto
    then show "length (filter (claims A T) [0..<n]) > 1" using len \<open>i < j\<close> by simp
  qed
qed

text \<open>Without two claims of a term the scan finds the last claimed term, and its entry of the map holds the leader.\<close>

lemma scan_last:
  assumes "leader_map A [0..<n] m" "answering env A n st" "mset (re_order env m) = mset m" "\<forall>T i. claims A T i \<longrightarrow> 0 \<le> T"
    and one: "\<not> (\<exists>T i j. i < j \<and> j < n \<and> claims A T i \<and> claims A T j)" and i: "i < n" "claims A T i"
  shows "\<exists>T l. m \<noteq> [] \<and> scan_leaders env m st = Ret T \<and> go_nth (gm_get [] m T) 0 = Ret l \<and> l < n \<and> claims A T l \<and>
    (\<forall>T' j. j < n \<and> claims A T' j \<longrightarrow> T' \<le> T)"
proof -
  note entry = leader_map_entry[OF assms(1)]
  have "length ls \<le> 1" if "(T, ls) \<in> set m" for T ls using that two_claims[of A T n] one unfolding entry by (metis not_less)
  then have "\<not> (\<exists>(T, ls)\<in>set m. length ls > 1)" by fastforce
  then have s: "scan_leaders env m st = Ret (Max (insert (-1) (fst ` set m)))" using scan_leaders_eq[OF assms(2,3)] by simp
  have key: "T \<in> fst ` set m \<longleftrightarrow> (\<exists>j<n. claims A T j)" for T 
  proof
    assume "T \<in> fst ` set m"
    then obtain ls where "(T, ls) \<in> set m" by auto
    then have "filter (claims A T) [0..<n] \<noteq> []" unfolding entry by blast
    then obtain j where "j \<in> set (filter (claims A T) [0..<n])" by (meson last_in_set)
    then show "\<exists>j<n. claims A T j" by (intro exI[of _ j]) simp
  next
    assume "\<exists>j<n. claims A T j"
    then have "(T, filter (claims A T) [0..<n]) \<in> set m" unfolding entry by (auto simp: filter_empty_conv)
    then show "T \<in> fst ` set m" by force
  qed
  have ne: "fst ` set m \<noteq> {}" using key[of T] i by auto
  let ?T = "Max (fst ` set m)"
  have "?T \<in> fst ` set m" using ne by simp
  then obtain j where j: "j < n" "claims A ?T j" using key by blast
  then have ne2: "filter (claims A ?T) [0..<n] \<noteq> []" by (auto simp: filter_empty_conv)
  have "0 \<le> ?T" using assms(4) j(2) by blast
  then have "Max (insert (-1) (fst ` set m)) = ?T" using ne by (simp add: max_def)
  moreover have "gm_get [] m ?T = filter (claims A ?T) [0..<n]" using assms(1) by (simp add: leader_map_def)
  moreover have "filter (claims A ?T) [0..<n] ! 0 < n" "claims A ?T (filter (claims A ?T) [0..<n] ! 0)"
    using nth_mem[of 0 "filter (claims A ?T) [0..<n]"] ne2 by auto
  moreover have "T' \<le> ?T" if "j < n" "claims A T' j" for T' j using key[of T'] that by (intro Max_ge) auto
  ultimately show ?thesis using s ne ne2 by (intro exI[of _ ?T] exI[of _ "filter (claims A ?T) [0..<n] ! 0"]) auto
qed

subsection \<open>What the checks decide\<close>

text \<open>One look at all servers: two claims of a term end the test, some claims give the leader of the last claimed term.\<close>

lemma one_look:
  assumes "steady env A n" "answering env A n st" "\<forall>m. mset (re_order env m) = mset m" "\<forall>T i. claims A T i \<longrightarrow> 0 \<le> T"
  shows "(\<exists>T i j. i < j \<and> j < n \<and> claims A T i \<and> claims A T j) \<Longrightarrow> one_leader_loop env (Suc k) st = Fatal ''term %d has %d (>1) leaders''"
    and "\<not> (\<exists>T i. i < n \<and> claims A T i) \<Longrightarrow> \<exists>st'. one_leader_loop env (Suc k) st = one_leader_loop env k st' \<and> answering env A n st'"
    and "\<not> (\<exists>T i j. i < j \<and> j < n \<and> claims A T i \<and> claims A T j) \<Longrightarrow> i < n \<Longrightarrow> claims A T i \<Longrightarrow>
      \<exists>l T st'. one_leader_loop env (Suc k) st = Ret (l, st') \<and> l < n \<and> claims A T l \<and> (\<forall>T' j. j < n \<and> claims A T' j \<longrightarrow> T' \<le> T)"
proof -
  obtain m st1 where m: "collect_leaders env (pause env st) = Ret (m, st1)" "leader_map A [0..<n] m" "answering env A n st1"
    using collect_leaders_map[OF assms(1) answering_pause[OF assms(1,2)]] by blast
  note scan = scan_leaders_eq[OF m(3) assms(3)[rule_format]] and entry = leader_map_entry[OF m(2)]
  { assume "\<exists>T i j. i < j \<and> j < n \<and> claims A T i \<and> claims A T j"
    then obtain T where T: "length (filter (claims A T) [0..<n]) > 1" unfolding two_claims by blast
    then have "(T, filter (claims A T) [0..<n]) \<in> set m" unfolding entry by auto
    then have "\<exists>(T, ls)\<in>set m. length ls > 1" using T by blast
    then show "one_leader_loop env (Suc k) st = Fatal ''term %d has %d (>1) leaders''" using m(1) scan by simp }
  { assume none: "\<not> (\<exists>T i. i < n \<and> claims A T i)"
    have "m = []"
    proof (rule ccontr)
      assume "m \<noteq> []"
      then obtain T ls where "(T, ls) \<in> set m" by (cases m) auto
      then show False unfolding entry using none by (auto simp: filter_empty_conv)
    qed
    then show "\<exists>st'. one_leader_loop env (Suc k) st = one_leader_loop env k st' \<and> answering env A n st'" using m scan by auto }
  { assume one: "\<not> (\<exists>T i j. i < j \<and> j < n \<and> claims A T i \<and> claims A T j)" and i: "i < n" "claims A T i"
    from scan_last[OF m(2,3) assms(3)[rule_format] assms(4) one i] obtain T l where
      l: "m \<noteq> []" "scan_leaders env m st1 = Ret T" "go_nth (gm_get [] m T) 0 = Ret l" "l < n" "claims A T l" "\<forall>T' j. j < n \<and> claims A T' j \<longrightarrow> T' \<le> T"
      by blast
    let ?d = "''leader in term '' @ itoa T @ '' = '' @ itoa (int l)"
    have "snd (rt_ann st1) \<noteq> None" using m(3) by (simp add: answering_def)
    from answering_annotate[OF m(3), of "\<lambda>t. AnnotateCheckerSuccess t ?d ?d", unfolded AnnotateCheckerSuccess_def, OF checker_end_Ret[OF this]]
    obtain st2 where "rt_annotate env (\<lambda>t. AnnotateCheckerSuccess t ?d ?d) st1 = Ret st2" unfolding AnnotateCheckerSuccess_def by blast
    then have "one_leader_loop env (Suc k) st = Ret (l, st2)" using m(1) l(1-3) by simp
    then show "\<exists>l T st'. one_leader_loop env (Suc k) st = Ret (l, st') \<and> l < n \<and> claims A T l \<and> (\<forall>T' j. j < n \<and> claims A T' j \<longrightarrow> T' \<le> T)"
      using l(4-6) by blast }
qed

lemma no_leader_loop:
  assumes "steady env A n" "\<forall>m. mset (re_order env m) = mset m" "\<forall>T i. claims A T i \<longrightarrow> 0 \<le> T" "\<not> (\<exists>T i. i < n \<and> claims A T i)"
  shows "answering env A n st \<Longrightarrow> one_leader_loop env k st = Fatal ''expected one leader, got none''"
proof (induction k arbitrary: st)
  case 0
  then show ?case by (simp add: fail_check_Fatal)
next
  case (Suc k)
  from one_look(2)[OF assms(1) Suc.prems assms(2,3,4)] Suc.IH show ?case by metis
qed

lemma begin_check:
  assumes "answering env A n st"
  shows "\<exists>st'. rt_annotate env (\<lambda>t. AnnotateCheckerBegin t d) st = Ret st' \<and> answering env A n st'"
proof (rule answering_annotate[OF assms])
  show "\<exists>a. AnnotateCheckerBegin t d (rt_ann st) = Ret a \<and> snd a \<noteq> None" for t
    using assms by (auto simp: answering_def AnnotateCheckerBegin_def with_finfo_def)
qed

text \<open>The check that no server leads passes exactly if no connected server claims to.\<close>

lemma no_leader_fold:
  assumes "steady env A n" "answering env A n st" "set xs \<subseteq> {..<n}"
    and f: "\<And>i st. f i st = go_bind (poll env i st) (\<lambda>(r, st'). case r of Some (_, True) \<Rightarrow> fail_check env d (e i) (m i) st' | _ \<Rightarrow> Ret st')"
  shows "if \<exists>i\<in>set xs. \<exists>T. claims A T i then \<exists>msg. fold_go f xs st = Fatal msg else \<exists>st'. fold_go f xs st = Ret st' \<and> answering env A n st'"
  using assms(2,3)
proof (induction xs arbitrary: st)
  case (Cons i xs)
  obtain st1 where p: "poll env i st = Ret (A i, st1)" "answering env A n st1" using poll_answer[OF assms(1) Cons.prems(1)] Cons.prems(2) by auto
  consider T where "A i = Some (T, True)" | "\<And>T. A i \<noteq> Some (T, True)" by blast
  then show ?case
  proof cases
    case 1
    then have "f i st = Fatal (m i)" using p by (simp add: f fail_check_Fatal)
    then show ?thesis using 1 by (auto simp: claims_def)
  next
    case 2
    then have "f i st = Ret st1" using p(1) by (cases "A i") (auto simp: f split: bool.splits)
    then show ?thesis using Cons.IH[OF p(2)] Cons.prems(2) 2 by (simp add: claims_def)
  qed
qed simp

lemma checkNoLeader_decides:
  assumes "steady env A n" "answering env A n st"
  shows "(\<exists>st'. checkNoLeader env st = Ret st') \<longleftrightarrow> \<not> (\<exists>T i. i < n \<and> claims A T i)"
proof -
  obtain st1 where b: "rt_annotate env (\<lambda>t. AnnotateCheckerBegin t ''checking no unexpected leader among connected servers'') st = Ret st1"
    "answering env A n st1" using begin_check[OF assms(2)] by blast
  have n: "rt_n st = n" using assms(2) by (simp add: answering_def)
  let ?f = "\<lambda>i st. go_bind (poll env i st) (\<lambda>(r, st'). case r of
      Some (_, True) \<Rightarrow> fail_check env ''unexpected leader found'' (''leader = '' @ itoa (int i)) (''leader = '' @ itoa (int i)) st' | _ \<Rightarrow> Ret st')"
  have f: "if \<exists>i\<in>set [0..<n]. \<exists>T. claims A T i then \<exists>msg. fold_go ?f [0..<n] st1 = Fatal msg
      else \<exists>st'. fold_go ?f [0..<n] st1 = Ret st' \<and> answering env A n st'"
    by (rule no_leader_fold[OF assms(1) b(2)]) auto
  have eq: "checkNoLeader env st = go_bind (fold_go ?f [0..<n] st1) (rt_annotate env (\<lambda>t. AnnotateCheckerSuccess t ''no unexpected leader'' ''no unexpected leader''))"
    unfolding checkNoLeader_def b(1) n Let_def go_bind.simps by (rule refl)
  show ?thesis
  proof (cases "\<exists>i\<in>set [0..<n]. \<exists>T. claims A T i")
    case True
    then obtain msg where "checkNoLeader env st = Fatal msg" using f eq by auto
    moreover from True obtain i T where "i < n" "claims A T i" by auto
    ultimately show ?thesis by (metis go.distinct(1))
  next
    case False
    then obtain st2 where s: "fold_go ?f [0..<n] st1 = Ret st2" "answering env A n st2" using f by auto
    then have "snd (rt_ann st2) \<noteq> None" by (simp add: answering_def)
    from answering_annotate[OF s(2), of "\<lambda>t. AnnotateCheckerSuccess t ''no unexpected leader'' ''no unexpected leader''", unfolded AnnotateCheckerSuccess_def, OF checker_end_Ret[OF this]]
    have "\<exists>st'. checkNoLeader env st = Ret st'" unfolding eq s(1) go_bind.simps AnnotateCheckerSuccess_def by blast
    then show ?thesis using False by auto
  qed
qed

subsection \<open>Property\<close>

text \<open>
  Property C17: \<^verbatim>\<open>checkOneLeader\<close> decides whether there is one leader. While no peer changes its answer, and whatever the order in which the map of
  leaders is visited: if two connected servers claim the same term, the test fails for that reason; if no connected server claims to lead, it fails after its ten
  rounds; otherwise it returns a connected server that leads the last claimed term, the only one to do so.
\<close>

theorem checkOneLeader_decides:
  assumes "steady env A n" "answering env A n st" "\<forall>m. mset (re_order env m) = mset m" "\<forall>T i. claims A T i \<longrightarrow> 0 \<le> T"
  shows "if \<exists>T i j. i < j \<and> j < n \<and> claims A T i \<and> claims A T j then checkOneLeader env st = Fatal ''term %d has %d (>1) leaders''
    else if \<exists>T i. i < n \<and> claims A T i then \<exists>l T st'. checkOneLeader env st = Ret (l, st') \<and> l < n \<and> claims A T l \<and>
      (\<forall>T' j. j < n \<and> claims A T' j \<longrightarrow> T' \<le> T \<and> (T' = T \<longrightarrow> j = l))
    else checkOneLeader env st = Fatal ''expected one leader, got none''"
proof -
  obtain st1 where b: "rt_annotate env (\<lambda>t. AnnotateCheckerBegin t ''checking for a single leader'') st = Ret st1" "answering env A n st1"
    using begin_check[OF assms(2)] by blast
  then have eq: "checkOneLeader env st = one_leader_loop env (Suc 9) st1" by (simp add: checkOneLeader_def eval_nat_numeral del: one_leader_loop.simps)
  note look = one_look[OF assms(1) b(2) assms(3,4), where k = 9]
  consider "\<exists>T i j. i < j \<and> j < n \<and> claims A T i \<and> claims A T j"
    | "\<not> (\<exists>T i j. i < j \<and> j < n \<and> claims A T i \<and> claims A T j)" "\<not> (\<exists>T i. i < n \<and> claims A T i)"
    | T i where "\<not> (\<exists>T i j. i < j \<and> j < n \<and> claims A T i \<and> claims A T j)" "i < n" "claims A T i" by blast
  then show ?thesis
  proof cases
    case 1
    then show ?thesis using look(1)[OF 1] eq by (simp only: if_True)
  next
    case 2
    then show ?thesis using no_leader_loop[OF assms(1,3,4) 2(2) b(2)] eq by (simp only: if_False)
  next
    case (3 T i)
    from look(3)[OF 3] obtain l T' st' where l: "one_leader_loop env (Suc 9) st1 = Ret (l, st')" "l < n" "claims A T' l"
      "\<forall>T'' j. j < n \<and> claims A T'' j \<longrightarrow> T'' \<le> T'" by blast
    have "j = l" if "j < n" "claims A T' j" for j using 3(1) that l(2,3) nat_neq_iff[of j l] by blast
    then have "\<exists>l T st'. checkOneLeader env st = Ret (l, st') \<and> l < n \<and> claims A T l \<and>
      (\<forall>T' j. j < n \<and> claims A T' j \<longrightarrow> T' \<le> T \<and> (T' = T \<longrightarrow> j = l))" using l unfolding eq by blast
    moreover have "\<exists>T i. i < n \<and> claims A T i" using 3 by blast
    ultimately show ?thesis unfolding if_not_P[OF 3(1)] by (simp only: if_True)
  qed
qed

definition ex_leader_env :: "(byte, Raft list) renv" where
  "ex_leader_env = ex_renv\<lparr>re_GetState := \<lambda>r rfs. (2, r = 1)\<rparr>"

definition ex_leader_test :: "(byte, Raft list) rtest" where
  "ex_leader_test = (ex_rtest False)\<lparr>rt_srvs := [Some 0, Some 1], rt_connected := [True, True],
     rt_heap := [0 \<mapsto> new_obj 0 None (Some 0), 1 \<mapsto> new_obj 1 None (Some 1)]\<rparr>"

theorem checkOneLeader_decides_witness:
  "\<exists>st'. checkOneLeader ex_leader_env ex_leader_test = Ret (1, st')"
proof -
  define A where "A = (\<lambda>i::nat. Some (2 :: int, i = 1))"
  have a: "answering ex_leader_env A 2 ex_leader_test"
    by (auto simp: answering_def ex_leader_test_def ex_rtest_def new_rtest_def less_Suc_eq numeral_2_eq_2 rfsrv_GetState_def rfsrv_Raft_def new_obj_def
        ex_leader_env_def A_def)
  have s: "steady ex_leader_env A 2" by (simp add: steady_def ex_leader_env_def ex_renv_def)
  have o: "\<forall>m. mset (re_order ex_leader_env m) = mset m" by (simp add: ex_leader_env_def ex_renv_def)
  have c: "claims A T i \<longleftrightarrow> T = 2 \<and> i = 1" for T i by (auto simp: claims_def A_def)
  have "\<not> (\<exists>T i j. i < j \<and> j < 2 \<and> claims A T i \<and> claims A T j)" "\<exists>T i. i < 2 \<and> claims A T i" by (auto simp: c)
  with checkOneLeader_decides[OF s a o] obtain l T st' where "checkOneLeader ex_leader_env ex_leader_test = Ret (l, st')" "claims A T l"
    by (auto simp: c)
  then show ?thesis by (simp add: c)
qed

end
