(* ===== verification/Raft_World.thy ===== *)
theory Raft_World
  imports Raft_Harness
begin

text \<open>
  A test of Raft as a whole (\<^verbatim>\<open>makeTest\<close>, \<^verbatim>\<open>restart\<close> and \<^verbatim>\<open>cleanup\<close> of \<^verbatim>\<open>raft1/test.go\<close>): the configuration of the tester with its group, and the
  harness whose \<^verbatim>\<open>mksrv\<close> the group calls to start a server. The persisters are those of the tester; the harness reads and writes them through the
  pointers that its servers were given. The lemmas follow a server through a crash: what the restarted server holds is the snapshot that was
  persisted when the server was shut down.
\<close>

subsection \<open>The test\<close>

record ('c, 'r, 's, 'v) raft_world =
  rw_cfg :: "('s, 'v) config"
  rw_test :: "('c, 'r) rtest"

text \<open>
  What the test runs in: the harness's own environment, the random names of ends, the services that the network sees of a server and its peer, and the state of
  these services.
\<close>

record ('c, 'r, 's, 'v) raft_wenv =
  we_env :: "('c, 'r) renv"
  we_rand :: "nat \<Rightarrow> string"
  we_svcs :: "nat \<Rightarrow> nat option \<Rightarrow> ('s, 'v) iservice list"
  we_state :: 's

text \<open>The persisters of the tester, read and written by code of the harness.\<close>

definition set_pers :: "(nat \<rightharpoonup> persister) \<Rightarrow> ('c, 'r, 's, 'v) raft_world \<Rightarrow> ('c, 'r, 's, 'v) raft_world" where
  "set_pers pers w = w\<lparr>rw_cfg := (rw_cfg w)\<lparr>cf_state := (cf_state (rw_cfg w))\<lparr>t_pers := pers\<rparr>\<rparr>\<rparr>"

text \<open>The harness as its code sees it: with the persisters of the tester and the connections of its group.\<close>

definition as_test :: "('c, 'r, 's, 'v) raft_world \<Rightarrow> ('c, 'r) rtest" where
  "as_test w = (rw_test w)\<lparr>rt_pers := t_pers (cf_state (rw_cfg w)),
     rt_connected := (case cfg_Group GRP0 (rw_cfg w) of None \<Rightarrow> [] | Some sg \<Rightarrow> sg_connected sg)\<rparr>"

definition in_test :: "(('c, 'r) rtest \<Rightarrow> ('c, 'r) rtest go) \<Rightarrow> ('c, 'r, 's, 'v) raft_world \<Rightarrow> ('c, 'r, 's, 'v) raft_world go" where
  "in_test f w = go_bind (f (as_test w)) (\<lambda>rt. Ret (set_pers (rt_pers rt) (w\<lparr>rw_test := rt\<rparr>)))"

text \<open>\<^verbatim>\<open>StartServer\<close> of the group, which calls \<^verbatim>\<open>mksrv\<close> of the harness to make the services.\<close>

definition raft_StartServer :: "('c, 'r, 's, 'v) raft_wenv \<Rightarrow> nat \<Rightarrow> ('c, 'r, 's, 'v) raft_world \<Rightarrow> ('c, 'r, 's, 'v) raft_world go" where
  "raft_StartServer we i w = (case cfg_Group GRP0 (rw_cfg w) of
     None \<Rightarrow> Panic ''nil pointer dereference''
   | Some sg \<Rightarrow>
     go_bind (go_nth (sg_srvs sg) i) (\<lambda>s.
     go_bind (startServer (we_rand we) (sg_gid sg) s (cf_state (rw_cfg w))) (\<lambda>(srv, st).
     go_bind (mksrv (we_env we) (sr_clntEnds srv) i (the (sr_saved srv)) ((as_test w)\<lparr>rt_pers := t_pers st\<rparr>)) (\<lambda>((a, r), rt).
       let svcs = we_svcs we a r; x = t_fresh st
       in Ret \<lparr>rw_cfg = (rw_cfg w)\<lparr>cf_groups := AList.update GRP0 (sg\<lparr>sg_srvs := (sg_srvs sg)[i := srv\<lparr>sr_svcs := Some svcs\<rparr>]\<rparr>) (cf_groups (rw_cfg w)),
              cf_state := st\<lparr>t_pers := rt_pers rt, t_heap := (t_heap st)(x \<mapsto> add_services svcs (MakeServer (we_state we))), t_fresh := Suc x,
                t_net := AddServer (ServerName (sg_gid sg) (int i)) x (t_net st)\<rparr>\<rparr>, rw_test = rt\<rparr>))))"

definition raft_restart :: "('c, 'r, 's, 'v) raft_wenv \<Rightarrow> nat \<Rightarrow> ('c, 'r, 's, 'v) raft_world \<Rightarrow> ('c, 'r, 's, 'v) raft_world go" where
  "raft_restart we i w = go_bind (raft_StartServer we i w) (\<lambda>w1.
     go_bind (on_group GRP0 ConnectAll (rw_cfg w1)) (\<lambda>cfg. Ret (w1\<lparr>rw_cfg := cfg\<rparr>)))"

text \<open>
  Shutting a server down kills its services after its persister was copied: the harness server, and its peer, of which the tester only
  notes that it was killed.
\<close>

definition running :: "nat \<Rightarrow> ('c, 'r, 's, 'v) raft_world \<Rightarrow> bool" where
  "running i w \<longleftrightarrow> (case cfg_Group GRP0 (rw_cfg w) of None \<Rightarrow> False | Some sg \<Rightarrow> i < length (sg_srvs sg) \<and> sr_svcs (sg_srvs sg ! i) \<noteq> None)"

definition kill_instance :: "nat \<Rightarrow> ('c, 'r, 's, 'v) raft_world \<Rightarrow> ('c, 'r, 's, 'v) raft_world go" where
  "kill_instance i w = go_bind (go_nth (rt_srvs (rw_test w)) i) (\<lambda>p. case p of
     None \<Rightarrow> Panic ''nil pointer dereference'' | Some a \<Rightarrow> in_test (rfsrv_Kill a) w)"

definition raft_ShutdownServer :: "nat \<Rightarrow> ('c, 'r, 's, 'v) raft_world \<Rightarrow> ('c, 'r, 's, 'v) raft_world go" where
  "raft_ShutdownServer i w = go_bind (on_group GRP0 (ShutdownServer i) (rw_cfg w)) (\<lambda>cfg.
     if running i w then kill_instance i (w\<lparr>rw_cfg := cfg\<rparr>) else Ret (w\<lparr>rw_cfg := cfg\<rparr>))"

text \<open>
  \<^verbatim>\<open>makeTest\<close> with the \<^verbatim>\<open>MakeConfig\<close> that it calls. The start function of the group is \<^verbatim>\<open>mksrv\<close>: the one given to \<open>MakeGroup\<close> here is
  not used.
\<close>

definition raft_makeTest :: "('c, 'r, 's, 'v) raft_wenv \<Rightarrow> int \<Rightarrow> nat \<Rightarrow> bool \<Rightarrow> bool \<Rightarrow> 'r \<Rightarrow> ann \<Rightarrow> ('c, 'r, 's, 'v) raft_world go" where
  "raft_makeTest we start n reliable snapshot rf an =
     go_bind (MakeGroup (we_rand we) GRP0 n (\<lambda>_ _ _ _ ps. ([], we_state we, ps)) (newGroups, new_tstate MakeNetwork)) (\<lambda>(grps, st).
     let cfg = \<lparr>cf_clnts = makeClnts, cf_groups = grps, cf_state = st, cf_failed = False, cf_start = 0, cf_t0 = 0, cf_rpcs0 = 0, cf_ops = 0\<rparr>
     in go_bind (fold_go (raft_StartServer we) [0..<n] \<lparr>rw_cfg = cfg, rw_test = new_rtest n snapshot Map.empty rf an\<rparr>) (\<lambda>w.
        go_bind (on_group GRP0 ConnectAll (rw_cfg w)) (\<lambda>cfg1.
          Ret (w\<lparr>rw_cfg := SetLongDelays True (SetReliable reliable (cfg1\<lparr>cf_clnts := makeClnts, cf_start := start\<rparr>))\<rparr>))))"

text \<open>
  \<^verbatim>\<open>cleanup\<close>. The servers that run are killed when the groups are cleaned up; here this is done before the clients are cleaned up, which
  touches no persister and no instance.
\<close>

definition raft_cleanup :: "('c, 'r, 's, 'v) raft_wenv \<Rightarrow> ('c, 'r, 's, 'v) raft_world \<Rightarrow>
    ((int \<times> nat \<times> int \<times> int) option \<times> pannot list option \<times> ('c, 'r, 's, 'v) raft_world) go" where
  "raft_cleanup we w0 =
     (let env = we_env we; w = w0\<lparr>rw_test := (rw_test w0)\<lparr>rt_finished := 1\<rparr>\<rparr>; t = (\<lambda>k. re_clk env (rt_reads (rw_test w) + k))
      in go_bind (End (t 0) (rw_cfg w)) (\<lambda>stats.
         go_bind (fold_go (\<lambda>i w. if running i w then kill_instance i w else Ret w) [0..<length (rt_srvs (rw_test w))] w) (\<lambda>w1.
         go_bind (cfg_Cleanup (re_vis env) (re_opened env) (t 1) (t 2) (t 3) (rw_cfg w1, fst (rt_ann (rw_test w1)))) (\<lambda>(out, cfg, an).
         go_bind (CheckTimeout (t 4) cfg) (\<lambda>_.
           Ret (stats, out, \<lparr>rw_cfg = cfg, rw_test = (rw_test w1)\<lparr>rt_ann := (an, snd (rt_ann (rw_test w1))), rt_reads := rt_reads (rw_test w1) + 5\<rparr>\<rparr>))))))"

subsection \<open>The invariant\<close>

text \<open>The group keeps its invariant, and every server has an instance in the harness that holds the persister of the server while it runs.\<close>

definition instance_ok :: "nat \<Rightarrow> ('s, 'v) tsrv \<Rightarrow> ('s, 'v) tstate \<Rightarrow> ('c, 'r) rtest \<Rightarrow> bool" where
  "instance_ok i srv st rt \<longleftrightarrow> (\<exists>a rs p. rt_srvs rt ! i = Some a \<and> a < rt_next rt \<and> rt_heap rt a = Some rs \<and> rs_me rs = i \<and> rs_persister rs = Some p \<and>
     p < t_fresh st \<and> t_pers st p \<noteq> None \<and> (sr_svcs srv \<noteq> None \<longrightarrow> sr_saved srv = Some p))"

definition world_on :: "('c, 'r, 's, 'v) raft_wenv \<Rightarrow> nat \<Rightarrow> nat set \<Rightarrow> ('c, 'r, 's, 'v) raft_world \<Rightarrow> ('s, 'v) server_grp \<Rightarrow> bool" where
  "world_on we n I w sg \<longleftrightarrow> cfg_Group GRP0 (rw_cfg w) = Some sg \<and> grp_ok (we_rand we) n (sg, cf_state (rw_cfg w)) \<and>
     length (rt_srvs (rw_test w)) = n \<and> (\<forall>i\<in>I. i < n \<and> instance_ok i (sg_srvs sg ! i) (cf_state (rw_cfg w)) (rw_test w))"

definition world_ok :: "('c, 'r, 's, 'v) raft_wenv \<Rightarrow> nat \<Rightarrow> ('c, 'r, 's, 'v) raft_world \<Rightarrow> bool" where
  "world_ok we n w \<longleftrightarrow> (\<exists>sg. world_on we n {..<n} w sg)"

text \<open>Other code may write to persisters that exist.\<close>

lemma grp_ok_pers:
  "grp_ok rand n (sg, st) \<Longrightarrow> (\<And>a. t_pers st a \<noteq> None \<Longrightarrow> pers a \<noteq> None) \<Longrightarrow> grp_ok rand n (sg, st\<lparr>t_pers := pers\<rparr>)"
  by (fastforce simp: grp_ok_def wf_group_def fresh_names_def)

subsection \<open>Starting a server\<close>

text \<open>Starting server \<open>i\<close> runs \<^verbatim>\<open>mksrv\<close> on a new persister with what was saved, and leaves the other servers alone.\<close>

lemma raft_StartServer_eq:
  fixes we :: "('c, 'r, 's, 'v) raft_wenv"
  assumes g: "cfg_Group GRP0 (rw_cfg w) = Some sg" and ok: "grp_ok (we_rand we) n (sg, cf_state (rw_cfg w))" and i: "i < n"
    and mk: "mksrv (we_env we) (map (we_rand we) [t_draws (cf_state (rw_cfg w))..<t_draws (cf_state (rw_cfg w)) + n]) i (t_fresh (cf_state (rw_cfg w)))
        ((as_test w)\<lparr>rt_pers := (t_pers (cf_state (rw_cfg w)))(t_fresh (cf_state (rw_cfg w)) \<mapsto> saved_state (sg, cf_state (rw_cfg w)) i)\<rparr>) = Ret ((a, r), rt)"
    and keep: "\<And>b. t_pers (cf_state (rw_cfg w)) b \<noteq> None \<or> b = t_fresh (cf_state (rw_cfg w)) \<Longrightarrow> rt_pers rt b \<noteq> None"
  shows "\<exists>w' sg'. raft_StartServer we i w = Ret w' \<and> rw_test w' = rt \<and> cfg_Group GRP0 (rw_cfg w') = Some sg' \<and>
    grp_ok (we_rand we) n (sg', cf_state (rw_cfg w')) \<and> sr_saved (sg_srvs sg' ! i) = Some (t_fresh (cf_state (rw_cfg w))) \<and>
    sr_svcs (sg_srvs sg' ! i) \<noteq> None \<and> (\<forall>j. j \<noteq> i \<longrightarrow> sg_srvs sg' ! j = sg_srvs sg ! j) \<and>
    t_pers (cf_state (rw_cfg w')) = rt_pers rt \<and> t_fresh (cf_state (rw_cfg w)) < t_fresh (cf_state (rw_cfg w'))"
proof -
  define st where "st = cf_state (rw_cfg w)"
  let ?names = "map (we_rand we) [t_draws st..<t_draws st + n]"
  let ?srv = "\<lparr>sr_saved = Some (t_fresh st), sr_svcs = Some (we_svcs we a r), sr_endNames = Some ?names, sr_clntEnds = ?names\<rparr>"
  obtain st1 where st1: "new_ends (we_rand we) (sg_gid sg) 0 n st st1" "t_fresh st1 = t_fresh st" "startServer (we_rand we) (sg_gid sg) (sg_srvs sg ! i) st =
      Ret (?srv\<lparr>sr_svcs := None\<rparr>, st1\<lparr>t_pers := (t_pers st)(t_fresh st \<mapsto> saved_state (sg, st) i), t_fresh := Suc (t_fresh st)\<rparr>)"
    using startServer_eq[OF ok i] unfolding st_def by auto
  let ?st2 = "st1\<lparr>t_pers := rt_pers rt, t_heap := (t_heap st1)(Suc (t_fresh st) \<mapsto> add_services (we_svcs we a r) (MakeServer (we_state we))),
      t_fresh := Suc (Suc (t_fresh st)), t_net := AddServer (ServerName (sg_gid sg) (int i)) (Suc (t_fresh st)) (t_net st1)\<rparr>"
  let ?sg = "sg\<lparr>sg_srvs := (sg_srvs sg)[i := ?srv]\<rparr>"
  let ?w = "\<lparr>rw_cfg = (rw_cfg w)\<lparr>cf_groups := AList.update GRP0 ?sg (cf_groups (rw_cfg w)), cf_state := ?st2\<rparr>, rw_test = rt\<rparr>"
  have len: "length (sg_srvs sg) = n" using grp_ok_wf[OF ok] wf_groupD(1) by blast
  have "raft_StartServer we i w = Ret ?w"
    using g st1(3) mk i len by (simp add: raft_StartServer_def go_nth_def Let_def st_def)
  moreover have "grp_ok (we_rand we) n (?sg, ?st2)"
    by (rule grp_ok_replace[where p = "t_fresh st", OF ok[folded st_def] i _ _ _ _ st1(1)]) (use keep in \<open>simp_all add: AddServer_def st_def\<close>)
  moreover have "cfg_Group GRP0 (rw_cfg ?w) = Some ?sg" by (simp add: cfg_Group_def lookupGroup_def update_conv)
  ultimately show ?thesis
    using i len by (intro exI[of _ ?w] exI[of _ ?sg]) (simp add: st_def)
qed

text \<open>What a new server holds, depending on what its persister holds.\<close>

definition starts_with :: "('c, 'r) renv \<Rightarrow> bool \<Rightarrow> persister \<Rightarrow> (int \<rightharpoonup> 'c anyv) \<Rightarrow> int \<Rightarrow> bool" where
  "starts_with env snapshot ps logs k \<longleftrightarrow>
     (if snapshot \<and> bytes_of (ps_snapshot ps) \<noteq> [] then \<exists>xlog. re_dec env (bytes_of (ps_snapshot ps)) = Some (k, xlog) \<and> logs = logs_of_list xlog
      else logs = Map.empty \<and> k = 0)"

text \<open>Peers that are made without writing to persisters.\<close>

definition quiet_Make :: "('c, 'r) renv \<Rightarrow> bool" where
  "quiet_Make env \<longleftrightarrow> \<not> re_useSM env \<and> (\<forall>ends srv p w. snd (snd (re_Make env ends srv p w)) = snd w)"

lemma mksrv_eq:
  assumes q: "quiet_Make env" and p: "rt_pers st p = Some ps" "srv < length (rt_srvs st)" and s: "starts_with env (rt_snapshot st) ps logs k"
  shows "\<exists>r st' rs. mksrv env ends srv p st = Ret ((rt_next st, r), st') \<and> rt_pers st' = rt_pers st \<and> rt_srvs st' = (rt_srvs st)[srv := Some (rt_next st)] \<and>
    rt_next st' = Suc (rt_next st) \<and> rt_heap st' = (rt_heap st)(rt_next st \<mapsto> rs) \<and> rt_snapshot st' = rt_snapshot st \<and>
    rs_me rs = srv \<and> rs_persister rs = Some p \<and> rs_logs rs = logs \<and> rs_lastApplied rs = k"
proof -
  obtain r rf where m: "re_Make env ends srv p (rt_raft st, rt_pers st) = (r, rf, rt_pers st)" "\<not> re_useSM env"
    using q unfolding quiet_Make_def by (metis prod.collapse snd_conv)
  let ?st = "\<lambda>rd. st\<lparr>rt_next := Suc (rt_next st), rt_raft := rf, rt_pers := rt_pers st,
      rt_heap := (rt_heap st)(rt_next st \<mapsto> (new_obj srv (Some p) (Some r))\<lparr>rs_logs := logs, rs_lastApplied := k, rs_reader := rd\<rparr>)\<rparr>"
  have "\<exists>rd. newRfsrv env srv ends p (rt_snapshot st) st = Ret (rt_next st, ?st rd)"
  proof (cases "rt_snapshot st")
    case True
    have "bytes_of (ps_snapshot ps) = [] \<and> logs = Map.empty \<and> k = 0 \<or>
        (\<exists>xlog. bytes_of (ps_snapshot ps) \<noteq> [] \<and> re_dec env (bytes_of (ps_snapshot ps)) = Some (k, xlog) \<and> logs = logs_of_list xlog)"
      using s True by (auto simp: starts_with_def split: if_splits)
    then show ?thesis using newRfsrv_snap[OF m(2,1) p(1)] True by metis
  next
    case False
    then have "logs = Map.empty" "k = 0" using s by (simp_all add: starts_with_def)
    then show ?thesis using m False by (intro exI[of _ Applier]) (simp add: newRfsrv_def Let_def upd_obj_def new_obj_def)
  qed
  then obtain rd where "newRfsrv env srv ends p (rt_snapshot st) st = Ret (rt_next st, ?st rd)" by blast
  then have "mksrv env ends srv p st = Ret ((rt_next st, Some r), (?st rd)\<lparr>rt_srvs := (rt_srvs st)[srv := Some (rt_next st)]\<rparr>)"
    using p(2) by (simp add: mksrv_def go_nth_def obj_def new_obj_def)
  then show ?thesis
    by (intro exI[of _ "Some r"] exI[of _ "(?st rd)\<lparr>rt_srvs := (rt_srvs st)[srv := Some (rt_next st)]\<rparr>"]
        exI[of _ "(new_obj srv (Some p) (Some r))\<lparr>rs_logs := logs, rs_lastApplied := k, rs_reader := rd\<rparr>"]) (simp add: new_obj_def)
qed

lemma as_test_simps [simp]:
  "rt_srvs (as_test w) = rt_srvs (rw_test w)" "rt_next (as_test w) = rt_next (rw_test w)" "rt_heap (as_test w) = rt_heap (rw_test w)"
  "rt_snapshot (as_test w) = rt_snapshot (rw_test w)" "rt_pers (as_test w) = t_pers (cf_state (rw_cfg w))"
  by (simp_all add: as_test_def)

text \<open>The state after starting server \<open>i\<close>.\<close>

definition started :: "nat \<Rightarrow> (int \<rightharpoonup> 'c anyv) \<Rightarrow> int \<Rightarrow> ('c, 'r, 's, 'v) raft_world \<Rightarrow> ('c, 'r, 's, 'v) raft_world \<Rightarrow> bool" where
  "started i logs k w w' \<longleftrightarrow> (\<exists>rs. rt_srvs (rw_test w') = (rt_srvs (rw_test w))[i := Some (rt_next (rw_test w))] \<and>
     rt_heap (rw_test w') = (rt_heap (rw_test w))(rt_next (rw_test w) \<mapsto> rs) \<and> rs_logs rs = logs \<and> rs_lastApplied rs = k \<and>
     rt_snapshot (rw_test w') = rt_snapshot (rw_test w))"

lemma raft_StartServer_world:
  assumes w: "world_on we n I w sg" and i: "i < n" and q: "quiet_Make (we_env we)"
    and s: "starts_with (we_env we) (rt_snapshot (rw_test w)) (saved_state (sg, cf_state (rw_cfg w)) i) logs k"
  shows "\<exists>w' sg'. raft_StartServer we i w = Ret w' \<and> world_on we n (insert i I) w' sg' \<and> started i logs k w w' \<and> sr_svcs (sg_srvs sg' ! i) \<noteq> None \<and>
    sr_saved (sg_srvs sg' ! i) = Some (t_fresh (cf_state (rw_cfg w))) \<and> (\<forall>j. j \<noteq> i \<longrightarrow> sg_srvs sg' ! j = sg_srvs sg ! j) \<and>
    t_pers (cf_state (rw_cfg w')) = (t_pers (cf_state (rw_cfg w)))(t_fresh (cf_state (rw_cfg w)) \<mapsto> saved_state (sg, cf_state (rw_cfg w)) i)"
proof -
  define st where "st = cf_state (rw_cfg w)"
  define ps where "ps = saved_state (sg, st) i"
  have g: "cfg_Group GRP0 (rw_cfg w) = Some sg" "grp_ok (we_rand we) n (sg, st)" "length (rt_srvs (rw_test w)) = n"
    "\<And>j. j \<in> I \<Longrightarrow> j < n \<and> instance_ok j (sg_srvs sg ! j) st (rw_test w)" using w by (auto simp: world_on_def st_def)
  let ?rt = "(as_test w)\<lparr>rt_pers := (t_pers st)(t_fresh st \<mapsto> ps)\<rparr>"
  from mksrv_eq[OF q, of ?rt "t_fresh st" ps i logs k "map (we_rand we) [t_draws st..<t_draws st + n]"] obtain r rt rs where
    mk: "mksrv (we_env we) (map (we_rand we) [t_draws st..<t_draws st + n]) i (t_fresh st) ?rt = Ret ((rt_next (rw_test w), r), rt)"
    and rt: "rt_pers rt = (t_pers st)(t_fresh st \<mapsto> ps)" "rt_srvs rt = (rt_srvs (rw_test w))[i := Some (rt_next (rw_test w))]"
      "rt_next rt = Suc (rt_next (rw_test w))" "rt_heap rt = (rt_heap (rw_test w))(rt_next (rw_test w) \<mapsto> rs)" "rt_snapshot rt = rt_snapshot (rw_test w)"
      "rs_me rs = i" "rs_persister rs = Some (t_fresh st)" "rs_logs rs = logs" "rs_lastApplied rs = k"
    using i g(3) s by (auto simp: st_def ps_def)
  have "\<exists>w' sg'. raft_StartServer we i w = Ret w' \<and> rw_test w' = rt \<and> cfg_Group GRP0 (rw_cfg w') = Some sg' \<and>
    grp_ok (we_rand we) n (sg', cf_state (rw_cfg w')) \<and> sr_saved (sg_srvs sg' ! i) = Some (t_fresh st) \<and>
    sr_svcs (sg_srvs sg' ! i) \<noteq> None \<and> (\<forall>j. j \<noteq> i \<longrightarrow> sg_srvs sg' ! j = sg_srvs sg ! j) \<and>
    t_pers (cf_state (rw_cfg w')) = rt_pers rt \<and> t_fresh st < t_fresh (cf_state (rw_cfg w'))"
    unfolding st_def
    by (rule raft_StartServer_eq[OF g(1) g(2)[unfolded st_def] i mk[unfolded st_def ps_def]]) (use rt(1) in \<open>auto simp: st_def\<close>)
  then obtain w' sg' where w': "raft_StartServer we i w = Ret w'" "rw_test w' = rt" "cfg_Group GRP0 (rw_cfg w') = Some sg'"
    "grp_ok (we_rand we) n (sg', cf_state (rw_cfg w'))" "sr_saved (sg_srvs sg' ! i) = Some (t_fresh st)" "sr_svcs (sg_srvs sg' ! i) \<noteq> None"
    "\<forall>j. j \<noteq> i \<longrightarrow> sg_srvs sg' ! j = sg_srvs sg ! j" "t_pers (cf_state (rw_cfg w')) = rt_pers rt" "t_fresh st < t_fresh (cf_state (rw_cfg w'))" by blast
  have new: "instance_ok i (sg_srvs sg' ! i) (cf_state (rw_cfg w')) rt"
    unfolding instance_ok_def using rt w' i g(3)
    by (intro exI[of _ "rt_next (rw_test w)"] exI[of _ rs] exI[of _ "t_fresh st"]) simp
  have old: "instance_ok j (sg_srvs sg' ! j) (cf_state (rw_cfg w')) rt" if "j \<in> I" "j \<noteq> i" for j
  proof -
    from g(4)[OF that(1)] obtain a rs' p where a: "rt_srvs (rw_test w) ! j = Some a" "a < rt_next (rw_test w)" "rt_heap (rw_test w) a = Some rs'" "rs_me rs' = j"
      "rs_persister rs' = Some p" "p < t_fresh st" "t_pers st p \<noteq> None" "sr_svcs (sg_srvs sg ! j) \<noteq> None \<longrightarrow> sr_saved (sg_srvs sg ! j) = Some p"
      by (auto simp: instance_ok_def)
    then show ?thesis unfolding instance_ok_def using rt w' that(2)
      by (intro exI[of _ a] exI[of _ rs'] exI[of _ p]) simp
  qed
  have "j < n \<and> instance_ok j (sg_srvs sg' ! j) (cf_state (rw_cfg w')) rt" if "j \<in> insert i I" for j
    using that new old[of j] g(4)[of j] i by blast
  then have "world_on we n (insert i I) w' sg'" using w'(2-4) g(3) rt(2) by (simp add: world_on_def)
  moreover have "started i logs k w w'" using rt w'(2) by (auto simp: started_def)
  ultimately show ?thesis using w'(1,5,6,7,8) rt(1) unfolding st_def ps_def by (intro exI[of _ w'] exI[of _ sg']) simp
qed

subsection \<open>Shutting a server down\<close>

lemma ShutdownServer_frame:
  assumes ok: "grp_ok rand n (sg, st)" and i: "i < n" and run: "ShutdownServer i (sg, st) = Ret (sg', st')"
  shows "\<forall>j. j \<noteq> i \<longrightarrow> sg_srvs sg' ! j = sg_srvs sg ! j" "\<forall>a<t_fresh st. t_pers st' a = t_pers st a" "t_fresh st \<le> t_fresh st'"
    "sr_svcs (sg_srvs sg' ! i) = None"
proof -
  note wf = grp_ok_wf[OF ok]
  have len: "length (sg_srvs sg) = n" using wf_groupD(1)[OF wf] .
  obtain sg1 st1 where d: "grp_disconnect i [0..<n] (sg, st) = Ret (sg1, st1)" "sg_srvs sg1 = sg_srvs sg" "t_pers st1 = t_pers st" "t_fresh st1 = t_fresh st"
    using grp_disconnect_eq[OF wf i, of "[0..<n]"] by (simp add: atLeast0LessThan)
  then show "\<forall>j. j \<noteq> i \<longrightarrow> sg_srvs sg' ! j = sg_srvs sg ! j" "\<forall>a<t_fresh st. t_pers st' a = t_pers st a" "t_fresh st \<le> t_fresh st'"
    "sr_svcs (sg_srvs sg' ! i) = None"
    using run i len by (auto simp: ShutdownServer_def grp_all_def shutdownServer_eq split: option.splits)
qed

lemma instance_ok_killed:
  assumes "instance_ok j srv st rt" "t_fresh st \<le> t_fresh st'" "\<forall>a<t_fresh st. t_pers st a \<noteq> None \<longrightarrow> t_pers st' a \<noteq> None"
    and "rt_srvs rt' = rt_srvs rt" "rt_next rt' = rt_next rt" "\<forall>a. \<exists>b. rt_heap rt' a = map_option (\<lambda>s. s\<lparr>rs_raft := b s\<rparr>) (rt_heap rt a)"
    and "sr_svcs srv' \<noteq> None \<longrightarrow> srv' = srv"
  shows "instance_ok j srv' st' rt'"
proof -
  from assms(1) obtain a rs p where a: "rt_srvs rt ! j = Some a" "a < rt_next rt" "rt_heap rt a = Some rs" "rs_me rs = j" "rs_persister rs = Some p"
    "p < t_fresh st" "t_pers st p \<noteq> None" "sr_svcs srv \<noteq> None \<longrightarrow> sr_saved srv = Some p" by (auto simp: instance_ok_def)
  from assms(6) obtain b where b: "rt_heap rt' a = map_option (\<lambda>s. s\<lparr>rs_raft := b s\<rparr>) (rt_heap rt a)" by blast
  show ?thesis unfolding instance_ok_def using a b assms(2-5,7)
    by (intro exI[of _ a] exI[of _ "rs\<lparr>rs_raft := b rs\<rparr>"] exI[of _ p]) auto
qed

text \<open>A running server is shut down: what it had persisted stays with the group, and nothing else of the harness changes than that the instance has no peer.\<close>

lemma raft_ShutdownServer_world:
  assumes w: "world_on we n I w sg" and i: "i \<in> I" and run: "sr_svcs (sg_srvs sg ! i) \<noteq> None"
  shows "\<exists>w' sg'. raft_ShutdownServer i w = Ret w' \<and> world_on we n I w' sg' \<and> sr_svcs (sg_srvs sg' ! i) = None \<and>
    saved_state (sg', cf_state (rw_cfg w')) i = saved_state (sg, cf_state (rw_cfg w)) i \<and>
    sr_saved (sg_srvs sg' ! i) = Some (t_fresh (cf_state (rw_cfg w))) \<and> t_fresh (cf_state (rw_cfg w)) \<le> t_fresh (cf_state (rw_cfg w')) \<and>
    rt_srvs (rw_test w') = rt_srvs (rw_test w) \<and> rt_next (rw_test w') = rt_next (rw_test w) \<and> rt_snapshot (rw_test w') = rt_snapshot (rw_test w) \<and>
    (\<forall>a. rt_srvs (rw_test w) ! i \<noteq> Some a \<longrightarrow> rt_heap (rw_test w') a = rt_heap (rw_test w) a)"
proof -
  define st where "st = cf_state (rw_cfg w)"
  have g: "cfg_Group GRP0 (rw_cfg w) = Some sg" "grp_ok (we_rand we) n (sg, st)" "length (rt_srvs (rw_test w)) = n"
    "\<And>j. j \<in> I \<Longrightarrow> j < n \<and> instance_ok j (sg_srvs sg ! j) st (rw_test w)" using w by (auto simp: world_on_def st_def)
  have len: "length (sg_srvs sg) = n" using grp_ok_wf[OF g(2)] wf_groupD(1) by blast
  have "i < n" using g(4)[OF i] by simp
  from g(4)[OF i] run obtain a rs p where a: "rt_srvs (rw_test w) ! i = Some a" "rt_heap (rw_test w) a = Some rs" "rs_persister rs = Some p"
    "p < t_fresh st" "t_pers st p \<noteq> None" "sr_saved (sg_srvs sg ! i) = Some p" by (auto simp: instance_ok_def)
  from ShutdownServer_spec[OF g(2) \<open>i < n\<close>] obtain sg1 st1 where s: "ShutdownServer i (sg, st) = Ret (sg1, st1)" "grp_ok (we_rand we) n (sg1, st1)"
    "saved_state (sg1, st1) i = saved_state (sg, st) i" "sr_saved (sg_srvs sg1 ! i) = Some (t_fresh st)" using a(6) by blast
  note fr = ShutdownServer_frame[OF g(2) \<open>i < n\<close> s(1)]
  obtain ps where ps: "t_pers st1 p = Some ps" using a(4,5) fr(2) by auto
  let ?cfg = "(rw_cfg w)\<lparr>cf_groups := AList.update GRP0 sg1 (cf_groups (rw_cfg w)), cf_state := st1\<rparr>"
  let ?w1 = "w\<lparr>rw_cfg := ?cfg\<rparr>"
  define rt where "rt = (upd_obj a (\<lambda>s. s\<lparr>rs_raft := None\<rparr>) (as_test ?w1))\<lparr>rt_pers := (t_pers st1)(p \<mapsto> Save (ReadRaftState ps) (ReadSnapshot ps) ps)\<rparr>"
  define w' where "w' = set_pers (rt_pers rt) (?w1\<lparr>rw_test := rt\<rparr>)"
  have "rfsrv_Kill a (as_test ?w1) = Ret rt"
    using rfsrv_Kill_Ret[of "as_test ?w1" a rs p ps] a(2,3) ps by (simp add: rt_def)
  then have r: "raft_ShutdownServer i w = Ret w'"
    using g(1,3) s(1) a(1) run len \<open>i < n\<close>
    by (simp add: raft_ShutdownServer_def on_group_def running_def kill_instance_def in_test_def go_nth_def st_def[symmetric] w'_def)
  have cfg: "cfg_Group GRP0 (rw_cfg w') = Some sg1" "cf_state (rw_cfg w') = st1\<lparr>t_pers := rt_pers rt\<rparr>" "rw_test w' = rt"
    by (simp_all add: w'_def set_pers_def cfg_Group_def lookupGroup_def update_conv)
  have rt: "rt_pers rt = (t_pers st1)(p \<mapsto> Save (ReadRaftState ps) (ReadSnapshot ps) ps)" "rt_srvs rt = rt_srvs (rw_test w)" "rt_next rt = rt_next (rw_test w)"
    "rt_snapshot rt = rt_snapshot (rw_test w)" "rt_heap rt = (rt_heap (rw_test w))(a \<mapsto> rs\<lparr>rs_raft := None\<rparr>)"
    using a(2) by (simp_all add: rt_def upd_obj_def)
  have "grp_ok (we_rand we) n (sg1, st1\<lparr>t_pers := rt_pers rt\<rparr>)" using s(2) rt(1) by (intro grp_ok_pers) auto
  moreover have "instance_ok j (sg_srvs sg1 ! j) (st1\<lparr>t_pers := rt_pers rt\<rparr>) rt" if "j \<in> I" for j
  proof (rule instance_ok_killed)
    show "instance_ok j (sg_srvs sg ! j) st (rw_test w)" using g(4)[OF that] by simp
    show "t_fresh st \<le> t_fresh (st1\<lparr>t_pers := rt_pers rt\<rparr>)" "\<forall>a<t_fresh st. t_pers st a \<noteq> None \<longrightarrow> t_pers (st1\<lparr>t_pers := rt_pers rt\<rparr>) a \<noteq> None"
      using fr(2,3) rt(1) by auto
    show "\<forall>x. \<exists>b. rt_heap rt x = map_option (\<lambda>s. s\<lparr>rs_raft := b s\<rparr>) (rt_heap (rw_test w) x)"
    proof
      fix x show "\<exists>b. rt_heap rt x = map_option (\<lambda>s. s\<lparr>rs_raft := b s\<rparr>) (rt_heap (rw_test w) x)"
        using a(2) rt(5) by (cases "x = a") (auto intro: exI[of _ "\<lambda>s. None"] exI[of _ rs_raft] simp: option.map_ident)
    qed
    show "sr_svcs (sg_srvs sg1 ! j) \<noteq> None \<longrightarrow> sg_srvs sg1 ! j = sg_srvs sg ! j" using fr(1,4) by metis
  qed (use rt in simp_all)
  ultimately have "world_on we n I w' sg1" using g(3,4) cfg rt(2) by (simp add: world_on_def)
  moreover have "saved_state (sg1, st1\<lparr>t_pers := rt_pers rt\<rparr>) i = saved_state (sg, st) i"
    using s(3,4) rt(1) a(4) by (simp add: saved_state_def)
  ultimately show ?thesis
    using r cfg rt fr(3,4) s(4) a(1) by (intro exI[of _ w'] exI[of _ sg1]) (simp add: st_def[symmetric])
qed

subsection \<open>Connecting the servers\<close>

lemma grp_connect_frame:
  assumes "grp_connect i to g = Ret g'"
  shows "(sg_srvs (fst g'), t_pers (snd g'), t_fresh (snd g')) = (sg_srvs (fst g), t_pers (snd g), t_fresh (snd g))"
proof -
  obtain sg0 st where g: "g = (sg0, st)" by (cases g)
  with assms obtain sg s st1 st2 where c: "set_connected i True sg0 = Ret sg" "srv_connect (sg_connected sg) s to st = Ret st1" "g' = (sg, st2)"
    "fold_go (\<lambda>j st. go_bind (IsConnected sg j) (\<lambda>c. if c then go_bind (go_nth (sg_srvs sg) j) (\<lambda>sj.
           go_bind (go_nth (end_names sj) i) (\<lambda>e. Ret (enable_end e True st))) else Ret st)) to st1 = Ret st2"
    by (auto simp: grp_connect_def go_bind_Ret_iff)
  have "(t_pers st1, t_fresh st1) = (t_pers st, t_fresh st)"
    by (rule fold_go_keeps[OF c(2)[unfolded srv_connect_def], of "\<lambda>st. (t_pers st, t_fresh st)"]) (auto simp: go_bind_Ret_iff enable_end_def split: if_splits)
  moreover have "(t_pers st2, t_fresh st2) = (t_pers st1, t_fresh st1)"
    by (rule fold_go_keeps[OF c(4), of "\<lambda>st. (t_pers st, t_fresh st)"]) (auto simp: go_bind_Ret_iff enable_end_def split: if_splits)
  moreover have "sg_srvs sg = sg_srvs sg0" using c(1) by (auto simp: set_connected_def split: if_splits)
  ultimately show ?thesis using g c(3) by simp
qed

lemma ConnectAll_frame:
  assumes "ConnectAll g = Ret g'"
  shows "(sg_srvs (fst g'), t_pers (snd g'), t_fresh (snd g')) = (sg_srvs (fst g), t_pers (snd g), t_fresh (snd g))"
  by (rule fold_go_keeps[OF assms[unfolded ConnectAll_def], of "\<lambda>g. (sg_srvs (fst g), t_pers (snd g), t_fresh (snd g))"])
    (unfold ConnectOne_def, rule grp_connect_frame)

lemma connect_world:
  assumes w: "world_on we n I w sg"
  shows "\<exists>cfg sg'. on_group GRP0 ConnectAll (rw_cfg w) = Ret cfg \<and> world_on we n I (w\<lparr>rw_cfg := cfg\<rparr>) sg' \<and> sg_srvs sg' = sg_srvs sg \<and>
    (\<forall>a<n. \<forall>b<n. grp_link (sg', cf_state cfg) a b) \<and> t_pers (cf_state cfg) = t_pers (cf_state (rw_cfg w))"
proof -
  have g: "cfg_Group GRP0 (rw_cfg w) = Some sg" "grp_ok (we_rand we) n (sg, cf_state (rw_cfg w))" using w by (auto simp: world_on_def)
  from ConnectAll_spec[OF g(2)] obtain sg' st' where c: "ConnectAll (sg, cf_state (rw_cfg w)) = Ret (sg', st')" "grp_ok (we_rand we) n (sg', st')"
    "\<forall>a<n. \<forall>b<n. grp_link (sg', st') a b" by fastforce
  from ConnectAll_frame[OF c(1)] have f: "sg_srvs sg' = sg_srvs sg" "t_pers st' = t_pers (cf_state (rw_cfg w))" "t_fresh st' = t_fresh (cf_state (rw_cfg w))" by simp_all
  let ?cfg = "(rw_cfg w)\<lparr>cf_groups := AList.update GRP0 sg' (cf_groups (rw_cfg w)), cf_state := st'\<rparr>"
  have "on_group GRP0 ConnectAll (rw_cfg w) = Ret ?cfg" using g(1) c(1) by (simp add: on_group_def)
  moreover have "world_on we n I (w\<lparr>rw_cfg := ?cfg\<rparr>) sg'"
    using w c(2) f by (simp add: world_on_def instance_ok_def cfg_Group_def lookupGroup_def update_conv)
  ultimately show ?thesis using f c(3) by (intro exI[of _ ?cfg] exI[of _ sg']) simp
qed

subsection \<open>Making a test\<close>

lemma make_servers_unsaved: "make_servers rand gid n k st = Ret (ss, st') \<Longrightarrow> s \<in> set ss \<Longrightarrow> sr_saved s = None"
  by (induction rand gid n k st arbitrary: ss st' rule: make_servers.induct) (auto simp: go_bind_Ret_iff makeServer_def)

text \<open>The servers of a new test are started one after the other, on persisters without a snapshot.\<close>

definition unsnapped :: "nat \<Rightarrow> ('c, 'r, 's, 'v) raft_world \<Rightarrow> ('s, 'v) server_grp \<Rightarrow> bool" where
  "unsnapped n w sg \<longleftrightarrow> (\<forall>j<n. ps_snapshot (saved_state (sg, cf_state (rw_cfg w)) j) = None)"

lemma start_unsnapped:
  assumes w: "world_on we n I w sg" and i: "i < n" and q: "quiet_Make (we_env we)" and u: "unsnapped n w sg"
  shows "\<exists>w' sg'. raft_StartServer we i w = Ret w' \<and> world_on we n (insert i I) w' sg' \<and> unsnapped n w' sg' \<and> sr_svcs (sg_srvs sg' ! i) \<noteq> None \<and>
    (\<forall>j. j \<noteq> i \<longrightarrow> sg_srvs sg' ! j = sg_srvs sg ! j) \<and> rt_snapshot (rw_test w') = rt_snapshot (rw_test w)"
proof -
  let ?st = "cf_state (rw_cfg w)"
  have "starts_with (we_env we) (rt_snapshot (rw_test w)) (saved_state (sg, ?st) i) Map.empty 0"
    using u i by (simp add: starts_with_def unsnapped_def bytes_of_def)
  from raft_StartServer_world[OF w i q this] obtain w' sg' where w': "raft_StartServer we i w = Ret w'" "world_on we n (insert i I) w' sg'"
    "started i Map.empty 0 w w'" "sr_svcs (sg_srvs sg' ! i) \<noteq> None" "sr_saved (sg_srvs sg' ! i) = Some (t_fresh ?st)" "\<forall>j. j \<noteq> i \<longrightarrow> sg_srvs sg' ! j = sg_srvs sg ! j"
    "t_pers (cf_state (rw_cfg w')) = (t_pers ?st)(t_fresh ?st \<mapsto> saved_state (sg, ?st) i)" by blast
  have g: "grp_ok (we_rand we) n (sg, ?st)" using w by (simp add: world_on_def)
  have len: "length (sg_srvs sg) = n" using grp_ok_wf[OF g] wf_groupD(1) by blast
  have old: "sr_saved (sg_srvs sg ! j) = Some a \<Longrightarrow> a < t_fresh ?st" if "j < n" for j a
    using g that len nth_mem[of j "sg_srvs sg"] by (auto simp: grp_ok_def)
  have "saved_state (sg', cf_state (rw_cfg w')) j = saved_state (sg, ?st) j" if "j < n" for j
  proof (cases "j = i")
    case True
    then show ?thesis using w'(5,7) by (simp add: saved_state_def[of "(sg', _)"])
  next
    case False
    then show ?thesis using w'(6,7) old[OF that] by (auto simp: saved_state_def split: option.splits)
  qed
  then have "ps_snapshot (saved_state (sg', cf_state (rw_cfg w')) j) = None" if "j < n" for j
    using u that by (simp add: unsnapped_def)
  then have "unsnapped n w' sg'" by (simp add: unsnapped_def)
  then show ?thesis using w' by (intro exI[of _ w'] exI[of _ sg']) (auto simp: started_def)
qed

lemma raft_makeTest_ok:
  fixes we :: "('c, 'r, 's, 'v) raft_wenv"
  assumes "inj (we_rand we)" "quiet_Make (we_env we)"
  shows "\<exists>w sg. raft_makeTest we start n reliable snapshot rf an = Ret w \<and> world_on we n {..<n} w sg \<and> rt_snapshot (rw_test w) = snapshot \<and>
    (\<forall>i<n. sr_svcs (sg_srvs sg ! i) \<noteq> None) \<and> (\<forall>a<n. \<forall>b<n. grp_link (sg, cf_state (rw_cfg w)) a b)"
proof -
  have "fresh_names (we_rand we) (new_tstate MakeNetwork :: ('s, 'v) tstate)" using assms(1) by (simp add: fresh_names_def new_tstate_def MakeNetwork_def)
  from makeSrvGrp_ok[OF this, of GRP0 n "\<lambda>_ _ _ _ ps. ([], we_state we, ps)"] obtain sg0 :: "('s, 'v) server_grp" and st0 where
    m: "makeSrvGrp (we_rand we) GRP0 n (\<lambda>_ _ _ _ ps. ([], we_state we, ps)) (new_tstate MakeNetwork) = Ret (sg0, st0)" "grp_ok (we_rand we) n (sg0, st0)" by fastforce
  let ?cfg = "\<lparr>cf_clnts = makeClnts, cf_groups = [(GRP0, sg0)], cf_state = st0, cf_failed = False, cf_start = 0, cf_t0 = 0, cf_rpcs0 = 0, cf_ops = 0\<rparr>"
  let ?w0 = "\<lparr>rw_cfg = ?cfg, rw_test = new_rtest n snapshot Map.empty rf an\<rparr>"
  let ?P = "\<lambda>xs w. \<exists>sg. world_on we n (set xs) w sg \<and> unsnapped n w sg \<and> (\<forall>j\<in>set xs. sr_svcs (sg_srvs sg ! j) \<noteq> None) \<and> rt_snapshot (rw_test w) = snapshot"
  have "sr_saved (sg_srvs sg0 ! j) = None" if "j < n" for j
  proof -
    have "sg_srvs sg0 ! j \<in> set (sg_srvs sg0)" using that wf_groupD(1)[OF grp_ok_wf[OF m(2)]] by simp
    then show ?thesis using m(1) by (auto simp: makeSrvGrp_def go_bind_Ret_iff dest: make_servers_unsaved)
  qed
  then have "?P [] ?w0" using m(2)
    by (intro exI[of _ sg0]) (simp add: world_on_def unsnapped_def cfg_Group_def lookupGroup_def new_rtest_def saved_state_def MakePersister_def)
  moreover have "\<exists>w'. raft_StartServer we i w = Ret w' \<and> ?P (xs @ [i]) w'" if "?P xs w" "i \<in> set [0..<n]" for xs w i
  proof -
    note prem = that
    obtain sg where sg: "world_on we n (set xs) w sg" "unsnapped n w sg" "\<forall>j\<in>set xs. sr_svcs (sg_srvs sg ! j) \<noteq> None" "rt_snapshot (rw_test w) = snapshot"
      using prem(1) by blast
    have "i < n" using prem(2) by simp
    from start_unsnapped[OF sg(1) this assms(2) sg(2)] obtain w' sg' where w': "raft_StartServer we i w = Ret w'" "world_on we n (insert i (set xs)) w' sg'"
      "unsnapped n w' sg'" "sr_svcs (sg_srvs sg' ! i) \<noteq> None" "\<forall>j. j \<noteq> i \<longrightarrow> sg_srvs sg' ! j = sg_srvs sg ! j" "rt_snapshot (rw_test w') = rt_snapshot (rw_test w)"
      by blast
    then have "\<forall>j\<in>set (xs @ [i]). sr_svcs (sg_srvs sg' ! j) \<noteq> None" using sg(3) by (metis Un_iff set_append set_ConsD empty_iff list.set(1))
    then show ?thesis using w' sg(4) by (intro exI[of _ w'] conjI exI[of _ sg']) simp_all
  qed
  ultimately obtain w sg where w: "fold_go (raft_StartServer we) [0..<n] ?w0 = Ret w" "world_on we n {..<n} w sg"
    "\<forall>j<n. sr_svcs (sg_srvs sg ! j) \<noteq> None" "rt_snapshot (rw_test w) = snapshot"
    using fold_go_rule[of ?P ?w0 "[0..<n]" "raft_StartServer we"] by (auto simp: atLeast0LessThan)
  from connect_world[OF w(2)] obtain cfg sg' where c: "on_group GRP0 ConnectAll (rw_cfg w) = Ret cfg" "world_on we n {..<n} (w\<lparr>rw_cfg := cfg\<rparr>) sg'"
    "sg_srvs sg' = sg_srvs sg" "\<forall>a<n. \<forall>b<n. grp_link (sg', cf_state cfg) a b" by blast
  let ?cfg1 = "SetLongDelays True (SetReliable reliable (cfg\<lparr>cf_clnts := makeClnts, cf_start := start\<rparr>))"
  have "raft_makeTest we start n reliable snapshot rf an = Ret (w\<lparr>rw_cfg := ?cfg1\<rparr>)"
    using m(1) w(1) c(1) by (simp add: raft_makeTest_def MakeGroup_def newGroups_def Let_def)
  moreover have "world_on we n {..<n} (w\<lparr>rw_cfg := ?cfg1\<rparr>) sg'"
    using c(2) by (simp add: world_on_def instance_ok_def cfg_Group_def SetLongDelays_def SetReliable_def grp_ok_def wf_group_def fresh_names_def
        LongDelays_def Reliable_def)
  moreover have "\<forall>a<n. \<forall>b<n. grp_link (sg', cf_state ?cfg1) a b"
    using c(4) by (simp add: SetLongDelays_def SetReliable_def grp_link_def is_enabled_def LongDelays_def Reliable_def)
  ultimately show ?thesis using w(3,4) c(3) by (intro exI[of _ "w\<lparr>rw_cfg := ?cfg1\<rparr>"] exI[of _ sg']) simp
qed

subsection \<open>Property\<close>

text \<open>What a killed instance that still runs saves to its persister.\<close>

definition old_saves :: "nat \<Rightarrow> byte list option \<Rightarrow> byte list option \<Rightarrow> ('c, 'r, 's, 'v) raft_world \<Rightarrow> ('c, 'r, 's, 'v) raft_world" where
  "old_saves p raftstate snapshot w =
     set_pers ((t_pers (cf_state (rw_cfg w)))(p \<mapsto> Save raftstate snapshot (the (t_pers (cf_state (rw_cfg w)) p)))) w"

lemma old_saves_test [simp]: "rw_test (old_saves p x y w) = rw_test w"
  by (simp add: old_saves_def set_pers_def)

lemma old_saves_world:
  assumes w: "world_on we n I w sg"
  shows "world_on we n I (old_saves p x y w) sg"
proof -
  let ?pers = "(t_pers (cf_state (rw_cfg w)))(p \<mapsto> Save x y (the (t_pers (cf_state (rw_cfg w)) p)))"
  have "grp_ok (we_rand we) n (sg, (cf_state (rw_cfg w))\<lparr>t_pers := ?pers\<rparr>)" using w by (intro grp_ok_pers) (auto simp: world_on_def)
  moreover have "instance_ok j (sg_srvs sg ! j) (cf_state (rw_cfg w)) (rw_test w) \<Longrightarrow>
      instance_ok j (sg_srvs sg ! j) ((cf_state (rw_cfg w))\<lparr>t_pers := ?pers\<rparr>) (rw_test w)" for j
    by (rule instance_ok_killed) (auto intro: exI[of _ rs_raft] simp: option.map_ident)
  ultimately show ?thesis using w by (simp add: world_on_def old_saves_def set_pers_def cfg_Group_def)
qed

lemma old_saves_saved:
  "sr_saved (sg_srvs sg ! i) = Some q \<Longrightarrow> p \<noteq> q \<Longrightarrow>
    saved_state (sg, cf_state (rw_cfg (old_saves p x y w))) i = saved_state (sg, cf_state (rw_cfg w)) i"
  by (simp add: saved_state_def old_saves_def set_pers_def)

text \<open>
  Property C22: a server resumes from the snapshot that was persisted when it crashed. In a test in which all invariants hold, shut down a running server whose persister
  holds the snapshot of a log up to index \<open>k\<close>, let the old instance go on to save anything to its persister, and restart the server: the invariants hold again, all
  servers are linked, and the server has a new instance that has applied the entries up to \<open>k\<close> and holds exactly these, while no other server of the harness
  changed.
\<close>

theorem raft_restart_resumes:
  assumes "world_ok we n w" and "i < n" and "running i w" and "rt_snapshot (rw_test w)" and "quiet_Make (we_env we)"
    and "rt_srvs (rw_test w) ! i = Some a" and "rt_heap (rw_test w) a = Some rs" and "rs_persister rs = Some p" and "t_pers (cf_state (rw_cfg w)) p = Some ps"
    and "ps_snapshot ps = Some (snapshot_bytes (we_env we) k L)"
    and codec: "\<And>xs. re_enc (we_env we) k xs \<noteq> [] \<and> re_dec (we_env we) (re_enc (we_env we) k xs) = Some (k, xs)"
  shows "\<exists>w1 w2 b rs' sg. raft_ShutdownServer i w = Ret w1 \<and> raft_restart we i (old_saves p x y w1) = Ret w2 \<and>
    world_ok we n w2 \<and> running i w2 \<and> cfg_Group GRP0 (rw_cfg w2) = Some sg \<and> (\<forall>u<n. \<forall>v<n. grp_link (sg, cf_state (rw_cfg w2)) u v) \<and>
    rt_srvs (rw_test w2) = (rt_srvs (rw_test w))[i := Some b] \<and> rt_heap (rw_test w2) b = Some rs' \<and> rs_lastApplied rs' = k \<and> rs_logs rs' = restored k L \<and>
    (\<forall>c. c \<noteq> a \<and> c \<noteq> b \<longrightarrow> rt_heap (rw_test w2) c = rt_heap (rw_test w) c) \<and> b \<noteq> a"
proof -
  from assms(1) obtain sg where w: "world_on we n {..<n} w sg" by (auto simp: world_ok_def)
  have i: "i \<in> {..<n}" using assms(2) by simp
  have run: "sr_svcs (sg_srvs sg ! i) \<noteq> None" using assms(3) w by (auto simp: running_def world_on_def)
  have inst: "instance_ok i (sg_srvs sg ! i) (cf_state (rw_cfg w)) (rw_test w)" using w i by (auto simp: world_on_def)
  then have p: "p < t_fresh (cf_state (rw_cfg w))" "sr_saved (sg_srvs sg ! i) = Some p" "a < rt_next (rw_test w)"
    using assms(6-8) run by (auto simp: instance_ok_def)
  from raft_ShutdownServer_world[OF w i run] obtain w1 sg1 where s: "raft_ShutdownServer i w = Ret w1" "world_on we n {..<n} w1 sg1"
    "saved_state (sg1, cf_state (rw_cfg w1)) i = saved_state (sg, cf_state (rw_cfg w)) i" "sr_saved (sg_srvs sg1 ! i) = Some (t_fresh (cf_state (rw_cfg w)))"
    "rt_srvs (rw_test w1) = rt_srvs (rw_test w)" "rt_next (rw_test w1) = rt_next (rw_test w)" "rt_snapshot (rw_test w1)"
    "\<forall>c. rt_srvs (rw_test w) ! i \<noteq> Some c \<longrightarrow> rt_heap (rw_test w1) c = rt_heap (rw_test w) c" using assms(4) by blast
  let ?w1 = "old_saves p x y w1"
  have o: "world_on we n {..<n} ?w1 sg1" "rw_test ?w1 = rw_test w1" "saved_state (sg1, cf_state (rw_cfg ?w1)) i = ps"
    using old_saves_world[OF s(2), of p x y] old_saves_saved[OF s(4), of p x y w1] s(3) p assms(9) by (simp_all add: saved_state_def[of "(sg, _)"])
  have "starts_with (we_env we) (rt_snapshot (rw_test ?w1)) (saved_state (sg1, cf_state (rw_cfg ?w1)) i) (restored k L) k"
    using o(2,3) s(7) assms(10) codec by (simp add: starts_with_def bytes_of_def snapshot_bytes_def logs_of_snapshot[symmetric])
  from raft_StartServer_world[OF o(1) assms(2,5) this] obtain w2 sg2 where r: "raft_StartServer we i ?w1 = Ret w2" "world_on we n (insert i {..<n}) w2 sg2"
    "started i (restored k L) k ?w1 w2" "sr_svcs (sg_srvs sg2 ! i) \<noteq> None" by blast
  have "insert i {..<n} = {..<n}" using i by blast
  with r(2) have w2: "world_on we n {..<n} w2 sg2" by simp
  from connect_world[OF w2] obtain cfg sg3 where c: "on_group GRP0 ConnectAll (rw_cfg w2) = Ret cfg" "world_on we n {..<n} (w2\<lparr>rw_cfg := cfg\<rparr>) sg3"
    "sg_srvs sg3 = sg_srvs sg2" "\<forall>u<n. \<forall>v<n. grp_link (sg3, cf_state cfg) u v" by blast
  let ?w3 = "w2\<lparr>rw_cfg := cfg\<rparr>"
  have run3: "raft_restart we i ?w1 = Ret ?w3" using r(1) c(1) by (simp add: raft_restart_def)
  have g3: "cfg_Group GRP0 cfg = Some sg3" "grp_ok (we_rand we) n (sg3, cf_state cfg)" using c(2) by (simp_all add: world_on_def)
  have "running i ?w3" using g3(1) r(4) c(3) assms(2) wf_groupD(1)[OF grp_ok_wf[OF g3(2)]] by (auto simp: running_def)
  moreover have "world_ok we n ?w3" using c(2) by (auto simp: world_ok_def)
  moreover obtain rs' where "rt_srvs (rw_test w2) = (rt_srvs (rw_test w))[i := Some (rt_next (rw_test w))]" "rs_lastApplied rs' = k" "rs_logs rs' = restored k L"
    "rt_heap (rw_test w2) = (rt_heap (rw_test w1))(rt_next (rw_test w) \<mapsto> rs')" using r(3) o(2) s(5,6) by (auto simp: started_def)
  ultimately show ?thesis using s(1,8) run3 g3(1) c(4) p(3) assms(6)
    by (intro exI[of _ w1] exI[of _ ?w3] exI[of _ "rt_next (rw_test w)"] exI[of _ rs'] exI[of _ sg3]) simp
qed

text \<open>A new test of two servers, of which the first has persisted a snapshot.\<close>

definition ex_wenv :: "(byte, Raft list, persister, byte list) raft_wenv" where
  "ex_wenv = \<lparr>we_env = ex_renv, we_rand = ex_rand, we_svcs = \<lambda>a r. [], we_state = MakePersister\<rparr>"

definition ex_saved :: "byte list" where
  "ex_saved = snapshot_bytes ex_renv 2 [1 \<mapsto> Some 7, 2 \<mapsto> Some 8]"

theorem raft_restart_resumes_witness:
  "\<exists>w p w1 w2 b rs'. raft_makeTest ex_wenv 0 2 True True [] (mkAnnotation, Some (mkFrameworkInfo 2)) = Ret w \<and>
    raft_ShutdownServer 0 (old_saves p None (Some ex_saved) w) = Ret w1 \<and> raft_restart ex_wenv 0 (old_saves p None None w1) = Ret w2 \<and>
    rt_srvs (rw_test w2) ! 0 = Some b \<and> rt_heap (rw_test w2) b = Some rs' \<and> rs_lastApplied rs' = 2 \<and> rs_logs rs' = restored 2 [1 \<mapsto> Some 7, 2 \<mapsto> Some 8]"
proof -
  have q: "quiet_Make (we_env ex_wenv)" by (simp add: quiet_Make_def ex_wenv_def ex_renv_def split_paired_all)
  have "inj (we_rand ex_wenv)" using ex_fresh by (simp add: fresh_names_def ex_wenv_def)
  from raft_makeTest_ok[OF this q, of 0 2 True True "[]" "(mkAnnotation, Some (mkFrameworkInfo 2))"] obtain w sg where
    w: "raft_makeTest ex_wenv 0 2 True True [] (mkAnnotation, Some (mkFrameworkInfo 2)) = Ret w" "world_on ex_wenv 2 {..<2} w sg" "rt_snapshot (rw_test w)"
      "\<forall>i<2. sr_svcs (sg_srvs sg ! i) \<noteq> None" by blast
  then obtain a rs p where a: "rt_srvs (rw_test w) ! 0 = Some a" "rt_heap (rw_test w) a = Some rs" "rs_persister rs = Some p" "length (rt_srvs (rw_test w)) = 2"
    by (fastforce simp: world_on_def instance_ok_def)
  let ?w = "old_saves p None (Some ex_saved) w"
  have ok: "world_ok ex_wenv 2 ?w" using old_saves_world[OF w(2)] by (auto simp: world_ok_def)
  have g: "cfg_Group GRP0 (rw_cfg ?w) = Some sg" "length (sg_srvs sg) = 2"
    using w(2) grp_ok_wf wf_groupD(1) by (fastforce simp: world_on_def old_saves_def set_pers_def cfg_Group_def)+
  then have r: "running 0 ?w" using w(4) by (auto simp: running_def)
  have c: "re_enc (we_env ex_wenv) 2 xs \<noteq> [] \<and> re_dec (we_env ex_wenv) (re_enc (we_env ex_wenv) 2 xs) = Some (2, xs)" for xs
    by (simp add: ex_wenv_def ex_renv_def ex_codec)
  let ?ps = "Save None (Some ex_saved) (the (t_pers (cf_state (rw_cfg w)) p))"
  have ps: "t_pers (cf_state (rw_cfg ?w)) p = Some ?ps" by (simp add: old_saves_def set_pers_def)
  have snap: "ps_snapshot ?ps = Some (snapshot_bytes (we_env ex_wenv) 2 [1 \<mapsto> Some 7, 2 \<mapsto> Some 8])"
    by (simp add: Save_def clone_def bytes_of_def ex_saved_def ex_wenv_def)
  have h: "rt_snapshot (rw_test ?w)" "rt_srvs (rw_test ?w) ! 0 = Some a" "rt_heap (rw_test ?w) a = Some rs" using w(3) a by simp_all
  from raft_restart_resumes[OF ok _ r h(1) q h(2,3) a(3) ps snap c, of None None] obtain w1 w2 b rs' where
    x: "raft_ShutdownServer 0 ?w = Ret w1" "raft_restart ex_wenv 0 (old_saves p None None w1) = Ret w2"
    "rt_srvs (rw_test w2) = (rt_srvs (rw_test ?w))[0 := Some b]" "rt_heap (rw_test w2) b = Some rs'" "rs_lastApplied rs' = 2"
    "rs_logs rs' = restored 2 [1 \<mapsto> Some 7, 2 \<mapsto> Some 8]" by auto
  then have "rt_srvs (rw_test w2) ! 0 = Some b" using a(4) by simp
  then show ?thesis using w(1) x(1,2,4,5,6) by blast
qed

end
