(* ===== verification/Main_Programs.thy ===== *)
theory Main_Programs
  imports Map_Workers
begin

text \<open>
  The command line programs under \<^verbatim>\<open>main\<close> and the coordinator and worker of \<^verbatim>\<open>mr\<close> that two of them start. The services
  of the older labs (\<^verbatim>\<open>diskv\<close>, \<^verbatim>\<open>lockservice\<close>, \<^verbatim>\<open>pbservice\<close>, \<^verbatim>\<open>viewservice\<close>) are not in the repository: the result of a program
  is the call it makes to its service with the arguments it found, or the exit after the usage message. The
  lemmas show that \<^verbatim>\<open>diskvd\<close> reads back every configuration written as flags, and what it makes of numbers that are not numbers.
\<close>

subsection \<open>Parsing booleans\<close>

definition ParseBool :: "string \<Rightarrow> bool" where
  "ParseBool s \<longleftrightarrow> s \<in> {''1'', ''t'', ''T'', ''true'', ''TRUE'', ''True''}"

subsection \<open>diskvd\<close>

record diskvd_config =
  dv_gid :: int
  dv_masters :: "string list"
  dv_replicas :: "string list"
  dv_me :: int
  dv_unreliable :: bool
  dv_dir :: string
  dv_restart :: bool

text \<open>What a program does after reading its arguments: it prints its usage and exits, or goes on.\<close>

datatype 'c outcome = Usage | Goes 'c

definition diskvd_default :: diskvd_config where
  "diskvd_default = \<lparr>dv_gid = -1, dv_masters = [], dv_replicas = [], dv_me = -1, dv_unreliable = False, dv_dir = [], dv_restart = False\<rparr>"

definition diskvd_flag :: "string \<Rightarrow> string \<Rightarrow> diskvd_config \<Rightarrow> diskvd_config outcome" where
  "diskvd_flag a0 a1 c =
     (if a0 = ''-g'' then Goes (c\<lparr>dv_gid := fst (ParseInt a1)\<rparr>)
      else if a0 = ''-m'' then Goes (c\<lparr>dv_masters := dv_masters c @ [a1]\<rparr>)
      else if a0 = ''-s'' then Goes (c\<lparr>dv_replicas := dv_replicas c @ [a1]\<rparr>)
      else if a0 = ''-i'' then Goes (c\<lparr>dv_me := fst (ParseInt a1)\<rparr>)
      else if a0 = ''-u'' then Goes (c\<lparr>dv_unreliable := ParseBool a1\<rparr>)
      else if a0 = ''-d'' then Goes (c\<lparr>dv_dir := a1\<rparr>)
      else if a0 = ''-r'' then Goes (c\<lparr>dv_restart := ParseBool a1\<rparr>)
      else Usage)"

fun diskvd_flags :: "string list \<Rightarrow> diskvd_config \<Rightarrow> diskvd_config outcome" where
  "diskvd_flags (a0 # a1 # args) c = (case diskvd_flag a0 a1 c of Usage \<Rightarrow> Usage | Goes c' \<Rightarrow> diskvd_flags args c')"
| "diskvd_flags _ c = Goes c"

definition diskvd_main :: "string list \<Rightarrow> diskvd_config outcome" where
  "diskvd_main args = (case diskvd_flags (tl args) diskvd_default of
     Usage \<Rightarrow> Usage
   | Goes c \<Rightarrow> if dv_gid c < 0 \<or> dv_me c < 0 \<or> length (dv_masters c) < 1 \<or> dv_me c \<ge> int (length (dv_replicas c)) \<or> dv_dir c = [] then Usage
       else Goes c)"

subsection \<open>The programs of the lock service and of the primary/backup service\<close>

datatype lock_call = LockCall string | UnlockCall string

definition lockc_main :: "string list \<Rightarrow> (string \<times> string \<times> lock_call) outcome" where
  "lockc_main args =
     (if length args = 5 then
        (if args ! 1 = ''-l'' then Goes (args ! 2, args ! 3, LockCall (args ! 4))
         else if args ! 1 = ''-u'' then Goes (args ! 2, args ! 3, UnlockCall (args ! 4))
         else Usage)
      else Usage)"

text \<open>The third component of the call says whether the server is the primary.\<close>

definition lockd_main :: "string list \<Rightarrow> (string \<times> string \<times> bool) outcome" where
  "lockd_main args =
     (if length args = 4 \<and> args ! 1 = ''-p'' then Goes (args ! 2, args ! 3, True)
      else if length args = 4 \<and> args ! 1 = ''-b'' then Goes (args ! 2, args ! 3, False)
      else Usage)"

datatype pb_call = PbGet string | PbPut string string

definition pbc_main :: "string list \<Rightarrow> (string \<times> pb_call) outcome" where
  "pbc_main args =
     (if length args = 3 then Goes (args ! 1, PbGet (args ! 2))
      else if length args = 4 then Goes (args ! 1, PbPut (args ! 2) (args ! 3))
      else Usage)"

definition pbd_main :: "string list \<Rightarrow> (string \<times> string) outcome" where
  "pbd_main args = (if length args \<noteq> 3 then Usage else Goes (args ! 1, args ! 2))"

definition viewd_main :: "string list \<Rightarrow> string outcome" where
  "viewd_main args = (if length args \<noteq> 2 then Usage else Goes (args ! 1))"

subsection \<open>The coordinator and the worker of MapReduce\<close>

text \<open>
  \<open>mw_listening\<close>: the sockets on which a coordinator serves; \<open>can_listen\<close> says whether the system lets a program listen on a
  name. The methods that \<^verbatim>\<open>net/rpc\<close> registers are those with an argument, a reply and an error as result: of the coordinator this is \<^verbatim>\<open>Example\<close>.
\<close>

record mr_world =
  mw_uid :: int
  mw_listening :: "string list"

record ExampleArgs =
  X :: int

record ExampleReply =
  Y :: int

definition coord_server :: "(string \<Rightarrow> bool) \<Rightarrow> mr_world \<Rightarrow> mr_world go" where
  "coord_server can_listen w = (let sockname = coordinatorSock (mw_uid w);
       w1 = w\<lparr>mw_listening := filter (\<lambda>s. s \<noteq> sockname) (mw_listening w)\<rparr>
     in if can_listen sockname then Ret (w1\<lparr>mw_listening := sockname # mw_listening w1\<rparr>) else Fatal ''listen error:'')"

definition Coordinator_Done :: bool where
  "Coordinator_Done = False"

definition MakeCoordinator :: "(string \<Rightarrow> bool) \<Rightarrow> string list \<Rightarrow> int \<Rightarrow> mr_world \<Rightarrow> mr_world go" where
  "MakeCoordinator can_listen files nReduce w = coord_server can_listen w"

text \<open>A call that does not return normally leaves the reply as it was.\<close>

definition mr_call :: "string \<Rightarrow> ExampleArgs \<Rightarrow> ExampleReply \<Rightarrow> mr_world \<Rightarrow> (bool \<times> ExampleReply) go" where
  "mr_call rpcname args reply w =
     (if coordinatorSock (mw_uid w) \<notin> set (mw_listening w) then Fatal ''dialing:''
      else if rpcname = ''Coordinator.Example'' then Ret (True, reply\<lparr>Y := Example (X args)\<rparr>)
      else Ret (False, reply))"

text \<open>What \<^verbatim>\<open>CallExample\<close> prints.\<close>

definition CallExample :: "mr_world \<Rightarrow> string go" where
  "CallExample w = go_bind (mr_call ''Coordinator.Example'' \<lparr>X = 99\<rparr> \<lparr>Y = 0\<rparr> w) (\<lambda>(ok, reply).
     Ret (if ok then ''reply.Y '' @ itoa (Y reply) else ''call failed!''))"

definition Worker :: "mapf \<Rightarrow> reducef \<Rightarrow> mr_world \<Rightarrow> mr_world" where
  "Worker mapf reducef w = w"

definition worker_loadPlugin :: "(string \<Rightarrow> plugin option) \<Rightarrow> string \<Rightarrow> (mapf \<times> reducef) go" where
  "worker_loadPlugin plugins filename = (case plugins filename of
     None \<Rightarrow> Fatal ''cannot load plugin %v''
   | Some (xmapf, xreducef) \<Rightarrow> (case xmapf of
       None \<Rightarrow> Fatal ''cannot find Map in %v''
     | Some mapf \<Rightarrow> (case xreducef of
         None \<Rightarrow> Fatal ''cannot find Reduce in %v''
       | Some reducef \<Rightarrow> Ret (mapf, reducef))))"

definition mrworker_main :: "(string \<Rightarrow> plugin option) \<Rightarrow> string list \<Rightarrow> mr_world \<Rightarrow> mr_world outcome go" where
  "mrworker_main plugins args w =
     (if length args \<noteq> 2 then Ret Usage
      else go_bind (worker_loadPlugin plugins (args ! 1)) (\<lambda>(mapf, reducef). Ret (Goes (Worker mapf reducef w))))"

text \<open>\<open>dones k\<close>: the answer of the \<open>k\<close>-th call of \<^verbatim>\<open>Done\<close>. The loop returns the number of calls, or never (\<open>None\<close>).\<close>

partial_function (option) poll_done :: "(nat \<Rightarrow> bool) \<Rightarrow> nat \<Rightarrow> nat option" where
  "poll_done dones k = (if dones k = False then poll_done dones (Suc k) else Some (Suc k))"

definition mrcoordinator_main :: "(string \<Rightarrow> bool) \<Rightarrow> (nat \<Rightarrow> bool) \<Rightarrow> string list \<Rightarrow> mr_world \<Rightarrow> mr_world outcome go" where
  "mrcoordinator_main can_listen dones args w =
     (if length args < 2 then Ret Usage
      else go_bind (MakeCoordinator can_listen (tl args) 10 w) (\<lambda>w1.
        case poll_done dones 0 of None \<Rightarrow> Diverge | Some _ \<Rightarrow> Ret (Goes w1)))"

subsection \<open>diskvd reads back its configuration\<close>

definition show_bool :: "bool \<Rightarrow> string" where
  "show_bool b = (if b then ''true'' else ''false'')"

definition diskvd_args :: "diskvd_config \<Rightarrow> string list" where
  "diskvd_args c = [''-g'', itoa (dv_gid c)] @ concat (map (\<lambda>m. [''-m'', m]) (dv_masters c)) @
     concat (map (\<lambda>s. [''-s'', s]) (dv_replicas c)) @ [''-i'', itoa (dv_me c), ''-u'', show_bool (dv_unreliable c),
       ''-d'', dv_dir c, ''-r'', show_bool (dv_restart c)]"

lemma diskvd_flags_m:
  "diskvd_flags (concat (map (\<lambda>m. [''-m'', m]) ms) @ args) c = diskvd_flags args (c\<lparr>dv_masters := dv_masters c @ ms\<rparr>)"
  by (induction ms arbitrary: c) (simp_all add: diskvd_flag_def)

lemma diskvd_flags_s:
  "diskvd_flags (concat (map (\<lambda>m. [''-s'', m]) ms) @ args) c = diskvd_flags args (c\<lparr>dv_replicas := dv_replicas c @ ms\<rparr>)"
  by (induction ms arbitrary: c) (simp_all add: diskvd_flag_def)

lemma ParseBool_show [simp]: "ParseBool (show_bool b) = b"
  by (simp add: ParseBool_def show_bool_def)

lemma diskvd_reads_back:
  assumes "0 \<le> dv_gid c" "dv_gid c < 2 ^ 63" "0 \<le> dv_me c" "dv_me c < 2 ^ 63" "dv_me c < int (length (dv_replicas c))"
    "dv_masters c \<noteq> []" "dv_dir c \<noteq> []"
  shows "diskvd_main (prog # diskvd_args c) = Goes c"
proof -
  have "diskvd_flags (diskvd_args c) diskvd_default = Goes c"
    using assms by (simp add: diskvd_args_def diskvd_flags_m diskvd_flags_s diskvd_flag_def diskvd_default_def ParseInt_itoa)
  then show ?thesis using assms by (cases "dv_masters c") (simp_all add: diskvd_main_def)
qed

text \<open>
  The errors of the number parser are dropped: a group or an index that is no number counts as zero and passes the
  check for missing flags.
\<close>

lemma diskvd_accepts_malformed:
  assumes "g \<noteq> []" "\<not> in_range 48 57 (hd g)" "hd g \<noteq> CHR ''-''" "hd g \<noteq> CHR ''+''" "dir \<noteq> []"
  shows "diskvd_main [prog, ''-g'', g, ''-m'', m, ''-s'', s, ''-i'', g, ''-d'', dir] =
    Goes (diskvd_default\<lparr>dv_gid := 0, dv_masters := [m], dv_replicas := [s], dv_me := 0, dv_dir := dir\<rparr>)"
proof -
  have "ParseUint g = BadSyntax" using assms(1,2) by (cases g) (simp_all add: ParseUint_def)
  then have "ParseInt g = (0, False)" using assms(3,4) by (simp add: ParseInt_def Let_def)
  then show ?thesis using assms(5) by (simp add: diskvd_main_def diskvd_flag_def diskvd_default_def)
qed

subsection \<open>The coordinator and its callers\<close>

text \<open>The example of the lab: once a coordinator of the same user listens, the call prints the successor of 99.\<close>

lemma CallExample_after_MakeCoordinator:
  "(can_listen (coordinatorSock (mw_uid w)) \<longrightarrow>
      (\<exists>w'. MakeCoordinator can_listen files n w = Ret w' \<and> CallExample w' = Ret ''reply.Y 100'')) \<and>
   (\<not> can_listen (coordinatorSock (mw_uid w)) \<longrightarrow> MakeCoordinator can_listen files n w = Fatal ''listen error:'')"
proof -
  have "itoa 100 = ''100''" by code_simp
  then show ?thesis by (simp add: MakeCoordinator_def coord_server_def CallExample_def mr_call_def Example_def Let_def)
qed

lemma poll_done_first:
  assumes "dones m" "k \<le> m" "\<forall>j. k \<le> j \<and> j < m \<longrightarrow> \<not> dones j"
  shows "poll_done dones k = Some (Suc m)"
  using assms(2,3)
proof (induction "m - k" arbitrary: k)
  case 0
  then show ?case using assms(1) by (subst poll_done.simps) simp
next
  case (Suc x)
  then have "\<not> dones k" "poll_done dones (Suc k) = Some (Suc m)" by auto
  then show ?case by (subst poll_done.simps) simp
qed

lemma poll_done_found:
  assumes "poll_done dones k = Some n"
  shows "\<exists>j. dones j"
proof (rule poll_done.raw_induct[OF _ assms, of "\<lambda>dones _ _. \<exists>j. dones j"])
  fix pd :: "(nat \<Rightarrow> bool) \<Rightarrow> nat \<Rightarrow> nat option" and ds k n
  assume "\<And>ds k n. pd ds k = Some n \<Longrightarrow> \<exists>j. ds j" "(if ds k = False then pd ds (Suc k) else Some (Suc k)) = Some n"
  then show "\<exists>j. ds j" by (cases "ds k") auto
qed

text \<open>The coordinator of the skeleton never reports that it is done, so its program does not end.\<close>

lemma skeleton_coordinator_never_ends:
  assumes "2 \<le> length args" "can_listen (coordinatorSock (mw_uid w))"
  shows "mrcoordinator_main can_listen (\<lambda>_. Coordinator_Done) args w = Diverge"
proof -
  have "poll_done (\<lambda>_. Coordinator_Done) 0 = None"
    using poll_done_found[of "\<lambda>_. Coordinator_Done" 0] by (cases "poll_done (\<lambda>_. Coordinator_Done) 0") (auto simp: Coordinator_Done_def)
  then show ?thesis using assms by (simp add: mrcoordinator_main_def MakeCoordinator_def coord_server_def Let_def)
qed

end
