(* ===== verification/Go_Json.thy ===== *)
theory Go_Json
  imports Go_Stdlib
begin

text \<open>
  The parts of \<^verbatim>\<open>encoding/json\<close> (Go 1.22) that the sources use: quoting strings, the compact text of a value, and reading a
  text in two phases, as the package does. The scanner works on the bytes and a stack of open arrays and objects, which may be 10000 deep; it decides
  whether the text is well formed before anything is stored. Strings stay quoted in the tree that it yields, and are unquoted when they are stored. The lemmas show
  that the text of a value is read back as this value, and that quoting a string of well-formed UTF-8 is undone by unquoting.
\<close>

subsection \<open>Values and their text\<close>

text \<open>Numbers are their literal, strings the bytes between the quotes, objects their members in the order of the text.\<close>

datatype json = JNull | JBool bool | JNum string | JStr string | JArr "json list" | JObj "(string \<times> json) list"

abbreviation quote_char :: char where
  "quote_char \<equiv> CHR 0x22"

abbreviation backslash :: char where
  "backslash \<equiv> CHR 0x5C"

definition quoted :: "string \<Rightarrow> string" where
  "quoted raw = quote_char # raw @ [quote_char]"

fun jprint :: "json \<Rightarrow> string" where
  "jprint JNull = ''null''"
| "jprint (JBool b) = (if b then ''true'' else ''false'')"
| "jprint (JNum s) = s"
| "jprint (JStr raw) = quoted raw"
| "jprint (JArr xs) = ''['' @ strings_join (map jprint xs) '','' @ '']''"
| "jprint (JObj ms) = CHR ''{'' # strings_join (map (\<lambda>(k, v). quoted k @ CHR '':'' # jprint v) ms) '','' @ ''}''"

subsection \<open>Quoting strings\<close>

definition hex_digit :: "nat \<Rightarrow> char" where
  "hex_digit n = ''0123456789abcdef'' ! n"

text \<open>\<^verbatim>\<open>appendString\<close> for one rune with its bytes, with the escapes for HTML; a byte that is not well formed is replaced.\<close>

fun quote_rune :: "nat \<times> string \<Rightarrow> string" where
  "quote_rune (r, bs) =
     (if r < 0x80 then
        (if r = 0x5C \<or> r = 0x22 then backslash # bs
         else if r = 0x08 then [backslash, CHR ''b'']
         else if r = 0x0C then [backslash, CHR ''f'']
         else if r = 0x0A then [backslash, CHR ''n'']
         else if r = 0x0D then [backslash, CHR ''r'']
         else if r = 0x09 then [backslash, CHR ''t'']
         else if r < 0x20 \<or> r = 0x3C \<or> r = 0x3E \<or> r = 0x26 then backslash # ''u00'' @ [hex_digit (r div 16), hex_digit (r mod 16)]
         else bs)
      else if r = 0xFFFD \<and> length bs = 1 then backslash # ''ufffd''
      else if r = 0x2028 \<or> r = 0x2029 then backslash # ''u202'' @ [hex_digit (r mod 16)]
      else bs)"

declare quote_rune.simps [simp del]

definition quote :: "string \<Rightarrow> string" where
  "quote s = concat (map quote_rune (runes s))"

text \<open>\<^verbatim>\<open>utf8.EncodeRune\<close>\<close>

definition encode_rune :: "nat \<Rightarrow> string" where
  "encode_rune r0 = (let r = (if 0x10FFFF < r0 \<or> 0xD800 \<le> r0 \<and> r0 \<le> 0xDFFF then 0xFFFD else r0) in
     map char_of
      (if r \<le> 0x7F then [r]
       else if r \<le> 0x7FF then [0xC0 + r div 64, 0x80 + r mod 64]
       else if r \<le> 0xFFFF then [0xE0 + r div 4096, 0x80 + r div 64 mod 64, 0x80 + r mod 64]
       else [0xF0 + r div 262144, 0x80 + r div 4096 mod 64, 0x80 + r div 64 mod 64, 0x80 + r mod 64]))"

definition hex_value :: "char \<Rightarrow> nat option" where
  "hex_value c =
     (if in_range 48 57 c then Some (of_char c - 48)
      else if in_range 97 102 c then Some (of_char c - 87)
      else if in_range 65 70 c then Some (of_char c - 55)
      else None)"

text \<open>\<^verbatim>\<open>getu4\<close>: the number of an escape with four hexadecimal digits at the start of the string, if there is one.\<close>

definition getu4 :: "string \<Rightarrow> nat option" where
  "getu4 s =
     (if length s < 6 \<or> s ! 0 \<noteq> backslash \<or> s ! 1 \<noteq> CHR ''u'' then None
      else case map hex_value (take 4 (drop 2 s)) of
        [Some a, Some b, Some c, Some d] \<Rightarrow> Some (4096 * a + 256 * b + 16 * c + d)
      | _ \<Rightarrow> None)"

definition is_surrogate :: "nat \<Rightarrow> bool" where
  "is_surrogate r \<longleftrightarrow> 0xD800 \<le> r \<and> r < 0xE000"

text \<open>\<^verbatim>\<open>utf16.DecodeRune\<close> on the rune of an escape and that of the escape that follows; \<open>None\<close> is the replacement character.\<close>

definition surrogate_pair :: "nat \<Rightarrow> nat option \<Rightarrow> nat option" where
  "surrogate_pair r1 r2 = (case r2 of None \<Rightarrow> None
    | Some r \<Rightarrow> if 0xD800 \<le> r1 \<and> r1 < 0xDC00 \<and> 0xDC00 \<le> r \<and> r < 0xE000 then Some ((r1 - 0xD800) * 1024 + (r - 0xDC00) + 0x10000) else None)"

definition simple_escape :: "char \<Rightarrow> char option" where
  "simple_escape c =
     (if c = quote_char \<or> c = backslash \<or> c = CHR ''/'' \<or> c = CHR 0x27 then Some c
      else if c = CHR ''b'' then Some (CHR 0x08)
      else if c = CHR ''f'' then Some (CHR 0x0C)
      else if c = CHR ''n'' then Some (CHR 0x0A)
      else if c = CHR ''r'' then Some (CHR 0x0D)
      else if c = CHR ''t'' then Some (CHR 0x09)
      else None)"

text \<open>\<^verbatim>\<open>unquoteBytes\<close> on the bytes between the quotes.\<close>

function unquote :: "string \<Rightarrow> string option" where
  "unquote s = (case s of [] \<Rightarrow> Some []
    | c # s1 \<Rightarrow>
      if c = backslash then (case s1 of [] \<Rightarrow> None
        | e # s2 \<Rightarrow> (case simple_escape e of
            Some x \<Rightarrow> map_option (Cons x) (unquote s2)
          | None \<Rightarrow> if e \<noteq> CHR ''u'' then None
             else (case getu4 s of None \<Rightarrow> None
               | Some r \<Rightarrow> if is_surrogate r then
                   (case surrogate_pair r (getu4 (drop 6 s)) of
                      Some d \<Rightarrow> map_option ((@) (encode_rune d)) (unquote (drop 12 s))
                    | None \<Rightarrow> map_option ((@) (encode_rune 0xFFFD)) (unquote (drop 6 s)))
                 else map_option ((@) (encode_rune r)) (unquote (drop 6 s)))))
      else if c = quote_char \<or> of_char c < (0x20 :: nat) then None
      else if of_char c < (0x80 :: nat) then map_option (Cons c) (unquote s1)
      else map_option ((@) (encode_rune (fst (decode_rune s)))) (unquote (drop (snd (decode_rune s)) s)))"
  by auto
termination
  by (relation "measure length") (auto simp: decode_rune_width intro!: Nat.diff_less)

declare unquote.simps [simp del]

subsection \<open>The scanner\<close>

datatype jtok = TNull | TTrue | TFalse | TNum string | TStr string | TLbrack | TRbrack | TLbrace | TRbrace | TColon | TComma

text \<open>The states inside a number (\<^verbatim>\<open>stateNeg\<close>, \<^verbatim>\<open>state0\<close>, \<^verbatim>\<open>state1\<close>, \<^verbatim>\<open>stateDot\<close>, \<^verbatim>\<open>stateDot0\<close>, \<^verbatim>\<open>stateE\<close>, \<^verbatim>\<open>stateESign\<close>, \<^verbatim>\<open>stateE0\<close>).\<close>

datatype nstate = NNeg | NZero | NInt | NDot | NFrac | NE | NESign | NExp

definition exp_char :: "char \<Rightarrow> bool" where
  "exp_char c \<longleftrightarrow> c = CHR ''e'' \<or> c = CHR ''E''"

abbreviation digit :: "char \<Rightarrow> bool" where
  "digit \<equiv> in_range 48 57"

fun nstep :: "nstate \<Rightarrow> char \<Rightarrow> nstate option" where
  "nstep NNeg c = (if c = CHR ''0'' then Some NZero else if digit c then Some NInt else None)"
| "nstep NZero c = (if c = CHR ''.'' then Some NDot else if exp_char c then Some NE else None)"
| "nstep NInt c = (if digit c then Some NInt else if c = CHR ''.'' then Some NDot else if exp_char c then Some NE else None)"
| "nstep NDot c = (if digit c then Some NFrac else None)"
| "nstep NFrac c = (if digit c then Some NFrac else if exp_char c then Some NE else None)"
| "nstep NE c = (if c = CHR ''+'' \<or> c = CHR ''-'' then Some NESign else if digit c then Some NExp else None)"
| "nstep NESign c = (if digit c then Some NExp else None)"
| "nstep NExp c = (if digit c then Some NExp else None)"

definition num_end :: "nstate \<Rightarrow> bool" where
  "num_end st \<longleftrightarrow> st \<in> {NZero, NInt, NFrac, NExp}"

text \<open>Between tokens, in a string, after a backslash, with so many hexadecimal digits to come, in a number, or with the rest of a literal to come.\<close>

datatype lmode = LStart | LStr string | LEsc string | LHex nat string | LNum nstate string | LLit string jtok

definition white :: "char \<Rightarrow> bool" where
  "white c \<longleftrightarrow> c = CHR '' '' \<or> c = CHR 0x09 \<or> c = CHR 0x0D \<or> c = CHR 0x0A"

definition lstart :: "char \<Rightarrow> (lmode \<times> jtok list) option" where
  "lstart c =
     (if white c then Some (LStart, [])
      else if c = CHR ''['' then Some (LStart, [TLbrack])
      else if c = CHR '']'' then Some (LStart, [TRbrack])
      else if c = CHR ''{'' then Some (LStart, [TLbrace])
      else if c = CHR ''}'' then Some (LStart, [TRbrace])
      else if c = CHR '':'' then Some (LStart, [TColon])
      else if c = CHR '','' then Some (LStart, [TComma])
      else if c = quote_char then Some (LStr [], [])
      else if c = CHR ''-'' then Some (LNum NNeg [c], [])
      else if c = CHR ''0'' then Some (LNum NZero [c], [])
      else if digit c then Some (LNum NInt [c], [])
      else if c = CHR ''n'' then Some (LLit ''ull'' TNull, [])
      else if c = CHR ''t'' then Some (LLit ''rue'' TTrue, [])
      else if c = CHR ''f'' then Some (LLit ''alse'' TFalse, [])
      else None)"

fun lstep :: "lmode \<Rightarrow> char \<Rightarrow> (lmode \<times> jtok list) option" where
  "lstep LStart c = lstart c"
| "lstep (LStr raw) c =
     (if c = quote_char then Some (LStart, [TStr raw])
      else if c = backslash then Some (LEsc (raw @ [c]), [])
      else if of_char c < (0x20 :: nat) then None
      else Some (LStr (raw @ [c]), []))"
| "lstep (LEsc raw) c =
     (if c \<in> set ''bfnrt/'' \<or> c = backslash \<or> c = quote_char then Some (LStr (raw @ [c]), [])
      else if c = CHR ''u'' then Some (LHex 4 (raw @ [c]), [])
      else None)"
| "lstep (LHex n raw) c =
     (if hex_value c = None then None else Some (if n = 1 then LStr (raw @ [c]) else LHex (n - 1) (raw @ [c]), []))"
| "lstep (LNum st buf) c = (case nstep st c of
     Some st' \<Rightarrow> Some (LNum st' (buf @ [c]), [])
   | None \<Rightarrow> if num_end st then map_option (map_prod id (Cons (TNum buf))) (lstart c) else None)"
| "lstep (LLit [] t) c = None"
| "lstep (LLit (x # xs) t) c =
     (if c \<noteq> x then None else if xs = [] then Some (LStart, [t]) else Some (LLit xs t, []))"

fun lend :: "lmode \<Rightarrow> jtok list option" where
  "lend LStart = Some []"
| "lend (LNum st buf) = (if num_end st then Some [TNum buf] else None)"
| "lend _ = None"

fun lex_from :: "lmode \<Rightarrow> string \<Rightarrow> jtok list option" where
  "lex_from m [] = lend m"
| "lex_from m (c # s) = (case lstep m c of None \<Rightarrow> None | Some (m', ts) \<Rightarrow> map_option ((@) ts) (lex_from m' s))"

text \<open>
  The stack: an open array with the values before the current one, or an open object with the members before the current one and its
  key, the last first.
\<close>

datatype frame = InArr "json list" | InObj "(string \<times> json) list" string

datatype pmode = PValue | PFirst | PKeyFirst | PKey "(string \<times> json) list" | PColon "(string \<times> json) list" string | PEnd json

definition max_depth :: nat where
  "max_depth = 10000"

fun value_step :: "frame list \<Rightarrow> jtok \<Rightarrow> (pmode \<times> frame list) option" where
  "value_step fs TNull = Some (PEnd JNull, fs)"
| "value_step fs TTrue = Some (PEnd (JBool True), fs)"
| "value_step fs TFalse = Some (PEnd (JBool False), fs)"
| "value_step fs (TNum s) = Some (PEnd (JNum s), fs)"
| "value_step fs (TStr raw) = Some (PEnd (JStr raw), fs)"
| "value_step fs TLbrack = (if length fs < max_depth then Some (PFirst, InArr [] # fs) else None)"
| "value_step fs TLbrace = (if length fs < max_depth then Some (PKeyFirst, fs) else None)"
| "value_step fs _ = None"

fun pstep :: "pmode \<Rightarrow> frame list \<Rightarrow> jtok \<Rightarrow> (pmode \<times> frame list) option" where
  "pstep PValue fs t = value_step fs t"
| "pstep PFirst fs t = (if t = TRbrack then Some (PEnd (JArr []), tl fs) else value_step fs t)"
| "pstep PKeyFirst fs t = (case t of TStr k \<Rightarrow> Some (PColon [] k, fs) | TRbrace \<Rightarrow> Some (PEnd (JObj []), fs) | _ \<Rightarrow> None)"
| "pstep (PKey ms) fs t = (case t of TStr k \<Rightarrow> Some (PColon ms k, fs) | _ \<Rightarrow> None)"
| "pstep (PColon ms k) fs t = (if t = TColon then Some (PValue, InObj ms k # fs) else None)"
| "pstep (PEnd v) (InArr xs # fs) t =
     (if t = TComma then Some (PValue, InArr (v # xs) # fs)
      else if t = TRbrack then Some (PEnd (JArr (rev (v # xs))), fs) else None)"
| "pstep (PEnd v) (InObj ms k # fs) t =
     (if t = TComma then Some (PKey ((k, v) # ms), fs)
      else if t = TRbrace then Some (PEnd (JObj (rev ((k, v) # ms))), fs) else None)"
| "pstep (PEnd v) [] t = None"

fun parse_from :: "pmode \<Rightarrow> frame list \<Rightarrow> jtok list \<Rightarrow> json option" where
  "parse_from m fs [] = (case (m, fs) of (PEnd v, []) \<Rightarrow> Some v | _ \<Rightarrow> None)"
| "parse_from m fs (t # ts) = (case pstep m fs t of None \<Rightarrow> None | Some (m', fs') \<Rightarrow> parse_from m' fs' ts)"

definition jparse :: "string \<Rightarrow> json option" where
  "jparse s = Option.bind (lex_from LStart s) (parse_from PValue [])"

subsection \<open>Well-formed UTF-8\<close>

definition scalar :: "nat \<Rightarrow> bool" where
  "scalar r \<longleftrightarrow> r \<le> 0x10FFFF \<and> \<not> is_surrogate r"

text \<open>The string is the encoding of some scalar values.\<close>

definition utf8 :: "string \<Rightarrow> bool" where
  "utf8 s \<longleftrightarrow> (\<exists>rs. list_all scalar rs \<and> s = concat (map encode_rune rs))"

lemma of_char_of_byte: "n < 256 \<Longrightarrow> of_char (char_of n) = (n :: nat)"
  by (simp add: of_char_of)

text \<open>The four lengths of an encoding, each with the bits of the bytes.\<close>

lemma scalar_cases:
  assumes "scalar r"
  obtains (one) "r < 0x80" "encode_rune r = [char_of r]"
  | (two) x y where "r = 64 * x + y" "y < 64" "2 \<le> x" "x < 32" "encode_rune r = [char_of (0xC0 + x), char_of (0x80 + y)]"
  | (three) x y z where "r = 4096 * x + 64 * y + z" "x < 16" "y < 64" "z < 64" "x = 0 \<longrightarrow> 32 \<le> y" "x = 13 \<longrightarrow> y < 32"
      "encode_rune r = [char_of (0xE0 + x), char_of (0x80 + y), char_of (0x80 + z)]"
  | (four) u x y z where "r = 262144 * u + 4096 * x + 64 * y + z" "u < 5" "x < 64" "y < 64" "z < 64" "u = 0 \<longrightarrow> 16 \<le> x" "u = 4 \<longrightarrow> x < 16"
      "encode_rune r = [char_of (0xF0 + u), char_of (0x80 + x), char_of (0x80 + y), char_of (0x80 + z)]"
proof -
  have s: "\<not> (0x10FFFF < r \<or> 0xD800 \<le> r \<and> r \<le> 0xDFFF)" using assms by (auto simp: scalar_def is_surrogate_def)
  consider "r < 0x80" | "0x80 \<le> r" "r \<le> 0x7FF" | "0x7FF < r" "r \<le> 0xFFFF" | "0xFFFF < r" by linarith
  then show thesis
  proof cases
    case 1
    then show ?thesis using one by (simp add: encode_rune_def)
  next
    case 2
    then show ?thesis using s by (intro two[of "r div 64" "r mod 64"]) (auto simp: encode_rune_def Let_def)
  next
    case 3
    define a x where "a = r div 64" and "x = a div 64"
    have a: "r = 64 * a + r mod 64" "a = 64 * x + a mod 64" "r mod 64 < 64" "a mod 64 < 64" by (simp_all add: a_def x_def)
    then have b: "x = 0 \<longrightarrow> 32 \<le> a mod 64" "x = 13 \<longrightarrow> a mod 64 < 32" "x < 16" using 3 s by linarith+
    have d: "r div 4096 = x" by (simp add: a_def x_def div_mult2_eq[symmetric])
    have e: "r = 4096 * x + 64 * (a mod 64) + r mod 64" using a by linarith
    have "encode_rune r = [char_of (0xE0 + x), char_of (0x80 + a mod 64), char_of (0x80 + r mod 64)]"
      using 3 s unfolding a_def d[symmetric] by (auto simp: encode_rune_def Let_def)
    then show ?thesis by (rule three[OF e b(3) a(4) a(3) b(1,2)])
  next
    case 4
    define a b u where "a = r div 64" and "b = a div 64" and "u = b div 64"
    have a: "r = 64 * a + r mod 64" "a = 64 * b + a mod 64" "b = 64 * u + b mod 64" "r mod 64 < 64" "a mod 64 < 64" "b mod 64 < 64"
      by (simp_all add: a_def b_def u_def)
    then have b: "u = 0 \<longrightarrow> 16 \<le> b mod 64" "u = 4 \<longrightarrow> b mod 64 < 16" "u < 5" using 4 s by linarith+
    have d: "r div 262144 = u" "r div 4096 = b" by (simp_all add: a_def b_def u_def div_mult2_eq[symmetric])
    have e: "r = 262144 * u + 4096 * (b mod 64) + 64 * (a mod 64) + r mod 64" using a by linarith
    have "encode_rune r = [char_of (0xF0 + u), char_of (0x80 + b mod 64), char_of (0x80 + a mod 64), char_of (0x80 + r mod 64)]"
      using 4 s unfolding a_def d[symmetric] by (auto simp: encode_rune_def Let_def)
    then show ?thesis by (rule four[OF e b(3) a(6,5,4) b(1,2)])
  qed
qed

lemma low_bits:
  fixes x :: nat
  shows "x < 32 \<Longrightarrow> (192 + x) mod 32 = x" "x < 64 \<Longrightarrow> (128 + x) mod 64 = x" "x < 16 \<Longrightarrow> (224 + x) mod 16 = x" "x < 8 \<Longrightarrow> (240 + x) mod 8 = x"
  using mod_mult_self3[of 6 32 x] mod_mult_self3[of 2 64 x] mod_mult_self3[of 14 16 x] mod_mult_self3[of 30 8 x] by simp_all

lemma decode_encode:
  assumes "scalar r"
  shows "decode_rune (encode_rune r @ t) = (r, length (encode_rune r))"
  using assms
proof (cases rule: scalar_cases)
  case one
  then show ?thesis by (simp add: decode_rune_def of_char_of_byte)
next
  case (two x y)
  then show ?thesis by (simp add: decode_rune_def of_char_of_byte in_range_def payload_def low_bits)
next
  case (three x y z)
  then show ?thesis by (auto simp: decode_rune_def of_char_of_byte in_range_def payload_def low_bits)
next
  case (four u x y z)
  then show ?thesis by (auto simp: decode_rune_def of_char_of_byte in_range_def payload_def low_bits)
qed


lemma encode_rune_nonempty [simp]: "encode_rune r \<noteq> []"
  by (simp add: encode_rune_def Let_def)

lemma runes_encode: "scalar r \<Longrightarrow> runes (encode_rune r @ t) = (r, encode_rune r) # runes t"
  by (subst runes.simps) (simp add: decode_encode)

lemma runes_Nil [simp]: "runes [] = []"
  by (simp add: runes.simps)

lemma runes_encoded: "list_all scalar rs \<Longrightarrow> runes (concat (map encode_rune rs)) = map (\<lambda>r. (r, encode_rune r)) rs"
  by (induction rs) (simp_all add: runes_encode)

subsection \<open>Unquoting undoes quoting\<close>

lemma hex_value_digit: "n < 16 \<Longrightarrow> hex_value (hex_digit n) = Some n"
proof -
  assume "n < 16"
  then have "n \<in> set [0..<16]" by simp
  then show ?thesis unfolding upt_rec[of 0 16] by (auto simp: upt_rec hex_value_def hex_digit_def in_range_def)
qed

lemma getu4_escape:
  "a < 16 \<Longrightarrow> b < 16 \<Longrightarrow> c < 16 \<Longrightarrow> d < 16 \<Longrightarrow>
    getu4 (backslash # CHR ''u'' # hex_digit a # hex_digit b # hex_digit c # hex_digit d # t) = Some (4096 * a + 256 * b + 16 * c + d)"
  by (simp add: getu4_def hex_value_digit numeral_2_eq_2)

lemma unquote_escape:
  assumes "a < 16" "b < 16" "c < 16" "d < 16" "\<not> is_surrogate (4096 * a + 256 * b + 16 * c + d)"
  shows "unquote (backslash # CHR ''u'' # hex_digit a # hex_digit b # hex_digit c # hex_digit d # t) =
    map_option ((@) (encode_rune (4096 * a + 256 * b + 16 * c + d))) (unquote t)"
  using assms by (subst unquote.simps) (simp add: getu4_escape simple_escape_def)

lemma unquote_simple: "simple_escape e = Some x \<Longrightarrow> unquote (backslash # e # t) = map_option (Cons x) (unquote t)"
  by (subst unquote.simps) simp

lemma unquote_plain: "c \<noteq> backslash \<Longrightarrow> c \<noteq> quote_char \<Longrightarrow> 0x20 \<le> (of_char c :: nat) \<Longrightarrow> of_char c < (0x80 :: nat) \<Longrightarrow>
    unquote (c # t) = map_option (Cons c) (unquote t)"
  by (subst unquote.simps) simp

lemma unquote_multibyte:
  assumes "scalar r" "0x80 \<le> r"
  shows "unquote (encode_rune r @ t) = map_option ((@) (encode_rune r)) (unquote t)"
proof -
  obtain c s where c: "encode_rune r = c # s" "0x80 \<le> (of_char c :: nat)"
    using assms(1) by (cases rule: scalar_cases) (use assms(2) in \<open>auto simp: of_char_of_byte\<close>)
  then have "c \<noteq> backslash" "c \<noteq> quote_char" "\<not> of_char c < (0x20 :: nat)" "\<not> of_char c < (0x80 :: nat)" by auto
  then have "unquote (c # s @ t) = map_option ((@) (encode_rune (fst (decode_rune (c # s @ t))))) (unquote (drop (snd (decode_rune (c # s @ t))) (c # s @ t)))"
    by (subst unquote.simps) simp
  then show ?thesis using decode_encode[OF assms(1), of t] c(1) by simp
qed

lemma append_singleton: "(@) [x] = Cons x"
  by (simp add: fun_eq_iff)

lemma append_fun: "(@) (x # xs) = (\<lambda>y. x # xs @ y)" "(@) (xs @ ys) = (\<lambda>z. xs @ ys @ z)"
  by (simp_all add: fun_eq_iff)

lemma encode_ascii: "r < 0x80 \<Longrightarrow> encode_rune r = [char_of r]"
  by (simp add: encode_rune_def)

text \<open>The forms that a quoted rune can have.\<close>

lemma quote_rune_cases:
  assumes "scalar r"
  obtains (simple) e where "simple_escape e = Some (char_of r)" "e \<in> set ''bfnrt'' \<or> e = backslash \<or> e = quote_char" "encode_rune r = [char_of r]"
      "quote_rune (r, encode_rune r) = [backslash, e]"
  | (hex) a b c d where "a < 16" "b < 16" "c < 16" "d < 16" "r = 4096 * a + 256 * b + 16 * c + d"
      "quote_rune (r, encode_rune r) = backslash # CHR ''u'' # map hex_digit [a, b, c, d]"
  | (plain) "r < 0x80" "char_of r \<noteq> backslash" "char_of r \<noteq> quote_char" "0x20 \<le> r" "quote_rune (r, encode_rune r) = encode_rune r"
  | (bytes) "0x80 \<le> r" "quote_rune (r, encode_rune r) = encode_rune r"
proof -
  have inj: "char_of r = CHR 0x5C \<Longrightarrow> r = 0x5C" "char_of r = CHR 0x22 \<Longrightarrow> r = 0x22" if "r < 0x80"
    using of_char_of_byte[of r] that by auto
  have h: "hex_digit 0 = CHR ''0''" "hex_digit 2 = CHR ''2''" "hex_digit 8 = CHR ''8''" "hex_digit 9 = CHR ''9''" by (simp_all add: hex_digit_def)
  have ch: "char_of (0x5C :: nat) = backslash" "char_of (0x22 :: nat) = quote_char" "char_of (0x08 :: nat) = CHR 0x08" "char_of (0x0C :: nat) = CHR 0x0C"
    "char_of (0x0A :: nat) = CHR 0x0A" "char_of (0x0D :: nat) = CHR 0x0D" "char_of (0x09 :: nat) = CHR 0x09" by code_simp+
  consider "r < 0x80" "r \<in> {0x5C, 0x22, 0x08, 0x0C, 0x0A, 0x0D, 0x09}"
    | "r < 0x80" "r \<notin> {0x5C, 0x22, 0x08, 0x0C, 0x0A, 0x0D, 0x09}" "r < 0x20 \<or> r = 0x3C \<or> r = 0x3E \<or> r = 0x26"
    | "r < 0x80" "r \<notin> {0x5C, 0x22, 0x08, 0x0C, 0x0A, 0x0D, 0x09}" "\<not> (r < 0x20 \<or> r = 0x3C \<or> r = 0x3E \<or> r = 0x26)"
    | "r = 0x2028 \<or> r = 0x2029" | "0x80 \<le> r" "r \<noteq> 0x2028" "r \<noteq> 0x2029" by linarith
  then show thesis
  proof cases
    case 1
    then have q: "quote_rune (r, encode_rune r) = [backslash, if r = 0x5C then backslash else if r = 0x22 then quote_char else if r = 0x08 then CHR ''b''
        else if r = 0x0C then CHR ''f'' else if r = 0x0A then CHR ''n'' else if r = 0x0D then CHR ''r'' else CHR ''t'']"
      using ch by (auto simp: quote_rune.simps encode_ascii)
    show ?thesis by (rule simple[OF _ _ encode_ascii[OF 1(1)] q]) (use 1(2) ch in \<open>auto simp: simple_escape_def\<close>)
  next
    case 2
    then show ?thesis using h by (intro hex[of 0 0 "r div 16" "r mod 16"]) (auto simp: quote_rune.simps)
  next
    case 3
    then show ?thesis using inj by (intro plain) (auto simp: encode_ascii quote_rune.simps)
  next
    case 4
    then show ?thesis using h by (intro hex[of 2 0 2 "r mod 16"]) (auto simp: quote_rune.simps encode_rune_def)
  next
    case 5
    moreover have "\<not> (r = 0xFFFD \<and> length (encode_rune r) = 1)" by (simp add: encode_rune_def)
    ultimately show ?thesis by (intro bytes) (auto simp: quote_rune.simps)
  qed
qed

lemma unquote_quote_rune:
  assumes "scalar r"
  shows "unquote (quote_rune (r, encode_rune r) @ t) = map_option ((@) (encode_rune r)) (unquote t)"
  using assms
proof (cases rule: quote_rune_cases)
  case (simple e)
  then show ?thesis by (simp add: unquote_simple append_singleton)
next
  case (hex a b c d)
  then show ?thesis using assms by (simp add: unquote_escape scalar_def)
next
  case plain
  then show ?thesis by (simp add: unquote_plain encode_ascii of_char_of_byte append_singleton)
next
  case bytes
  then show ?thesis using assms by (simp add: unquote_multibyte)
qed

lemma unquote_Nil [simp]: "unquote [] = Some []"
  by (simp add: unquote.simps)

lemma unquote_quote:
  assumes "utf8 s"
  shows "unquote (quote s) = Some s"
proof -
  obtain rs where rs: "list_all scalar rs" "s = concat (map encode_rune rs)" using assms by (auto simp: utf8_def)
  have "unquote (concat (map (\<lambda>r. quote_rune (r, encode_rune r)) rs)) = Some (concat (map encode_rune rs))"
    using rs(1) by (induction rs) (simp_all add: unquote_quote_rune)
  then show ?thesis using rs by (simp add: quote_def runes_encoded o_def)
qed

subsection \<open>The text of a value is read back\<close>

text \<open>Bytes that the scanner passes over inside a string.\<close>

definition raw_ok :: "string \<Rightarrow> bool" where
  "raw_ok raw \<longleftrightarrow> (\<forall>b t. lex_from (LStr b) (raw @ t) = lex_from (LStr (b @ raw)) t)"

lemma raw_ok_append: "raw_ok r1 \<Longrightarrow> raw_ok r2 \<Longrightarrow> raw_ok (r1 @ r2)"
  by (simp add: raw_ok_def)

lemma map_option_append_Nil [simp]: "map_option ((@) []) x = x"
  by (cases x) auto

lemma raw_ok_bytes: "\<forall>c\<in>set s. c \<noteq> backslash \<and> c \<noteq> quote_char \<and> 0x20 \<le> (of_char c :: nat) \<Longrightarrow> raw_ok s"
  unfolding raw_ok_def
proof (induction s)
  case (Cons c s)
  then have "lex_from (LStr (b @ [c])) (s @ t) = lex_from (LStr (b @ c # s)) t" for b t by (metis append.assoc append_Cons append_Nil list.set_intros(2))
  then show ?case using Cons.prems by simp
qed simp

lemma raw_ok_quote_rune:
  assumes "scalar r"
  shows "raw_ok (quote_rune (r, encode_rune r))"
  using assms
proof (cases rule: quote_rune_cases)
  case (simple e)
  then show ?thesis by (auto simp: raw_ok_def)
next
  case (hex a b c d)
  then show ?thesis by (simp add: raw_ok_def hex_value_digit)
next
  case plain
  then show ?thesis by (intro raw_ok_bytes) (simp add: encode_ascii of_char_of_byte)
next
  case bytes
  have "0x80 \<le> (of_char c :: nat)" if "c \<in> set (encode_rune r)" for c
    using assms by (cases rule: scalar_cases) (use that bytes(1) in \<open>auto simp: of_char_of_byte\<close>)
  then show ?thesis unfolding bytes(2) by (intro raw_ok_bytes) force
qed

lemma raw_ok_quote:
  assumes "utf8 s"
  shows "raw_ok (quote s)"
proof -
  obtain rs where rs: "list_all scalar rs" "s = concat (map encode_rune rs)" using assms by (auto simp: utf8_def)
  have "raw_ok (concat (map (\<lambda>r. quote_rune (r, encode_rune r)) rs))"
    using rs(1) by (induction rs) (auto simp: raw_ok_bytes intro: raw_ok_append raw_ok_quote_rune)
  then show ?thesis using rs by (simp add: quote_def runes_encoded o_def)
qed

lemma lex_quoted: "raw_ok raw \<Longrightarrow> lex_from LStart (quoted raw @ t) = map_option (Cons (TStr raw)) (lex_from LStart t)"
  by (simp add: quoted_def raw_ok_def lstart_def white_def append_singleton)

text \<open>What may follow a value, and numbers that the scanner accepts before it.\<close>

definition delimited :: "string \<Rightarrow> bool" where
  "delimited t \<longleftrightarrow> t = [] \<or> hd t \<in> {CHR '','', CHR '']'', CHR ''}''}"

definition num_ok :: "string \<Rightarrow> bool" where
  "num_ok s \<longleftrightarrow> (\<forall>t. delimited t \<longrightarrow> lex_from LStart (s @ t) = map_option (Cons (TNum s)) (lex_from LStart t))"

lemma lex_num_end:
  assumes "num_end st" "delimited t"
  shows "lex_from (LNum st buf) t = map_option (Cons (TNum buf)) (lex_from LStart t)"
proof (cases t)
  case (Cons c s)
  then have c: "c = CHR '','' \<or> c = CHR '']'' \<or> c = CHR ''}''" using assms(2) by (simp add: delimited_def)
  then have "nstep st c = None" by (cases st) (auto simp: exp_char_def in_range_def)
  moreover obtain k where "lstart c = Some (LStart, [k])" using c by (auto simp: lstart_def white_def)
  ultimately show ?thesis using Cons assms(1) by (cases "lex_from LStart s") simp_all
qed (use assms in simp)

lemma lex_num_digits: "list_all digit s \<Longrightarrow> lex_from (LNum NInt buf) (s @ t) = lex_from (LNum NInt (buf @ s)) t"
  by (induction s arbitrary: buf) simp_all

lemma utoa_digit_all: "list_all digit (utoa n)"
  using digit_in_range utoa_digits by (fastforce simp: list_all_iff)

lemma utoa_hd_zero: "0 < n \<Longrightarrow> hd (utoa n) \<noteq> CHR ''0''"
proof (induction n rule: utoa.induct)
  case (1 n)
  show ?case
  proof (cases "n < 10")
    case True
    have "of_char (digit_char n) = (48 + n :: nat)" using True by (rule of_char_digit)
    then have "digit_char n = CHR ''0'' \<longrightarrow> of_char (CHR ''0'') = (48 + n :: nat)" by metis
    then have "digit_char n \<noteq> CHR ''0''" using 1(2) by (simp del: digit_char.simps)
    then show ?thesis using True by (subst utoa.simps) (simp del: digit_char.simps)
  next
    case False
    then show ?thesis using 1(1) by (subst utoa.simps) (simp del: digit_char.simps)
  qed
qed

lemma lex_utoa:
  assumes "m = LStart \<and> buf = [] \<or> m = LNum NNeg buf"
  shows "\<exists>st. num_end st \<and> (\<forall>t. lex_from m (utoa n @ t) = lex_from (LNum st (buf @ utoa n)) t)"
proof -
  obtain c s where cs: "utoa n = c # s" using utoa_nonempty by (meson list.exhaust)
  have d: "digit c" "list_all digit s" using utoa_digit_all[of n] cs by simp_all
  show ?thesis
  proof (cases "n = 0")
    case True
    moreover have "utoa 0 = ''0''" by code_simp
    ultimately have "c = CHR ''0''" "s = []" using cs by simp_all
    then show ?thesis using cs assms by (intro exI[of _ NZero]) (auto simp: num_end_def lstart_def white_def)
  next
    case False
    then have "c \<noteq> CHR ''0''" using utoa_hd_zero[of n] cs by simp
    moreover have "\<not> white c" "c \<notin> set ''[]{}:,-''" "c \<noteq> quote_char" using d(1) by (auto simp: in_range_def white_def)
    ultimately have "lex_from m (utoa n @ t) = lex_from (LNum NInt (buf @ [c])) (s @ t)" for t
      using d(1) assms unfolding cs by (auto simp: lstart_def)
    then show ?thesis using d(2) cs by (intro exI[of _ NInt]) (simp add: num_end_def lex_num_digits)
  qed
qed

lemma num_ok_itoa: "num_ok (itoa i)"
proof (cases "i < 0")
  case True
  then have i: "itoa i = CHR ''-'' # utoa (nat (- i))" by (simp add: itoa_def)
  obtain st where "num_end st" "\<forall>t. lex_from (LNum NNeg ''-'') (utoa (nat (- i)) @ t) = lex_from (LNum st (''-'' @ utoa (nat (- i)))) t"
    using lex_utoa by blast
  then show ?thesis unfolding i num_ok_def by (simp add: lstart_def white_def lex_num_end)
next
  case False
  obtain st where "num_end st" "\<forall>t. lex_from LStart (utoa (nat i) @ t) = lex_from (LNum st ([] @ utoa (nat i))) t"
    using lex_utoa by blast
  then show ?thesis using False by (simp add: num_ok_def itoa_def lex_num_end)
qed

text \<open>The tokens of a value.\<close>

fun tok_join :: "jtok list list \<Rightarrow> jtok list" where
  "tok_join [] = []"
| "tok_join [x] = x"
| "tok_join (x # xs) = x @ TComma # tok_join xs"

fun toks :: "json \<Rightarrow> jtok list" where
  "toks JNull = [TNull]"
| "toks (JBool b) = [if b then TTrue else TFalse]"
| "toks (JNum s) = [TNum s]"
| "toks (JStr raw) = [TStr raw]"
| "toks (JArr xs) = TLbrack # tok_join (map toks xs) @ [TRbrack]"
| "toks (JObj ms) = TLbrace # tok_join (map (\<lambda>(k, v). TStr k # TColon # toks v) ms) @ [TRbrace]"

fun json_ok :: "json \<Rightarrow> bool" where
  "json_ok (JNum s) \<longleftrightarrow> num_ok s"
| "json_ok (JStr raw) \<longleftrightarrow> raw_ok raw"
| "json_ok (JArr xs) \<longleftrightarrow> (\<forall>x\<in>set xs. json_ok x)"
| "json_ok (JObj ms) \<longleftrightarrow> (\<forall>(k, v)\<in>set ms. raw_ok k \<and> json_ok v)"
| "json_ok _ \<longleftrightarrow> True"

definition lexes_as :: "string \<Rightarrow> jtok list \<Rightarrow> bool" where
  "lexes_as s ts \<longleftrightarrow> (\<forall>t. delimited t \<longrightarrow> lex_from LStart (s @ t) = map_option ((@) ts) (lex_from LStart t))"

lemma lexes_as_append: "delimited t \<Longrightarrow> lexes_as s ts \<Longrightarrow> lex_from LStart (s @ t) = map_option ((@) ts) (lex_from LStart t)"
  by (simp add: lexes_as_def)

lemma lex_comma: "lex_from LStart (CHR '','' # t) = map_option (Cons TComma) (lex_from LStart t)"
  by (simp add: lstart_def white_def append_singleton)

lemma delimited_simps [simp]: "delimited (CHR '','' # t)" "delimited (CHR '']'' # t)" "delimited (CHR ''}'' # t)" "delimited []"
  by (simp_all add: delimited_def)

lemma lexes_as_join:
  "\<forall>x\<in>set xs. lexes_as (f x) (g x) \<Longrightarrow> lexes_as (strings_join (map f xs) '','') (tok_join (map g xs))"
proof (induction xs rule: induct_list012)
  case (3 x y zs)
  then have x: "lexes_as (f x) (g x)" and r: "lexes_as (strings_join (map f (y # zs)) '','') (tok_join (map g (y # zs)))" by simp_all
  show ?case
    unfolding lexes_as_def
  proof (intro allI impI)
    fix t assume t: "delimited t"
    have "lex_from LStart (f x @ CHR '','' # strings_join (map f (y # zs)) '','' @ t) =
        map_option ((@) (g x)) (map_option (Cons TComma) (map_option ((@) (tok_join (map g (y # zs)))) (lex_from LStart t)))"
      by (simp only: lexes_as_append[OF _ x] delimited_simps lex_comma lexes_as_append[OF t r])
    then show "lex_from LStart (strings_join (map f (x # y # zs)) '','' @ t) = map_option ((@) (tok_join (map g (x # y # zs)))) (lex_from LStart t)"
      by (simp add: option.map_comp o_def append_fun)
  qed
qed (simp_all add: lexes_as_def)

lemma lexes_as_bracketed:
  assumes "lexes_as s ts" "lstart l = Some (LStart, [a])" "lstart r = Some (LStart, [b])" "delimited [r]"
  shows "lexes_as (l # s @ [r]) (a # ts @ [b])"
proof -
  have "delimited (r # t)" for t using assms(4) by (simp add: delimited_def)
  then have "lex_from LStart (s @ r # t) = map_option ((@) ts) (lex_from LStart (r # t))" for t using assms(1) by (simp add: lexes_as_def)
  then show ?thesis using assms(2,3) by (simp add: lexes_as_def option.map_comp o_def append_fun)
qed

lemma lexes_as_member:
  assumes "raw_ok k" "lexes_as s ts"
  shows "lexes_as (quoted k @ CHR '':'' # s) (TStr k # TColon # ts)"
proof -
  have "lex_from LStart (CHR '':'' # s @ t) = map_option (Cons TColon) (lex_from LStart (s @ t))" for t
    by (simp add: lstart_def white_def append_singleton)
  then show ?thesis using assms(2) lex_quoted[OF assms(1)] by (simp add: lexes_as_def option.map_comp o_def append_fun)
qed

lemma lexes_as_jprint: "json_ok j \<Longrightarrow> lexes_as (jprint j) (toks j)"
proof (induction j rule: jprint.induct)
  case 1
  then show ?case by (simp add: lexes_as_def lstart_def white_def in_range_def append_singleton)
next
  case (2 b)
  then show ?case by (cases b) (simp_all add: lexes_as_def lstart_def white_def in_range_def append_singleton)
next
  case (3 s)
  then show ?case by (simp add: num_ok_def lexes_as_def append_singleton)
next
  case (4 raw)
  then show ?case by (simp add: lexes_as_def lex_quoted append_singleton)
next
  case (5 xs)
  have "lexes_as (strings_join (map jprint xs) '','') (tok_join (map toks xs))" using 5 by (intro lexes_as_join) simp
  then show ?case using lexes_as_bracketed[where l = "CHR ''[''" and r = "CHR '']''"] by (simp add: lstart_def white_def)
next
  case (6 ms)
  have "lexes_as (strings_join (map (\<lambda>(k, v). quoted k @ CHR '':'' # jprint v) ms) '','') (tok_join (map (\<lambda>(k, v). TStr k # TColon # toks v) ms))"
  proof (intro lexes_as_join ballI)
    fix m assume m: "m \<in> set ms"
    obtain k v where kv: "m = (k, v)" by fastforce
    then have "lexes_as (jprint v) (toks v)" "raw_ok k" using 6 m by auto
    then show "lexes_as ((\<lambda>(k, v). quoted k @ CHR '':'' # jprint v) m) ((\<lambda>(k, v). TStr k # TColon # toks v) m)"
      using kv by (simp add: lexes_as_member)
  qed
  then show ?case using lexes_as_bracketed[where l = "CHR ''{''" and r = "CHR ''}''"] by (simp add: lstart_def white_def)
qed

text \<open>How deep arrays and objects may be nested.\<close>

fun nests :: "nat \<Rightarrow> json \<Rightarrow> bool" where
  "nests n (JArr xs) \<longleftrightarrow> 0 < n \<and> (\<forall>x\<in>set xs. nests (n - 1) x)"
| "nests n (JObj ms) \<longleftrightarrow> 0 < n \<and> (\<forall>(k, v)\<in>set ms. nests (n - 1) v)"
| "nests n _ \<longleftrightarrow> True"

text \<open>The tokens of a value take the parser from expecting a value to having it.\<close>

definition parses_as :: "nat \<Rightarrow> json \<Rightarrow> bool" where
  "parses_as n j \<longleftrightarrow> (\<forall>fs ts. length fs + n \<le> max_depth \<longrightarrow> parse_from PValue fs (toks j @ ts) = parse_from (PEnd j) fs ts)"

lemma toks_hd: "\<exists>t ts. toks j = t # ts \<and> t \<noteq> TRbrack"
  by (cases j) simp_all

lemma parse_first: "parse_from PFirst fs (toks j @ ts) = parse_from PValue fs (toks j @ ts)"
  using toks_hd[of j] by auto

lemma parse_elements:
  assumes "\<forall>x\<in>set (v # xs). parses_as n x" "length fs + Suc n \<le> max_depth"
  shows "parse_from PValue (InArr acc # fs) (tok_join (map toks (v # xs)) @ TRbrack # ts) = parse_from (PEnd (JArr (rev acc @ v # xs))) fs ts"
  using assms
proof (induction xs arbitrary: v acc)
  case Nil
  then show ?case by (simp add: parses_as_def)
next
  case (Cons x xs)
  have "parse_from PValue (InArr acc # fs) (tok_join (map toks (v # x # xs)) @ TRbrack # ts) =
      parse_from PValue (InArr (v # acc) # fs) (tok_join (map toks (x # xs)) @ TRbrack # ts)"
    using Cons.prems by (simp add: parses_as_def)
  also have "\<dots> = parse_from (PEnd (JArr (rev acc @ v # x # xs))) fs ts" using Cons.IH[of x "v # acc"] Cons.prems by simp
  finally show ?case .
qed

abbreviation member_toks :: "string \<times> json \<Rightarrow> jtok list" where
  "member_toks \<equiv> \<lambda>(k, v). TStr k # TColon # toks v"

lemma parse_members:
  assumes "\<forall>(k, v)\<in>set (m # ms). parses_as n v" "length fs + Suc n \<le> max_depth" "p = PKey acc \<or> p = PKeyFirst \<and> acc = []"
  shows "parse_from p fs (tok_join (map member_toks (m # ms)) @ TRbrace # ts) = parse_from (PEnd (JObj (rev acc @ m # ms))) fs ts"
  using assms
proof (induction ms arbitrary: m acc p)
  case Nil
  obtain k v where "m = (k, v)" by fastforce
  then show ?case using Nil by (auto simp: parses_as_def)
next
  case (Cons x ms)
  obtain k v where m: "m = (k, v)" by fastforce
  have "parse_from p fs (tok_join (map member_toks (m # x # ms)) @ TRbrace # ts) =
      parse_from (PKey ((k, v) # acc)) fs (tok_join (map member_toks (x # ms)) @ TRbrace # ts)"
    using Cons.prems m by (auto simp: parses_as_def)
  also have "\<dots> = parse_from (PEnd (JObj (rev acc @ m # x # ms))) fs ts" using Cons.IH[of x "PKey ((k, v) # acc)" "(k, v) # acc"] Cons.prems m by simp
  finally show ?case .
qed

lemma parses_as_toks: "nests n j \<Longrightarrow> parses_as n j"
proof (induction n j rule: nests.induct)
  case (1 n xs)
  then obtain k where n: "n = Suc k" by (cases n) auto
  have p: "\<forall>x\<in>set xs. parses_as k x" using 1 n by auto
  show ?case
  proof (cases xs)
    case Nil
    then show ?thesis using n by (simp add: parses_as_def)
  next
    case (Cons v ys)
    have "parse_from PFirst (InArr [] # fs) (tok_join (map toks xs) @ TRbrack # ts) = parse_from PValue (InArr [] # fs) (tok_join (map toks xs) @ TRbrack # ts)" for fs ts
      unfolding Cons by (cases ys) (simp_all add: parse_first)
    then show ?thesis using parse_elements[of v ys k, where acc = "[]"] p Cons n by (simp add: parses_as_def)
  qed
next
  case (2 n ms)
  then obtain k where n: "n = Suc k" by (cases n) auto
  have p: "\<forall>(k', v)\<in>set ms. parses_as k v" using 2 n by fastforce
  show ?case
  proof (cases ms)
    case Nil
    then show ?thesis using n by (simp add: parses_as_def)
  next
    case (Cons m ys)
    show ?thesis using parse_members[of m ys k, where acc = "[]" and p = PKeyFirst] p Cons n by (simp add: parses_as_def)
  qed
qed (simp_all add: parses_as_def)

lemma jparse_jprint:
  assumes "json_ok j" "nests max_depth j"
  shows "jparse (jprint j) = Some j"
proof -
  have "lex_from LStart (jprint j) = Some (toks j)" using lexes_as_jprint[OF assms(1)] lexes_as_append[of "[]" "jprint j" "toks j"] by simp
  moreover have "parse_from PValue [] (toks j @ ts) = parse_from (PEnd j) [] ts" for ts
    using parses_as_toks[OF assms(2)] by (simp add: parses_as_def)
  from this[of "[]"] have "parse_from PValue [] (toks j) = Some j" by simp
  ultimately show ?thesis by (simp add: jparse_def)
qed

end
