(* ===== verification/Shard_Json.thy ===== *)
theory Shard_Json
  imports Go_Json Shardkv_Test
begin

text \<open>
  The text of a configuration (\<^verbatim>\<open>String\<close> and \<^verbatim>\<open>FromString\<close> of \<^verbatim>\<open>shardkv1/shardcfg/shardcfg.go\<close>): how \<^verbatim>\<open>encoding/json\<close> writes the struct and
  stores a text into it. A slice or map that is nil is not told from an empty one: the text is that of a configuration that \<^verbatim>\<open>MakeShardConfig\<close> made,
  whose map is not nil. The lemmas show that a configuration is read back from its text, and that the text does not depend on the order of the map.
\<close>

subsection \<open>Writing\<close>

text \<open>The keys of a map are written in the order of their text.\<close>

definition marshal_groups :: "(tgid, string list) gomap \<Rightarrow> json" where
  "marshal_groups m = JObj (map (\<lambda>(g, srvs). (itoa g, JArr (map (\<lambda>s. JStr (quote s)) srvs))) (sort_key (\<lambda>e. itoa (fst e)) m))"

definition marshal_config :: "shard_config \<Rightarrow> json" where
  "marshal_config c = JObj [(''Num'', JNum (itoa (Num c))), (''Shards'', JArr (map (\<lambda>g. JNum (itoa g)) (Shards c))), (''Groups'', marshal_groups (Groups c))]"

text \<open>Writing this struct has no error.\<close>

definition cfg_String :: "shard_config \<Rightarrow> string" where
  "cfg_String c = jprint (marshal_config c)"

subsection \<open>Reading\<close>

text \<open>
  A value of the wrong type is an error that \<^verbatim>\<open>Unmarshal\<close> returns when it has read the whole value; the caller ends the process in
  any case. A string that cannot be unquoted although the scanner accepted it would be a panic.
\<close>

abbreviation unmarshal_error :: "'a go" where
  "unmarshal_error \<equiv> Fatal ''Unmarshall err %v''"

definition unquoted :: "string \<Rightarrow> string go" where
  "unquoted raw = (case unquote raw of None \<Rightarrow> Panic ''JSON decoder out of sync - data changing underfoot?'' | Some s \<Rightarrow> Ret s)"

text \<open>\<^verbatim>\<open>null\<close> leaves a number, a string or an array as it is, and makes a slice or a map nil.\<close>

fun store_int :: "int \<Rightarrow> json \<Rightarrow> int go" where
  "store_int old JNull = Ret old"
| "store_int old (JNum s) = (if snd (ParseInt s) then Ret (fst (ParseInt s)) else unmarshal_error)"
| "store_int old _ = unmarshal_error"

text \<open>An array takes its elements in order; further values are skipped, and elements without a value become zero.\<close>

fun store_elements :: "int list \<Rightarrow> json list \<Rightarrow> int list go" where
  "store_elements (x # xs) (j # js) = go_bind (store_int x j) (\<lambda>y. go_bind (store_elements xs js) (\<lambda>ys. Ret (y # ys)))"
| "store_elements [] js = Ret []"
| "store_elements xs [] = Ret (map (\<lambda>_. 0) xs)"

fun store_array :: "int list \<Rightarrow> json \<Rightarrow> int list go" where
  "store_array old JNull = Ret old"
| "store_array old (JArr js) = store_elements old js"
| "store_array old _ = unmarshal_error"

fun store_string :: "json \<Rightarrow> string go" where
  "store_string JNull = Ret []"
| "store_string (JStr raw) = unquoted raw"
| "store_string _ = unmarshal_error"

fun store_strings :: "json list \<Rightarrow> string list go" where
  "store_strings [] = Ret []"
| "store_strings (j # js) = go_bind (store_string j) (\<lambda>s. go_bind (store_strings js) (\<lambda>ss. Ret (s # ss)))"

fun store_slice :: "json \<Rightarrow> string list go" where
  "store_slice JNull = Ret []"
| "store_slice (JArr js) = store_strings js"
| "store_slice _ = unmarshal_error"

definition store_entry :: "string \<times> json \<Rightarrow> (tgid, string list) gomap \<Rightarrow> (tgid, string list) gomap go" where
  "store_entry e m = go_bind (unquoted (fst e)) (\<lambda>key. go_bind (store_slice (snd e)) (\<lambda>srvs.
     if snd (ParseInt key) then Ret (AList.update (fst (ParseInt key)) srvs m) else unmarshal_error))"

fun store_map :: "(tgid, string list) gomap \<Rightarrow> json \<Rightarrow> (tgid, string list) gomap go" where
  "store_map m JNull = Ret []"
| "store_map m (JObj es) = fold_go store_entry es m"
| "store_map m _ = unmarshal_error"

text \<open>
  A key names a field if they agree up to case: \<^verbatim>\<open>foldName\<close> maps every rune to the least one that it is equal to up to case. The runes beyond ASCII that are equal
  to a letter of ASCII are the long s and the sign for kelvin.
\<close>

definition fold_rune :: "nat \<Rightarrow> nat" where
  "fold_rune r = (if 97 \<le> r \<and> r \<le> 122 then r - 32 else if r = 0x17F then 0x53 else if r = 0x212A then 0x4B else r)"

definition names_field :: "string \<Rightarrow> string \<Rightarrow> bool" where
  "names_field key name \<longleftrightarrow> map (\<lambda>r. fold_rune (fst r)) (runes key) = map (\<lambda>r. fold_rune (fst r)) (runes name)"

definition store_field :: "string \<times> json \<Rightarrow> shard_config \<Rightarrow> shard_config go" where
  "store_field e c = go_bind (unquoted (fst e)) (\<lambda>key.
     if names_field key ''Num'' then go_bind (store_int (Num c) (snd e)) (\<lambda>n. Ret (c\<lparr>Num := n\<rparr>))
     else if names_field key ''Shards'' then go_bind (store_array (Shards c) (snd e)) (\<lambda>xs. Ret (c\<lparr>Shards := xs\<rparr>))
     else if names_field key ''Groups'' then go_bind (store_map (Groups c) (snd e)) (\<lambda>m. Ret (c\<lparr>Groups := m\<rparr>))
     else Ret c)"

fun unmarshal_config :: "json \<Rightarrow> shard_config \<Rightarrow> shard_config go" where
  "unmarshal_config JNull c = Ret c"
| "unmarshal_config (JObj es) c = fold_go store_field es c"
| "unmarshal_config _ c = unmarshal_error"

definition FromString :: "string \<Rightarrow> shard_config go" where
  "FromString s = (let scfg = \<lparr>Num = 0, Shards = replicate NShards 0, Groups = []\<rparr> in
     case jparse s of None \<Rightarrow> unmarshal_error | Some j \<Rightarrow> unmarshal_config j scfg)"

subsection \<open>A configuration is read back\<close>

definition int64 :: "int \<Rightarrow> bool" where
  "int64 i \<longleftrightarrow> - (2 ^ 63) \<le> i \<and> i < 2 ^ 63"

text \<open>A configuration of Go: its numbers are 64-bit integers, and its names are well-formed UTF-8.\<close>

definition go_config :: "shard_config \<Rightarrow> bool" where
  "go_config c \<longleftrightarrow> cfg_ok c \<and> int64 (Num c) \<and> list_all int64 (Shards c) \<and> list_all (\<lambda>(g, srvs). int64 g \<and> list_all utf8 srvs) (Groups c)"

lemma runes_ascii: "list_all (\<lambda>c. of_char c < (0x80 :: nat)) s \<Longrightarrow> runes s = map (\<lambda>c. (of_char c, [c])) s"
proof (induction s)
  case (Cons c s)
  have "scalar (of_char c)" using Cons.prems by (simp add: scalar_def is_surrogate_def)
  from runes_encode[OF this, of s] show ?case using Cons by (simp add: encode_ascii)
qed simp

lemma utf8_ascii: "list_all (\<lambda>c. of_char c < (0x80 :: nat)) s \<Longrightarrow> utf8 s"
proof -
  assume a: "list_all (\<lambda>c. of_char c < (0x80 :: nat)) s"
  then have "s = concat (map encode_rune (map of_char s))" "list_all scalar (map of_char s)"
    by (induction s) (simp_all add: encode_ascii scalar_def is_surrogate_def)
  then show ?thesis by (auto simp: utf8_def)
qed

lemma raw_ok_ascii: "list_all (\<lambda>c. c \<noteq> backslash \<and> c \<noteq> quote_char \<and> 0x20 \<le> (of_char c :: nat)) s \<Longrightarrow> raw_ok s"
  by (rule raw_ok_bytes) (simp add: list_all_iff)

lemma itoa_chars: "c \<in> set (itoa i) \<Longrightarrow> c = CHR ''-'' \<or> digit c"
  using utoa_digit_all by (auto simp: itoa_def list_all_iff split: if_splits)

lemma unquote_ascii: "list_all (\<lambda>c. c \<noteq> backslash \<and> c \<noteq> quote_char \<and> 0x20 \<le> (of_char c :: nat) \<and> of_char c < (0x80 :: nat)) s \<Longrightarrow> unquote s = Some s"
  by (induction s) (simp_all add: unquote_plain)

lemma itoa_key: "raw_ok (itoa i)" "unquoted (itoa i) = Ret (itoa i)"
proof -
  have "list_all (\<lambda>c. c \<noteq> backslash \<and> c \<noteq> quote_char \<and> 0x20 \<le> (of_char c :: nat) \<and> of_char c < (0x80 :: nat)) (itoa i)"
    using itoa_chars by (fastforce simp: list_all_iff in_range_def)
  note a = this
  show "unquoted (itoa i) = Ret (itoa i)" using unquote_ascii[OF a] by (simp add: unquoted_def)
  show "raw_ok (itoa i)" using a by (intro raw_ok_ascii) (simp add: list_all_iff)
qed

lemma store_int_itoa: "int64 i \<Longrightarrow> store_int old (JNum (itoa i)) = Ret i"
  by (simp add: int64_def ParseInt_itoa)

lemma store_elements_itoa:
  "list_all int64 xs \<Longrightarrow> length old = length xs \<Longrightarrow> store_elements old (map (\<lambda>g. JNum (itoa g)) xs) = Ret xs"
  by (induction xs old rule: list_induct2') (simp_all add: store_int_itoa del: store_int.simps)

lemma store_strings_quote: "list_all utf8 srvs \<Longrightarrow> store_strings (map (\<lambda>s. JStr (quote s)) srvs) = Ret srvs"
  by (induction srvs) (simp_all add: unquoted_def unquote_quote)

lemma store_groups_back:
  "list_all (\<lambda>(g, srvs). int64 g \<and> list_all utf8 srvs) es \<Longrightarrow> distinct (gm_keys (m @ es)) \<Longrightarrow>
    fold_go store_entry (map (\<lambda>(g, srvs). (itoa g, JArr (map (\<lambda>s. JStr (quote s)) srvs))) es) m = Ret (m @ es)"
proof (induction es arbitrary: m)
  case (Cons e es)
  obtain g srvs where e: "e = (g, srvs)" by fastforce
  have "store_entry (itoa g, JArr (map (\<lambda>s. JStr (quote s)) srvs)) m = Ret (AList.update g srvs m)"
    using Cons.prems e by (simp add: store_entry_def itoa_key store_strings_quote int64_def ParseInt_itoa)
  moreover have "AList.update g srvs m = m @ [(g, srvs)]" using Cons.prems e by (intro alist_update_fresh) simp
  ultimately show ?case using Cons.IH[of "m @ [(g, srvs)]"] Cons.prems e by simp
qed simp

abbreviation sorted_groups :: "(tgid, string list) gomap \<Rightarrow> (tgid, string list) gomap" where
  "sorted_groups m \<equiv> sort_key (\<lambda>e. itoa (fst e)) m"

lemma sorted_groups_distinct: "distinct (gm_keys m) \<Longrightarrow> distinct (gm_keys (sorted_groups m))"
  by (metis mset_map mset_sort mset_eq_imp_distinct_iff)

lemma marshal_config_ok:
  assumes "go_config c"
  shows "json_ok (marshal_config c)" "nests max_depth (marshal_config c)"
proof -
  have "raw_ok ''Num''" "raw_ok ''Shards''" "raw_ok ''Groups''" by (simp_all add: raw_ok_ascii)
  moreover have "json_ok (marshal_groups (Groups c))"
    using assms by (auto simp: marshal_groups_def go_config_def list_all_iff itoa_key raw_ok_quote)
  ultimately show "json_ok (marshal_config c)" by (simp add: marshal_config_def num_ok_itoa)
  show "nests max_depth (marshal_config c)" by (auto simp: marshal_config_def marshal_groups_def max_depth_def)
qed

lemma FromString_String:
  assumes "go_config c"
  shows "FromString (cfg_String c) = Ret (c\<lparr>Groups := sorted_groups (Groups c)\<rparr>)"
proof -
  have p: "jparse (cfg_String c) = Some (marshal_config c)" using jparse_jprint[OF marshal_config_ok[OF assms]] by (simp add: cfg_String_def)
  have names: "unquoted ''Num'' = Ret ''Num''" "unquoted ''Shards'' = Ret ''Shards''" "unquoted ''Groups'' = Ret ''Groups''"
    "names_field ''Num'' ''Num''" "\<not> names_field ''Shards'' ''Num''" "names_field ''Shards'' ''Shards''"
    "\<not> names_field ''Groups'' ''Num''" "\<not> names_field ''Groups'' ''Shards''" "names_field ''Groups'' ''Groups''"
    by (simp_all add: unquoted_def unquote_ascii names_field_def runes_ascii fold_rune_def)
  have "length (Shards c) = NShards" "list_all int64 (Shards c)" "int64 (Num c)" using assms by (simp_all add: go_config_def cfg_ok_def)
  moreover have "fold_go store_entry (map (\<lambda>(g, srvs). (itoa g, JArr (map (\<lambda>s. JStr (quote s)) srvs))) (sorted_groups (Groups c))) [] = Ret (sorted_groups (Groups c))"
    using assms store_groups_back[of "sorted_groups (Groups c)" "[]"] by (simp add: go_config_def cfg_ok_def list_all_iff sorted_groups_distinct)
  ultimately show ?thesis
    by (simp add: FromString_def p marshal_config_def marshal_groups_def store_field_def names store_int_itoa store_elements_itoa del: store_int.simps)
qed

subsection \<open>Property\<close>

lemma sorted_groups_mset:
  assumes "distinct (gm_keys m)" "mset m' = mset m"
  shows "sorted_groups m' = sorted_groups m"
proof (rule sort_key_inj_key_eq)
  show "mset m' = mset (sorted_groups m)" using assms(2) by simp
  show "inj_on (\<lambda>e. itoa (fst e)) (set m')"
    using assms(1) mset_eq_setD[OF assms(2)] by (auto simp: inj_on_def distinct_map dest!: itoa_inj)
qed simp

lemma GidServers_mset:
  assumes "Shards c' = Shards c" "distinct (gm_keys (Groups c))" "mset (Groups c') = mset (Groups c)"
  shows "GidServers c' = GidServers c"
proof -
  have "distinct (gm_keys (Groups c'))" using assms(2,3) by (metis mset_map mset_eq_imp_distinct_iff)
  then have "map_of (Groups c') = map_of (Groups c)" using assms(2) mset_eq_setD[OF assms(3)] by (simp add: map_of_inject_set)
  then show ?thesis using assms(1) mset_eq_setD[OF assms(3)] by (simp add: fun_eq_iff GidServers_def gm_get_def Let_def)
qed

text \<open>
  Property C15: a configuration survives being stored as text. If its numbers are 64-bit integers and its names are well-formed UTF-8, then \<^verbatim>\<open>String\<close> gives the
  same text in whatever order the map of groups is visited, and \<^verbatim>\<open>FromString\<close> reads from it a configuration with the same number, the same shards and
  the same groups: every key is served by the same group and the same servers.
\<close>

theorem config_text_roundtrip:
  assumes "go_config c" and "Num d = Num c" and "Shards d = Shards c" and "mset (Groups d) = mset (Groups c)"
  shows "cfg_String d = cfg_String c \<and>
    (\<exists>c'. FromString (cfg_String d) = Ret c' \<and> Num c' = Num c \<and> Shards c' = Shards c \<and> mset (Groups c') = mset (Groups c) \<and>
      (\<forall>key. GidServers c' (Key2Shard key) = GidServers c (Key2Shard key)))"
proof -
  have d: "distinct (gm_keys (Groups c))" using assms(1) by (simp add: go_config_def cfg_ok_def)
  have "cfg_String d = cfg_String c"
    using assms(2,3) sorted_groups_mset[OF d assms(4)] by (simp add: cfg_String_def marshal_config_def marshal_groups_def)
  moreover have "GidServers (c\<lparr>Groups := sorted_groups (Groups c)\<rparr>) = GidServers c" using d by (intro GidServers_mset) simp_all
  ultimately show ?thesis using FromString_String[OF assms(1)] by simp
qed

theorem config_text_roundtrip_witness:
  "\<exists>c'. FromString (cfg_String \<lparr>Num = 3, Shards = replicate 12 (-5), Groups = [(-5, [[CHR 0xC3, CHR 0xA9], ''a<b'']), (10, [])]\<rparr>) = Ret c' \<and> Num c' = 3 \<and>
    mset (Groups c') = {#(-5, [[CHR 0xC3, CHR 0xA9], ''a<b'']), (10, [])#}"
proof -
  let ?c = "\<lparr>Num = 3, Shards = replicate 12 (-5), Groups = [(-5, [[CHR 0xC3, CHR 0xA9], ''a<b'']), (10, [])]\<rparr>"
  have "char_of (0xC3 :: nat) = CHR 0xC3" "char_of (0xA9 :: nat) = CHR 0xA9" by code_simp+
  then have "utf8 [CHR 0xC3, CHR 0xA9]" unfolding utf8_def by (intro exI[of _ "[0xE9]"]) (simp add: encode_rune_def scalar_def is_surrogate_def)
  moreover have "utf8 ''a<b''" by (simp add: utf8_ascii)
  ultimately have "go_config ?c" by (simp add: go_config_def cfg_ok_def NShards_def int64_def list_all_iff)
  from config_text_roundtrip[OF this refl refl refl] obtain c' where "FromString (cfg_String ?c) = Ret c'" "Num c' = Num ?c" "mset (Groups c') = mset (Groups ?c)"
    by blast
  then show ?thesis by (intro exI[of _ c']) simp
qed

end
