(* ===== verification/Kv_Json.thy ===== *)
theory Kv_Json
  imports Shard_Json Kv_Test
begin

text \<open>
  The entries that the tests of \<^verbatim>\<open>kvtest1/kvtest.go\<close> store as text: what \<^verbatim>\<open>PutJson\<close> writes and \<^verbatim>\<open>GetJson\<close> reads for \<^verbatim>\<open>EntryV\<close>. With them as the codec,
  \<^verbatim>\<open>OnePut\<close> over a clerk that keeps its contract always comes back, and what it reports is what is stored.
\<close>

subsection \<open>Entries as text\<close>

definition marshal_entry :: "EntryV \<Rightarrow> json" where
  "marshal_entry e = JObj [(''Id'', JNum (itoa (ev_Id e))), (''V'', JNum (utoa (unat (ev_V e))))]"

definition entry_text :: "EntryV \<Rightarrow> string option" where
  "entry_text e = Some (jprint (marshal_entry e))"

fun store_uint :: "tversion \<Rightarrow> json \<Rightarrow> tversion go" where
  "store_uint old JNull = Ret old"
| "store_uint old (JNum s) = (case ParseUint s of Parsed n \<Rightarrow> Ret (of_nat n) | _ \<Rightarrow> unmarshal_error)"
| "store_uint old _ = unmarshal_error"

definition store_entry_field :: "string \<times> json \<Rightarrow> EntryV \<Rightarrow> EntryV go" where
  "store_entry_field m e = go_bind (unquoted (fst m)) (\<lambda>key.
     if names_field key ''Id'' then go_bind (store_int (ev_Id e) (snd m)) (\<lambda>i. Ret (e\<lparr>ev_Id := i\<rparr>))
     else if names_field key ''V'' then go_bind (store_uint (ev_V e) (snd m)) (\<lambda>v. Ret (e\<lparr>ev_V := v\<rparr>))
     else Ret e)"

fun unmarshal_entry :: "json \<Rightarrow> EntryV \<Rightarrow> EntryV go" where
  "unmarshal_entry JNull e = Ret e"
| "unmarshal_entry (JObj ms) e = fold_go store_entry_field ms e"
| "unmarshal_entry _ e = unmarshal_error"

text \<open>\<open>None\<close> is an error of \<^verbatim>\<open>Unmarshal\<close>, for which \<^verbatim>\<open>GetJson\<close> ends the test.\<close>

definition read_entry :: "string \<Rightarrow> EntryV option" where
  "read_entry s = (case jparse s of None \<Rightarrow> None
    | Some j \<Rightarrow> (case unmarshal_entry j \<lparr>ev_Id = 0, ev_V = 0\<rparr> of Ret e \<Rightarrow> Some e | _ \<Rightarrow> None))"

lemma num_ok_utoa: "num_ok (utoa n)"
  using num_ok_itoa[of "int n"] by (simp add: itoa_def)

lemma read_entry_text:
  assumes "int64 (ev_Id e)" "entry_text e = Some b"
  shows "read_entry b = Some e"
proof -
  have "raw_ok ''Id''" "raw_ok ''V''" by (simp_all add: raw_ok_ascii)
  then have "json_ok (marshal_entry e)" by (simp add: marshal_entry_def num_ok_itoa num_ok_utoa)
  moreover have "nests max_depth (marshal_entry e)" by (simp add: marshal_entry_def max_depth_def)
  ultimately have p: "jparse b = Some (marshal_entry e)" using jparse_jprint assms(2) by (auto simp: entry_text_def)
  have names: "unquoted ''Id'' = Ret ''Id''" "unquoted ''V'' = Ret ''V''" "names_field ''Id'' ''Id''" "\<not> names_field ''V'' ''Id''" "names_field ''V'' ''V''"
    by (simp_all add: unquoted_def unquote_ascii names_field_def runes_ascii fold_rune_def)
  have "unat (ev_V e) < 2 ^ 64" using unsigned_less[of "ev_V e"] by simp
  then have "ParseUint (utoa (unat (ev_V e))) = Parsed (unat (ev_V e))" by (rule ParseUint_utoa)
  then show ?thesis
    using assms(1) by (simp add: read_entry_def p marshal_entry_def store_entry_field_def names store_int_itoa del: store_int.simps)
qed

subsection \<open>Putting an entry\<close>

text \<open>
  What the loop of \<^verbatim>\<open>OnePut\<close> needs of the codec: every entry has a text, and a good one is read back from it. The lemmas hold for every such codec over every
  clerk that keeps its contract.
\<close>

locale entry_codec = kv_clerk +
  fixes enc :: "EntryV \<Rightarrow> string option" and dec :: "string \<Rightarrow> EntryV option" and good :: "EntryV \<Rightarrow> bool"
  assumes enc_law: "\<exists>b. enc e = Some b"
    and dec_law: "good e \<Longrightarrow> enc e = Some b \<Longrightarrow> dec b = Some e"
begin

text \<open>A put with the version of the key, and the get that follows.\<close>

lemma PutJson_current:
  assumes "ok (kt_w s)" "st_Version (st (kt_w s) key) = ver"
  shows "\<exists>b err s'. enc e = Some b \<and> PutJson clk enc ck key e ver me s = Ret (err, s') \<and>
    (err = OK \<or> err = ErrMaybe) \<and> ok (kt_w s') \<and> st (kt_w s') = (st (kt_w s))(key := \<lparr>st_Value = b, st_Version = ver + 1\<rparr>)"
proof -
  obtain b where "enc e = Some b" using enc_law by blast
  then show ?thesis using kv_Put_eq[OF assms(1), of clk key b ver me] assms(2) by (auto simp: PutJson_def)
qed

lemma PutJson_other:
  assumes "ok (kt_w s)" "st_Version (st (kt_w s) key) \<noteq> ver" "st_Version (st (kt_w s) key) \<noteq> 0"
  shows "\<exists>err s'. PutJson clk enc ck key e ver me s = Ret (err, s') \<and> (err = ErrVersion \<or> err = ErrMaybe) \<and> ok (kt_w s') \<and> st (kt_w s') = st (kt_w s)"
proof -
  obtain b where "enc e = Some b" using enc_law by blast
  then show ?thesis using kv_Put_eq[OF assms(1), of clk key b ver me] assms(2,3) by (auto simp: PutJson_def refusal_def)
qed

lemma GetJson_entry:
  assumes "ok (kt_w s)" "st_Version (st (kt_w s) key) \<noteq> 0" "dec (st_Value (st (kt_w s) key)) = Some e"
  shows "\<exists>s'. GetJson clk dec ck key me s = Ret ((e, st_Version (st (kt_w s) key)), s') \<and> ok (kt_w s') \<and> st (kt_w s') = st (kt_w s)"
  using kv_Get_eq[OF assms(1), of clk key me] assms(2,3) by (auto simp: GetJson_def)

lemma OnePut_current:
  assumes "ok (kt_w s)" "good \<lparr>ev_Id = me, ev_V = ver\<rparr>" "st_Version (st (kt_w s) key) = ver" "ver + 1 \<noteq> 0"
  shows "\<exists>b ok' s'. enc \<lparr>ev_Id = me, ev_V = ver\<rparr> = Some b \<and> OnePut clk enc dec me ck key ver s = Some (Ret ((ver + 1, ok'), s')) \<and>
    ok (kt_w s') \<and> st (kt_w s') = (st (kt_w s))(key := \<lparr>st_Value = b, st_Version = ver + 1\<rparr>)"
proof -
  let ?e = "\<lparr>ev_Id = me, ev_V = ver\<rparr>"
  from PutJson_current[OF assms(1,3), of ?e clk me] obtain b err s1 where p: "enc ?e = Some b" "PutJson clk enc ck key ?e ver me s = Ret (err, s1)"
    "err = OK \<or> err = ErrMaybe" "ok (kt_w s1)" "st (kt_w s1) = (st (kt_w s))(key := \<lparr>st_Value = b, st_Version = ver + 1\<rparr>)" by blast
  have "dec b = Some ?e" using dec_law assms(2) p(1) by blast
  then obtain s2 where "GetJson clk dec ck key me s1 = Ret ((?e, ver + 1), s2)" "ok (kt_w s2)" "st (kt_w s2) = st (kt_w s1)"
    using GetJson_entry[OF p(4), of key ?e clk me] p(5) assms(4) by auto
  then show ?thesis using p by (subst OnePut.simps) (auto simp: Let_def)
qed

lemma OnePut_other:
  assumes "ok (kt_w s)" "good \<lparr>ev_Id = me, ev_V = v\<rparr>" "st_Version (st (kt_w s) key) = v" "v \<noteq> ver" "v \<noteq> 0" "v + 1 \<noteq> 0" "dec (st_Value (st (kt_w s) key)) = Some e"
  shows "(\<exists>b ok' s'. enc \<lparr>ev_Id = me, ev_V = v\<rparr> = Some b \<and> OnePut clk enc dec me ck key ver s = Some (Ret ((v + 1, ok'), s')) \<and>
      ok (kt_w s') \<and> st (kt_w s') = (st (kt_w s))(key := \<lparr>st_Value = b, st_Version = v + 1\<rparr>)) \<or>
    (\<exists>s'. OnePut clk enc dec me ck key ver s = Some (Ret ((v, False), s')) \<and> ok (kt_w s') \<and> st (kt_w s') = st (kt_w s))"
proof -
  have "st_Version (st (kt_w s) key) \<noteq> ver" "st_Version (st (kt_w s) key) \<noteq> 0" using assms(3-5) by simp_all
  from PutJson_other[OF assms(1) this, of clk "\<lparr>ev_Id = me, ev_V = ver\<rparr>" me] obtain err s1 where
    p: "PutJson clk enc ck key \<lparr>ev_Id = me, ev_V = ver\<rparr> ver me s = Ret (err, s1)" "err = ErrVersion \<or> err = ErrMaybe" "ok (kt_w s1)" "st (kt_w s1) = st (kt_w s)"
    by blast
  obtain s2 where g: "GetJson clk dec ck key me s1 = Ret ((e, v), s2)" "ok (kt_w s2)" "st (kt_w s2) = st (kt_w s1)"
    using GetJson_entry[OF p(3), of key e clk me] p(4) assms(3,5,7) by auto
  have u: "OnePut clk enc dec me ck key ver s = (if err = ErrMaybe then Some (Ret ((v, False), s2)) else OnePut clk enc dec me ck key v s2)"
    using p(1,2) g(1) by (subst OnePut.simps) (auto simp: Let_def OK_def ErrMaybe_def ErrVersion_def)
  show ?thesis
  proof (cases "err = ErrMaybe")
    case True
    then show ?thesis using u g p by auto
  next
    case False
    then show ?thesis using OnePut_current[OF g(2) assms(2), of key clk] u g p assms(3,6) by auto
  qed
qed

end

text \<open>The texts of \<^verbatim>\<open>encoding/json\<close> are such a codec for entries whose number is a 64-bit integer.\<close>

lemma entries_codec: "kv_clerk ck ok st \<Longrightarrow> entry_codec ck ok st entry_text read_entry (\<lambda>e. int64 (ev_Id e))"
  by (intro entry_codec.intro entry_codec_axioms.intro) (simp_all add: entry_text_def read_entry_text)

interpretation mcodec: entry_codec model_clerk "\<lambda>w. True" fst entry_text read_entry "\<lambda>e. int64 (ev_Id e)"
  by (rule entries_codec) (rule mclerk.kv_clerk_axioms)

subsection \<open>Property\<close>

text \<open>
  Property C16: over a clerk that keeps its contract and that no other client uses, \<^verbatim>\<open>OnePut\<close> comes back whatever version it starts with, on a key that holds an entry or,
  with version 0, on a new key: either it has stored the entry of its caller under the version that the key had, and returns the next version; or it
  started with another version, was answered \<^verbatim>\<open>ErrMaybe\<close>, and returns the version of the key without having changed it. The key then holds an entry that can be read.
\<close>

theorem OnePut_stores_entry:
  assumes "kv_clerk ck ok st" and "ok (kt_w s)" and "int64 me" and "st_Version (st (kt_w s) key) = v" and "v + 1 \<noteq> 0"
    and "v = 0 \<and> ver = 0 \<or> v \<noteq> 0 \<and> read_entry (st_Value (st (kt_w s) key)) \<noteq> None"
  shows "\<exists>ver' stored s'. OnePut clk entry_text read_entry me ck key ver s = Some (Ret ((ver', stored), s')) \<and> ok (kt_w s') \<and>
    st_Version (st (kt_w s') key) = ver' \<and> read_entry (st_Value (st (kt_w s') key)) \<noteq> None \<and>
    (ver' = v + 1 \<and> read_entry (st_Value (st (kt_w s') key)) = Some \<lparr>ev_Id = me, ev_V = v\<rparr> \<and> (\<forall>k. k \<noteq> key \<longrightarrow> st (kt_w s') k = st (kt_w s) k) \<or>
     ver' = v \<and> ver \<noteq> v \<and> \<not> stored \<and> st (kt_w s') = st (kt_w s))"
proof -
  note codec = entries_codec[OF assms(1)]
  have good: "int64 (ev_Id \<lparr>ev_Id = me, ev_V = v\<rparr>)" using assms(3) by simp
  have rd: "entry_text \<lparr>ev_Id = me, ev_V = v\<rparr> = Some b \<Longrightarrow> read_entry b = Some \<lparr>ev_Id = me, ev_V = v\<rparr>" for b
    using read_entry_text[of "\<lparr>ev_Id = me, ev_V = v\<rparr>" b] assms(3) by simp
  show ?thesis
  proof (cases "ver = v")
    case True
    then obtain b ok' s' where "entry_text \<lparr>ev_Id = me, ev_V = v\<rparr> = Some b" "OnePut clk entry_text read_entry me ck key ver s = Some (Ret ((v + 1, ok'), s'))"
      "ok (kt_w s')" "st (kt_w s') = (st (kt_w s))(key := \<lparr>st_Value = b, st_Version = v + 1\<rparr>)"
      using entry_codec.OnePut_current[OF codec assms(2) good, of key clk] assms(4,5) by auto
    then show ?thesis using rd by auto
  next
    case False
    then obtain e where e: "v \<noteq> 0" "read_entry (st_Value (st (kt_w s) key)) = Some e" using assms(6) by auto
    show ?thesis
      using entry_codec.OnePut_other[OF codec assms(2) good assms(4) False[symmetric] e(1) assms(5) e(2), of clk]
    proof (elim disjE exE conjE)
      fix b ok' s' assume "entry_text \<lparr>ev_Id = me, ev_V = v\<rparr> = Some b" "OnePut clk entry_text read_entry me ck key ver s = Some (Ret ((v + 1, ok'), s'))"
        "ok (kt_w s')" "st (kt_w s') = (st (kt_w s))(key := \<lparr>st_Value = b, st_Version = v + 1\<rparr>)"
      then show ?thesis using rd by auto
    qed (use e False assms(4) in auto)
  qed
qed

theorem OnePut_stores_entry_witness:
  "\<exists>ver' stored s'. OnePut int entry_text read_entry 7 model_clerk ''k'' 0 (kt_start (model_start [True]) 1) = Some (Ret ((ver', stored), s')) \<and> ver' = 1 \<and>
    read_entry (st_Value (fst (kt_w s') ''k'')) = Some \<lparr>ev_Id = 7, ev_V = 0\<rparr>"
  using OnePut_stores_entry[OF mclerk.kv_clerk_axioms, where s = "kt_start (model_start [True]) 1" and me = 7 and key = "''k''" and v = 0 and ver = 0 and clk = int]
  by (auto simp: kt_start_def model_start_def int64_def)

end
