(* ===== verification/Shardkv_Setup.thy ===== *)
theory Shardkv_Setup
  imports Shardkv_Partition
begin

text \<open>
  Setting the sharded service up (\<^verbatim>\<open>setupKVService\<close> of \<^verbatim>\<open>shardkv1/test.go\<close>): the test makes its controller with a client of its own,
  starts the first group, gives it all shards and hands the configuration to the controller. The lemmas follow a test from
  \<^verbatim>\<open>MakeTestMaxRaft\<close> to the groups that have joined: all of them run.
\<close>

text \<open>What \<^verbatim>\<open>JoinBalance\<close> returns is not looked at.\<close>

definition setupKVService :: "('s, 'v, 'k) skenv \<Rightarrow> ('s, 'v, 'k) shardkv_test \<Rightarrow> (tgid \<times> ('s, 'v, 'k) shardkv_test) go" where
  "setupKVService env s = (let ts = kt_w (sh_kt s) in
     go_bind (makeShardCtrler (sk_cfg ts)) (\<lambda>(sck, cfg).
     go_bind (sk_MakeGroupStart env Gid1 (ts\<lparr>sk_cfg := cfg\<rparr>)) (\<lambda>ts1.
     go_bind (group_names Gid1 ts1) (\<lambda>names.
     go_bind (JoinBalance [(Gid1, names)] MakeShardConfig) (\<lambda>(_, scfg).
     go_bind (se_InitConfig env scfg (sk_ctl ts1)) (\<lambda>k.
       Ret (Gid1, s\<lparr>sh_sck := Some sck, sh_kt := (sh_kt s)\<lparr>kt_w := ts1\<lparr>sk_ctl := k\<rparr>\<rparr>\<rparr>)))))))"

lemma MakeTestMaxRaft_ok:
  assumes "inj rand"
  shows "\<exists>s. MakeTestMaxRaft rand now t0 clk mks part reliable parted maxraftstate ctl an = Ret s \<and>
    fresh_names rand (cf_state (sk_cfg (kt_w (sh_kt s)))) \<and> ks_clerks (cf_clnts (sk_cfg (kt_w (sh_kt s)))) \<noteq> None \<and>
    sk_ctl (kt_w (sh_kt s)) = ctl \<and> sk_ngid (kt_w (sh_kt s)) = Gid1 + 1"
proof -
  from MakeConfig_new[OF assms, of now 1 reliable mks] obtain cfg where
    "MakeConfig rand now 1 reliable mks = Ret cfg" "cf_clnts cfg = makeClnts" "fresh_names rand (cf_state cfg)" by blast
  then show ?thesis by (simp add: MakeTestMaxRaft_def ann_read_def kvtest_MakeTest_def Begin_def makeClnts_def)
qed

lemma setupKVService_ok:
  assumes laws: "controller_laws env held" and fresh: "fresh_names (se_rand env) (cf_state (sk_cfg (kt_w (sh_kt s))))"
    and clerks: "ks_clerks (cf_clnts (sk_cfg (kt_w (sh_kt s)))) \<noteq> None" and none: "held (sk_ctl (kt_w (sh_kt s))) = None"
  shows "\<exists>s' ts' sck c. setupKVService env s = Ret (Gid1, s') \<and> kt_w (sh_kt s') = ts' \<and> sh_sck s' = Some sck \<and>
    sc_clnt sck \<in> set (clerks_of (cf_clnts (sk_cfg ts'))) \<and> fresh_names (se_rand env) (cf_state (sk_cfg ts')) \<and>
    held (sk_ctl ts') = Some c \<and> config_reach 1 c \<and> Groups c = named_groups [Gid1] \<and>
    shard_up (se_rand env) Gid1 (sk_cfg ts') \<and> sk_ngid ts' = sk_ngid (kt_w (sh_kt s))"
proof -
  let ?ts = "kt_w (sh_kt s)"
  obtain cs where cs: "ks_clerks (cf_clnts (sk_cfg ?ts)) = Some cs" using clerks by blast
  obtain sck cfg0 where mk: "makeShardCtrler (sk_cfg ?ts) = Ret (sck, cfg0)" "cf_state cfg0 = cf_state (sk_cfg ?ts)"
    "sc_clnt sck \<in> set (clerks_of (cf_clnts cfg0))"
    using cs by (auto simp: makeShardCtrler_def makeShardCtrlerClnt_def cfg_client_def MakeClientTo_def MakeShardCtrler_def clerks_of_def Let_def)
  let ?start = "?ts\<lparr>sk_cfg := cfg0\<rparr>"
  have "fresh_names (se_rand env) (cf_state (sk_cfg ?start))" using fresh mk(2) by simp
  from sk_MakeGroupStart_ok[OF this, of Gid1] obtain cfg sg where
    m: "sk_MakeGroupStart env Gid1 ?start = Ret (?start\<lparr>sk_cfg := cfg\<rparr>)" "fresh_names (se_rand env) (cf_state cfg)"
    "cfg_Group Gid1 cfg = Some sg" "SrvNames sg = names_of Gid1" "shard_up (se_rand env) Gid1 cfg" by blast
  have "Groups MakeShardConfig = []" by (simp add: MakeShardConfig_def)
  with JoinBalance_one[OF config_reach.start, of Gid1 "names_of Gid1"] obtain c where
    c: "JoinBalance [(Gid1, names_of Gid1)] MakeShardConfig = Ret (True, c)" "config_reach 1 c" "Groups c = named_groups [Gid1]"
    using named_groups_disjoint[of "[Gid1]"] by auto
  from controller_lawsD(2)[OF laws none] obtain k where k: "se_InitConfig env c (sk_ctl ?ts) = Ret k" "held k = Some c" by blast
  let ?ts1 = "?ts\<lparr>sk_cfg := cfg, sk_ctl := k\<rparr>"
  have "setupKVService env s = Ret (Gid1, s\<lparr>sh_sck := Some sck, sh_kt := (sh_kt s)\<lparr>kt_w := ?ts1\<rparr>\<rparr>)"
    using mk(1) m(1,3,4) c(1) k(1) by (simp add: setupKVService_def group_names_def Let_def)
  moreover have "cf_clnts cfg = cf_clnts cfg0" using sk_MakeGroupStart_clnts[OF m(1)] by simp
  ultimately show ?thesis using mk(3) m(2,5) c(2,3) k(2) by simp
qed

subsection \<open>Property\<close>

text \<open>
  Property C10: with a controller that stores what it is given, a test that is made, sets the service up and
  joins new groups, at most twelve in all, succeeds: the test has its controller and the client of it, \<^verbatim>\<open>joinGroups\<close> returns
  true, the configuration has these groups in the order of joining, was reached by balanced joins and passes \<^verbatim>\<open>CheckConfig\<close>, and
  every group of it runs: the tester has it under the names that the configuration lists, and each of its three servers has been started, is
  on the network under its name and is linked to all servers of the group.
\<close>

theorem joined_groups_are_configured:
  assumes "controller_laws env held" and "inj (se_rand env)" and "held ctl = None" and "Suc k \<le> NShards"
  shows "\<exists>s s1 sck gs ts2 ts3 c n. MakeTestMaxRaft (se_rand env) now t0 clk mks part reliable parted maxraftstate ctl an = Ret s \<and>
    setupKVService env s = Ret (Gid1, s1) \<and> sh_sck s1 = Some sck \<and> sc_clnt sck \<in> set (clerks_of (cf_clnts (sk_cfg (kt_w (sh_kt s1))))) \<and>
    new_gids k (kt_w (sh_kt s1)) = (gs, ts2) \<and>
    joinGroups env gs ts2 = Ret (True, ts3) \<and> held (sk_ctl ts3) = Some c \<and> config_reach n c \<and>
    gm_keys (Groups c) = Gid1 # gs \<and> length gs = k \<and> CheckConfig c (Gid1 # gs) = Ret () \<and>
    (\<forall>g\<in>gids c. \<exists>sg. cfg_Group g (sk_cfg ts3) = Some sg \<and> map_of (Groups c) g = Some (SrvNames sg) \<and>
      grp_up SHARD_NSRV (sg, cf_state (sk_cfg ts3)))"
proof -
  from MakeTestMaxRaft_ok[OF assms(2), of now t0 clk mks part reliable parted maxraftstate ctl an] obtain s where
    t: "MakeTestMaxRaft (se_rand env) now t0 clk mks part reliable parted maxraftstate ctl an = Ret s"
    "fresh_names (se_rand env) (cf_state (sk_cfg (kt_w (sh_kt s))))" "ks_clerks (cf_clnts (sk_cfg (kt_w (sh_kt s)))) \<noteq> None"
    "sk_ctl (kt_w (sh_kt s)) = ctl" "sk_ngid (kt_w (sh_kt s)) = Gid1 + 1" by blast
  have none: "held (sk_ctl (kt_w (sh_kt s))) = None" using t(4) assms(3) by simp
  from setupKVService_ok[OF assms(1) t(2,3) none] obtain s1 ts1 sck c1 where
    s: "setupKVService env s = Ret (Gid1, s1)" "kt_w (sh_kt s1) = ts1" "sh_sck s1 = Some sck" "sc_clnt sck \<in> set (clerks_of (cf_clnts (sk_cfg ts1)))"
    "fresh_names (se_rand env) (cf_state (sk_cfg ts1))" "held (sk_ctl ts1) = Some c1" "config_reach 1 c1" "Groups c1 = named_groups [Gid1]"
    "shard_up (se_rand env) Gid1 (sk_cfg ts1)" "sk_ngid ts1 = sk_ngid (kt_w (sh_kt s))" by blast
  let ?gs = "map (\<lambda>i. sk_ngid ts1 + int i) [0..<k]"
  from new_gids_ok obtain ts2 where g: "new_gids k ts1 = (?gs, ts2)" "sk_cfg ts2 = sk_cfg ts1" "sk_ctl ts2 = sk_ctl ts1" by blast
  have d: "distinct ([Gid1] @ ?gs)" "length ([Gid1] @ ?gs) \<le> NShards"
    using assms(4) s(10) t(5) by (auto simp: distinct_map inj_on_def)
  have "fresh_names (se_rand env) (cf_state (sk_cfg ts2))" "held (sk_ctl ts2) = Some c1" using s(5,6) g(2,3) by simp_all
  from joinGroups_ok[OF assms(1) this s(7,8) d] obtain ts3 c n where
    j: "joinGroups env ?gs ts2 = Ret (True, ts3)" "held (sk_ctl ts3) = Some c" "config_reach n c" "Groups c = named_groups ([Gid1] @ ?gs)"
    "\<forall>g. g \<in> set ?gs \<or> shard_up (se_rand env) g (sk_cfg ts2) \<longrightarrow> shard_up (se_rand env) g (sk_cfg ts3)" by blast
  from named_groups_CheckConfig[OF j(3,4)] have "CheckConfig c (Gid1 # ?gs) = Ret ()" by simp
  moreover have "\<exists>sg. cfg_Group g (sk_cfg ts3) = Some sg \<and> map_of (Groups c) g = Some (SrvNames sg) \<and> grp_up SHARD_NSRV (sg, cf_state (sk_cfg ts3))"
    if "g \<in> gids c" for g
  proof -
    have g1: "g \<in> set ([Gid1] @ ?gs)" using that by (simp add: j(4))
    then have "shard_up (se_rand env) g (sk_cfg ts3)" using j(5) s(9) g(2) by auto
    moreover have "map_of (Groups c) g = Some (names_of g)" unfolding j(4) map_of_named_groups using g1 by simp
    ultimately show ?thesis by (auto simp: shard_up_def)
  qed
  moreover have "gm_keys (Groups c) = Gid1 # ?gs" "length ?gs = k" by (simp_all add: j(4))
  moreover have "sc_clnt sck \<in> set (clerks_of (cf_clnts (sk_cfg (kt_w (sh_kt s1)))))" "new_gids k (kt_w (sh_kt s1)) = (?gs, ts2)"
    using s(2,4) g(1) by simp_all
  ultimately show ?thesis using t(1) s(1,3) j(1-3)
    by (intro exI[of _ s] exI[of _ s1] exI[of _ sck] exI[of _ ?gs] exI[of _ ts2] exI[of _ ts3] exI[of _ c] exI[of _ n] conjI ballI) assumption+
qed

theorem joined_groups_are_configured_witness:
  "\<exists>s s1 gs ts2 ts3 c sg. MakeTestMaxRaft ex_rand 10 20 (\<lambda>_. 30) ex_mks ''join'' True False (-1) None (mkAnnotation, None) = Ret s \<and>
    setupKVService ex_skenv s = Ret (Gid1, s1) \<and> new_gids 4 (kt_w (sh_kt s1)) = (gs, ts2) \<and>
    joinGroups ex_skenv gs ts2 = Ret (True, ts3) \<and> sk_ctl ts3 = Some c \<and> length (Groups c) = 5 \<and>
    cfg_Group Gid1 (sk_cfg ts3) = Some sg \<and> grp_link (sg, cf_state (sk_cfg ts3)) 0 2"
proof -
  have rand: "se_rand ex_skenv = ex_rand" by (simp add: ex_skenv_def)
  have inj: "inj (se_rand ex_skenv)" using ex_fresh by (simp add: fresh_names_def rand)
  have laws: "controller_laws ex_skenv (\<lambda>k. k)" by (simp add: controller_laws_def ex_skenv_def)
  have "Suc 4 \<le> NShards" by (simp add: NShards_def)
  from joined_groups_are_configured[OF laws inj refl this, of 10 20 "\<lambda>_. 30" ex_mks "''join''" True False "-1" "(mkAnnotation, None)"]
  obtain s s1 gs ts2 ts3 c where
    r: "MakeTestMaxRaft ex_rand 10 20 (\<lambda>_. 30) ex_mks ''join'' True False (-1) None (mkAnnotation, None) = Ret s"
    "setupKVService ex_skenv s = Ret (Gid1, s1)" "new_gids 4 (kt_w (sh_kt s1)) = (gs, ts2)" "joinGroups ex_skenv gs ts2 = Ret (True, ts3)"
    "sk_ctl ts3 = Some c" "gm_keys (Groups c) = Gid1 # gs" "length gs = 4"
    "\<forall>g\<in>gids c. \<exists>sg. cfg_Group g (sk_cfg ts3) = Some sg \<and> map_of (Groups c) g = Some (SrvNames sg) \<and> grp_up SHARD_NSRV (sg, cf_state (sk_cfg ts3))"
    unfolding rand by metis
  have "gids c = set (Gid1 # gs)" using r(6) by (metis set_map)
  with r(8) obtain sg where "cfg_Group Gid1 (sk_cfg ts3) = Some sg" "grp_up SHARD_NSRV (sg, cf_state (sk_cfg ts3))" by auto
  moreover from this(2) have "grp_link (sg, cf_state (sk_cfg ts3)) 0 2" by (simp add: grp_up_def SHARD_NSRV_def)
  moreover from arg_cong[OF r(6), of length] r(7) have "length (Groups c) = 5" by simp
  ultimately show ?thesis using r(1-5) by blast
qed

end
